(* ===== verification/Prelude.thy ===== *)
theory Prelude
  imports Main "HOL-Library.Monad_Syntax" "HOL-Library.Word"
begin

text \<open>
  Shared vocabulary of the development. An operation of the program that can end the process
  abnormally (a failed \<open>ASSERT\<close>, an uncaught exception, a call of \<open>abort\<close>)
  returns an \<open>option\<close>, and \<open>None\<close> is the abnormal end; sequences of such
  operations are written in the \<open>do\<close> notation of the option monad. Loops over the
  elements of a container are \<open>foldM\<close> and \<open>mapM\<close> below.
\<close>

named_theorems sem_simps \<open>equations that evaluate the semantics of model expressions\<close>
named_theorems inv_rules \<open>introduction rules: operations keep the invariants\<close>

type_synonym guid = nat
type_synonym dim = nat

text \<open>\<open>ASSERT(c)\<close> of ELM (the build does not define \<open>NDEBUG\<close>).\<close>

definition assert_that :: "bool \<Rightarrow> unit option" where
  "assert_that c = (if c then Some () else None)"

lemma assert_that_simps [simp]:
  "assert_that True = Some ()"
  "assert_that False = None"
  "assert_that c = Some u \<longleftrightarrow> c"
  "assert_that c = None \<longleftrightarrow> \<not> c"
  by (simp_all add: assert_that_def)

fun foldM :: "('a \<Rightarrow> 's \<Rightarrow> 's option) \<Rightarrow> 'a list \<Rightarrow> 's \<Rightarrow> 's option" where
  "foldM f [] s = Some s"
| "foldM f (x # xs) s = do { s' \<leftarrow> f x s; foldM f xs s' }"

fun mapM :: "('a \<Rightarrow> 'b option) \<Rightarrow> 'a list \<Rightarrow> 'b list option" where
  "mapM f [] = Some []"
| "mapM f (x # xs) = do { y \<leftarrow> f x; ys \<leftarrow> mapM f xs; Some (y # ys) }"

lemmas bindE = Option.bind_eq_Some_conv

lemma foldM_append:
  "foldM f (xs @ ys) s = do { s' \<leftarrow> foldM f xs s; foldM f ys s' }"
  by (induction xs arbitrary: s) (auto split: Option.bind_splits)

text \<open>The invariant rule of the loop combinator.\<close>

lemma foldM_invariant:
  assumes "foldM f xs s = Some t" and "I s"
    and "\<And>x s s'. x \<in> set xs \<Longrightarrow> I s \<Longrightarrow> f x s = Some s' \<Longrightarrow> I s'"
  shows "I t"
  using assms
proof (induction xs arbitrary: s)
  case Nil
  then show ?case by simp
next
  case (Cons x xs)
  from Cons.prems(1) obtain s' where s': "f x s = Some s'" "foldM f xs s' = Some t"
    by (auto simp: bindE)
  have "I s'" using Cons.prems s'(1) by auto
  then show ?case using Cons.IH [OF s'(2)] Cons.prems(3) by auto
qed

text \<open>A loop whose body cannot fail under its invariant does not fail.\<close>

lemma foldM_total:
  assumes "I s"
    and "\<And>x s. x \<in> set xs \<Longrightarrow> I s \<Longrightarrow> \<exists>s'. f x s = Some s' \<and> I s'"
  shows "\<exists>t. foldM f xs s = Some t \<and> I t"
  using assms
proof (induction xs arbitrary: s)
  case Nil
  then show ?case by simp
next
  case (Cons x xs)
  from Cons.prems obtain s' where "f x s = Some s'" "I s'" by auto
  then show ?case using Cons.IH [of s'] Cons.prems(2) by auto
qed

lemma mapM_Some_iff:
  "mapM f xs = Some ys \<longleftrightarrow> list_all2 (\<lambda>x y. f x = Some y) xs ys"
proof (induction xs arbitrary: ys)
  case Nil
  then show ?case by auto
next
  case (Cons x xs)
  then show ?case by (cases ys) (auto simp: bindE)
qed

lemma mapM_total: "(\<And>x. x \<in> set xs \<Longrightarrow> f x \<noteq> None) \<Longrightarrow> mapM f xs \<noteq> None"
  by (induction xs) (auto simp: Option.bind_eq_None_conv)

lemma mapM_set:
  assumes "mapM f xs = Some ys" and "y \<in> set ys"
  shows "\<exists>x \<in> set xs. f x = Some y"
  using assms by (auto simp: mapM_Some_iff list_all2_conv_all_nth in_set_conv_nth) force

lemma mapM_set':
  assumes "mapM f xs = Some ys" and "x \<in> set xs"
  shows "\<exists>y \<in> set ys. f x = Some y"
  using assms by (auto simp: mapM_Some_iff list_all2_conv_all_nth in_set_conv_nth)

subsection \<open>Finite maps: the interface\<close>

text \<open>
  The operations every client of a keyed container uses, with the laws the container
  promises under its invariant. The ordered map and the hash table of the program both
  provide it.
\<close>

locale finite_map =
  fixes emp :: 'm
    and look :: "'m \<Rightarrow> 'k \<Rightarrow> 'v option"
    and upd :: "'k \<Rightarrow> 'v \<Rightarrow> 'm \<Rightarrow> 'm"
    and del :: "'k \<Rightarrow> 'm \<Rightarrow> 'm"
    and entries :: "'m \<Rightarrow> ('k \<times> 'v) list"
    and ok :: "'m \<Rightarrow> bool"
  assumes emp_ok: "ok emp"
    and upd_ok: "ok m \<Longrightarrow> ok (upd k v m)"
    and del_ok: "ok m \<Longrightarrow> ok (del k m)"
    and look_emp: "look emp k = None"
    and look_upd: "ok m \<Longrightarrow> look (upd k v m) = (look m)(k \<mapsto> v)"
    and look_del: "ok m \<Longrightarrow> look (del k m) = (look m)(k := None)"
    and entries_distinct: "ok m \<Longrightarrow> distinct (map fst (entries m))"
    and entries_look: "ok m \<Longrightarrow> map_of (entries m) = look m"
begin

lemma entries_iff: "ok m \<Longrightarrow> (k, v) \<in> set (entries m) \<longleftrightarrow> look m k = Some v"
  using entries_distinct entries_look map_of_eq_Some_iff by metis

lemma finite_dom: "ok m \<Longrightarrow> finite (dom (look m))"
  using entries_look [of m, symmetric] by (simp add: finite_dom_map_of)

lemma card_dom: "ok m \<Longrightarrow> card (dom (look m)) = length (entries m)"
proof -
  assume m: "ok m"
  have "dom (look m) = fst ` set (entries m)"
    using m by (simp add: entries_look [symmetric] dom_map_of_conv_image_fst)
  then show ?thesis
    using distinct_card [OF entries_distinct [OF m]] by simp
qed

lemma fold_upd_ok: "ok m \<Longrightarrow> ok (fold (\<lambda>(k, v). upd k v) xs m)"
  by (induction xs arbitrary: m) (auto simp: upd_ok)

lemma fold_upd_look:
  assumes "ok m" and "distinct (map fst xs)"
  shows "look (fold (\<lambda>(k, v). upd k v) xs m) = look m ++ map_of xs"
  using assms
proof (induction xs arbitrary: m)
  case Nil
  then show ?case by simp
next
  case (Cons x xs)
  obtain k v where x: "x = (k, v)" by (cases x)
  have "look (fold (\<lambda>(k, v). upd k v) xs (upd k v m)) = look (upd k v m) ++ map_of xs"
    using Cons x by (auto simp: upd_ok)
  moreover have "map_of xs k = None"
    using Cons.prems(2) x by (auto simp: map_of_eq_None_iff)
  ultimately show ?case
    using x Cons.prems(1)
    by (auto simp: look_upd fun_eq_iff map_add_def split: option.splits)
qed

text \<open>A loop that stores a value for some of the keys it meets.\<close>

lemma fold_upd_if:
  assumes "ok m" and "distinct (map fst xs)"
  shows "ok (fold (\<lambda>(k, x) m. if p k x then upd k (f k x) m else m) xs m)"
    and "look (fold (\<lambda>(k, x) m. if p k x then upd k (f k x) m else m) xs m) k =
      (case map_of xs k of
         Some x \<Rightarrow> if p k x then Some (f k x) else look m k
       | None \<Rightarrow> look m k)"
proof -
  have "ok (fold (\<lambda>(k, x) m. if p k x then upd k (f k x) m else m) xs m) \<and>
    look (fold (\<lambda>(k, x) m. if p k x then upd k (f k x) m else m) xs m) k =
      (case map_of xs k of
         Some x \<Rightarrow> if p k x then Some (f k x) else look m k
       | None \<Rightarrow> look m k)"
    using assms
  proof (induction xs arbitrary: m)
    case Nil
    then show ?case by simp
  next
    case (Cons y xs)
    obtain k' x where y: "y = (k', x)" by (cases y)
    have "map_of xs k' = None" using Cons.prems(2) y by (simp add: map_of_eq_None_iff)
    then show ?case
      using Cons.IH [of "if p k' x then upd k' (f k' x) m else m"] Cons.prems y
      by (auto simp: upd_ok look_upd split: option.splits)
  qed
  then show "ok (fold (\<lambda>(k, x) m. if p k x then upd k (f k x) m else m) xs m)"
    and "look (fold (\<lambda>(k, x) m. if p k x then upd k (f k x) m else m) xs m) k =
      (case map_of xs k of
         Some x \<Rightarrow> if p k x then Some (f k x) else look m k
       | None \<Rightarrow> look m k)" by blast+
qed

text \<open>Copying a container by reinserting its entries into an empty one.\<close>

lemma rebuild:
  "ok m \<Longrightarrow> look (fold (\<lambda>(k, v). upd k v) (entries m) emp) = look m"
  by (simp add: fold_upd_look emp_ok entries_distinct entries_look look_emp fun_eq_iff
      map_add_def split: option.splits)

end

end
