(* ===== verification/Work_List.thy ===== *)
theory Work_List
  imports Prelude
begin

text \<open>
  The work-list driver of the analysis (\<open>otawa/ai/WorkListDriver.h\<close> with the graph of
  \<open>otawa/ai/CFGGraph.h\<close> and the store of \<open>otawa/ai/EdgeStore.h\<close>, of which
  \<open>include/OrderedDriver.h\<close> is a copy): the blocks to process, kept in the processing order
  and without repetition, and the states of the edges. A block is its index in the graph, an
  edge its number. The domain is a record of operations that may abort and pass the global
  state \<open>'w\<close> along.
\<close>

subsection \<open>Graphs and stores\<close>

record graph =
  g_count :: nat
  g_entry :: nat
  g_exit :: nat
  g_edges :: "(nat \<times> nat) list"
  g_outs :: "nat list list"
  g_ins :: "nat list list"

definition sourceOf :: "graph \<Rightarrow> nat \<Rightarrow> nat" where "sourceOf g e = fst (g_edges g ! e)"
definition sinkOf :: "graph \<Rightarrow> nat \<Rightarrow> nat" where "sinkOf g e = snd (g_edges g ! e)"
definition succs :: "graph \<Rightarrow> nat \<Rightarrow> nat list" where "succs g v = g_outs g ! v"
definition preds :: "graph \<Rightarrow> nat \<Rightarrow> nat list" where "preds g v = g_ins g ! v"

text \<open>The lists of edges of every block agree with the ends of the edges.\<close>

definition graph_ok :: "graph \<Rightarrow> bool" where
  "graph_ok g \<longleftrightarrow> g_entry g < g_count g \<and> g_exit g < g_count g \<and>
     length (g_outs g) = g_count g \<and> length (g_ins g) = g_count g \<and>
     (\<forall>v < g_count g. \<forall>e. e \<in> set (succs g v) \<longleftrightarrow> e < length (g_edges g) \<and> sourceOf g e = v) \<and>
     (\<forall>v < g_count g. \<forall>e. e \<in> set (preds g v) \<longleftrightarrow> e < length (g_edges g) \<and> sinkOf g e = v) \<and>
     (\<forall>e < length (g_edges g). sourceOf g e < g_count g \<and> sinkOf g e < g_count g)"

record ('s, 'w) ai_domain =
  ad_init :: 's
  ad_bot :: 's
  ad_join :: "'s \<Rightarrow> 's \<Rightarrow> 'w \<Rightarrow> ('s \<times> 'w) option"
  ad_equals :: "'s \<Rightarrow> 's \<Rightarrow> 'w \<Rightarrow> (bool \<times> 'w) option"

type_synonym 's store = "nat \<rightharpoonup> 's"

definition es_get :: "('s, 'w) ai_domain \<Rightarrow> 's store \<Rightarrow> nat \<Rightarrow> 's" where
  "es_get D m e = (case m e of Some s \<Rightarrow> s | None \<Rightarrow> ad_bot D)"

definition es_set :: "nat \<Rightarrow> 's \<Rightarrow> 's store \<Rightarrow> 's store" where
  "es_set e s m = m(e \<mapsto> s)"

definition es_set_vertex :: "graph \<Rightarrow> nat \<Rightarrow> 's \<Rightarrow> 's store \<Rightarrow> 's store" where
  "es_set_vertex g v s m = fold (\<lambda>e. es_set e s) (succs g v) m"

subsection \<open>The list of blocks to process\<close>

text \<open>
  \<open>wl_vertices\<close> is a vector used from its end, \<open>wl_set\<close> the bit vector of its members.
\<close>

record 's driver =
  wl_vertices :: "nat list"
  wl_set :: "bool list"
  wl_cur :: nat
  wl_end :: bool
  wl_store :: "'s store"

text \<open>
  \<open>PushHelper\<close>: the new block goes in front of the first one that it does not precede.
  Without an order it goes to the end. A comparison may fail an assertion.
\<close>

type_synonym order = "(nat \<Rightarrow> nat \<Rightarrow> bool option) option"

fun wl_insert :: "(nat \<Rightarrow> nat \<Rightarrow> bool option) \<Rightarrow> nat \<Rightarrow> nat list \<Rightarrow> nat list option" where
  "wl_insert prec v [] = Some [v]"
| "wl_insert prec v (w # ws) = do {
     b \<leftarrow> prec v w;
     if b then map_option ((#) w) (wl_insert prec v ws) else Some (v # w # ws) }"

definition push_vertex :: "order \<Rightarrow> nat \<Rightarrow> nat list \<Rightarrow> nat list option" where
  "push_vertex ord v ws = (case ord of None \<Rightarrow> Some (ws @ [v]) | Some prec \<Rightarrow> wl_insert prec v ws)"

definition wl_push :: "order \<Rightarrow> nat \<Rightarrow> 's driver \<Rightarrow> 's driver option" where
  "wl_push ord v w =
     (if \<not> wl_set w ! v then do {
        ws \<leftarrow> push_vertex ord v (wl_vertices w);
        Some (w\<lparr>wl_vertices := ws, wl_set := (wl_set w)[v := True]\<rparr>) }
      else Some w)"

definition wl_pop :: "'s driver \<Rightarrow> nat \<times> 's driver" where
  "wl_pop w = (let v = last (wl_vertices w) in
     (v, w\<lparr>wl_vertices := butlast (wl_vertices w), wl_set := (wl_set w)[v := False]\<rparr>))"

text \<open>\<open>next\<close>: the exit block is dropped, not processed.\<close>

function wl_next :: "graph \<Rightarrow> 's driver \<Rightarrow> 's driver" where
  "wl_next g w =
     (if wl_vertices w = [] then w\<lparr>wl_end := True\<rparr>
      else let (v, w') = wl_pop w; w'' = w'\<lparr>wl_cur := v\<rparr>
        in if v \<noteq> g_exit g then w'' else wl_next g w'')"
  by pat_completeness auto
termination
  by (relation "measure (\<lambda>(g, w). length (wl_vertices w))") (auto simp: wl_pop_def Let_def)

declare wl_next.simps [simp del]

definition wl_change :: "graph \<Rightarrow> order \<Rightarrow> nat \<Rightarrow> 's \<Rightarrow> 's driver \<Rightarrow> 's driver option" where
  "wl_change g ord e s w = wl_push ord (sinkOf g e) (w\<lparr>wl_store := es_set e s (wl_store w)\<rparr>)"

definition wl_check ::
  "('s, 'w) ai_domain \<Rightarrow> graph \<Rightarrow> order \<Rightarrow> nat \<Rightarrow> 's \<Rightarrow> 's driver \<times> 'w \<Rightarrow> ('s driver \<times> 'w) option" where
  "wl_check D g ord e s = (\<lambda>(w, x). do {
     (eq, x) \<leftarrow> ad_equals D s (es_get D (wl_store w) e) x;
     w \<leftarrow> (if \<not> eq then wl_change g ord e s w else Some w);
     Some (w, x) })"

definition wl_check_join ::
  "('s, 'w) ai_domain \<Rightarrow> graph \<Rightarrow> order \<Rightarrow> nat \<Rightarrow> 's \<Rightarrow> 's driver \<times> 'w \<Rightarrow> ('s driver \<times> 'w) option" where
  "wl_check_join D g ord e s = (\<lambda>(w, x). do {
     let ps = es_get D (wl_store w) e;
     (joined, x) \<leftarrow> ad_join D ps s x;
     (eq, x) \<leftarrow> ad_equals D joined ps x;
     w \<leftarrow> (if \<not> eq then wl_change g ord e joined w else Some w);
     Some (w, x) })"

definition wl_init :: "('s, 'w) ai_domain \<Rightarrow> graph \<Rightarrow> order \<Rightarrow> 's driver option" where
  "wl_init D g ord = do {
     let w = \<lparr>wl_vertices = [], wl_set = replicate (g_count g) False, wl_cur = 0, wl_end = False,
       wl_store = es_set_vertex g (g_entry g) (ad_init D) Map.empty\<rparr>;
     w \<leftarrow> foldM (\<lambda>e. wl_push ord (sinkOf g e)) (succs g (g_entry g)) w;
     Some (wl_next g w) }"

definition wl_input ::
  "('s, 'w) ai_domain \<Rightarrow> graph \<Rightarrow> nat \<Rightarrow> 's store \<Rightarrow> 'w \<Rightarrow> ('s \<times> 'w) option" where
  "wl_input D g v m x = foldM (\<lambda>e (s, x). ad_join D s (es_get D m e) x) (preds g v) (ad_bot D, x)"

text \<open>
  \<open>changeAll\<close>: every block below the entry, by a search whose stack takes each block once,
  so that as many rounds as there are blocks, and one more, suffice. The bits are not cleared
  with the vector.
\<close>

fun collect_all :: "nat \<Rightarrow> graph \<Rightarrow> order \<Rightarrow> nat list \<Rightarrow> 's driver \<Rightarrow> 's driver option" where
  "collect_all 0 g ord todo w = Some w"
| "collect_all (Suc fuel) g ord todo w =
     (if todo = [] then Some w
      else do {
        let v = last todo;
        (todo, w) \<leftarrow> foldM (\<lambda>e (todo, w).
          if \<not> wl_set w ! sinkOf g e then do { w \<leftarrow> wl_push ord (sinkOf g e) w; Some (todo @ [sinkOf g e], w) }
          else Some (todo, w)) (succs g v) (butlast todo, w);
        collect_all fuel g ord todo w })"

definition wl_changeAll :: "graph \<Rightarrow> order \<Rightarrow> 's driver \<Rightarrow> 's driver option" where
  "wl_changeAll g ord w = do {
     w \<leftarrow> collect_all (g_count g + 1) g ord [g_entry g] (w\<lparr>wl_vertices := []\<rparr>);
     Some (wl_next g (w\<lparr>wl_vertices := rev (wl_vertices w)\<rparr>)) }"

subsection \<open>The list has no repetition and the bits mirror it\<close>

definition driver_ok :: "graph \<Rightarrow> 's driver \<Rightarrow> bool" where
  "driver_ok g w \<longleftrightarrow> length (wl_set w) = g_count g \<and> distinct (wl_vertices w) \<and>
     set (wl_vertices w) \<subseteq> {..<g_count g} \<and> (\<forall>v < g_count g. wl_set w ! v \<longleftrightarrow> v \<in> set (wl_vertices w))"

lemma wl_insert_set: "wl_insert prec v ws = Some ws' \<Longrightarrow> set ws' = insert v (set ws) \<and> length ws' = Suc (length ws)"
  by (induction ws arbitrary: ws') (auto simp: bindE split: if_splits)

lemma wl_insert_distinct: "wl_insert prec v ws = Some ws' \<Longrightarrow> distinct ws \<Longrightarrow> v \<notin> set ws \<Longrightarrow> distinct ws'"
proof -
  assume i: "wl_insert prec v ws = Some ws'" and "distinct ws" "v \<notin> set ws"
  then have "card (set ws') = length ws'" using wl_insert_set [OF i] by (simp add: distinct_card)
  then show ?thesis by (rule card_distinct)
qed

lemma push_vertex_set:
  assumes "push_vertex ord v ws = Some ws'"
  shows "set ws' = insert v (set ws)" and "distinct ws \<Longrightarrow> v \<notin> set ws \<Longrightarrow> distinct ws'"
  using assms wl_insert_set wl_insert_distinct by (auto simp: push_vertex_def split: option.splits)

lemma wl_push_ok:
  assumes "driver_ok g w" and "v < g_count g" and p: "wl_push ord v w = Some w'"
  shows "driver_ok g w'" and "set (wl_vertices w') = insert v (set (wl_vertices w))"
    and "wl_store w' = wl_store w" and "wl_cur w' = wl_cur w" and "wl_end w' = wl_end w"
proof -
  have "driver_ok g w' \<and> set (wl_vertices w') = insert v (set (wl_vertices w)) \<and>
    wl_store w' = wl_store w \<and> wl_cur w' = wl_cur w \<and> wl_end w' = wl_end w"
  proof (cases "wl_set w ! v")
    case True
    then show ?thesis using assms by (auto simp: wl_push_def driver_ok_def)
  next
    case False
    then obtain ws where ws: "push_vertex ord v (wl_vertices w) = Some ws"
      and w': "w' = w\<lparr>wl_vertices := ws, wl_set := (wl_set w)[v := True]\<rparr>"
      using p by (auto simp: wl_push_def bindE)
    have "v \<notin> set (wl_vertices w)" using False assms(1,2) by (simp add: driver_ok_def)
    with push_vertex_set [OF ws] show ?thesis
      using assms(1,2) by (auto simp: w' driver_ok_def nth_list_update)
  qed
  then show "driver_ok g w'" "set (wl_vertices w') = insert v (set (wl_vertices w))"
    "wl_store w' = wl_store w" "wl_cur w' = wl_cur w" "wl_end w' = wl_end w" by blast+
qed

lemma wl_pop_ok:
  assumes ok: "driver_ok g w" and ne: "wl_vertices w \<noteq> []" and p: "wl_pop w = (v, w')"
  shows "driver_ok g w'" and "v \<in> set (wl_vertices w)" and "set (wl_vertices w') = set (wl_vertices w) - {v}"
    and "wl_store w' = wl_store w"
proof -
  obtain ws where ws: "wl_vertices w = ws @ [v]" using ne p by (metis append_butlast_last_id fst_conv wl_pop_def Let_def)
  have w': "w' = w\<lparr>wl_vertices := ws, wl_set := (wl_set w)[v := False]\<rparr>" using p by (auto simp: wl_pop_def Let_def ws)
  show "driver_ok g w'" "v \<in> set (wl_vertices w)" "set (wl_vertices w') = set (wl_vertices w) - {v}"
    "wl_store w' = wl_store w"
    using ok by (auto simp: driver_ok_def w' ws nth_list_update)
qed

text \<open>
  The next block comes from the list; when the list is exhausted the driver ends. Blocks leave
  the list only to be processed, but for the exit.
\<close>

lemma wl_next_ok:
  assumes "driver_ok g w" and "\<not> wl_end w"
  shows "driver_ok g (wl_next g w)" and "wl_store (wl_next g w) = wl_store w"
    and "wl_end (wl_next g w) \<Longrightarrow> wl_vertices (wl_next g w) = [] \<and> set (wl_vertices w) \<subseteq> {g_exit g}"
    and "\<not> wl_end (wl_next g w) \<Longrightarrow> wl_cur (wl_next g w) \<in> set (wl_vertices w) - {g_exit g} \<and>
      set (wl_vertices w) - {g_exit g} \<subseteq> insert (wl_cur (wl_next g w)) (set (wl_vertices (wl_next g w))) \<and>
      set (wl_vertices (wl_next g w)) \<subseteq> set (wl_vertices w) - {wl_cur (wl_next g w)}"
proof -
  have "driver_ok g (wl_next g w) \<and> wl_store (wl_next g w) = wl_store w \<and>
    (if wl_end (wl_next g w) then wl_vertices (wl_next g w) = [] \<and> set (wl_vertices w) \<subseteq> {g_exit g}
     else wl_cur (wl_next g w) \<in> set (wl_vertices w) - {g_exit g} \<and>
      set (wl_vertices w) - {g_exit g} \<subseteq> insert (wl_cur (wl_next g w)) (set (wl_vertices (wl_next g w))) \<and>
      set (wl_vertices (wl_next g w)) \<subseteq> set (wl_vertices w) - {wl_cur (wl_next g w)})"
    using assms
  proof (induction g w rule: wl_next.induct)
    case (1 g w)
    show ?case
    proof (cases "wl_vertices w = []")
      case True
      then show ?thesis using "1.prems" by (subst (1 2 3 4 5 6 7 8) wl_next.simps) (simp add: driver_ok_def)
    next
      case False
      obtain v w' where p: "wl_pop w = (v, w')" by (cases "wl_pop w")
      note ok = wl_pop_ok [OF "1.prems"(1) False p]
      let ?w = "w'\<lparr>wl_cur := v\<rparr>"
      have w: "driver_ok g ?w" "\<not> wl_end ?w" using ok(1) "1.prems"(2) p by (auto simp: driver_ok_def wl_pop_def Let_def)
      show ?thesis
      proof (cases "v = g_exit g")
        case True
        have "wl_next g w = wl_next g ?w" using False p True by (subst wl_next.simps) simp
        then show ?thesis using "1.IH" [OF False refl p [symmetric] refl _ w] True ok by (auto split: if_splits)
      next
        case ne: False
        have "wl_next g w = ?w" using False p ne by (subst wl_next.simps) simp
        then show ?thesis using w ok ne by auto
      qed
    qed
  qed
  then show "driver_ok g (wl_next g w)" "wl_store (wl_next g w) = wl_store w"
    "wl_end (wl_next g w) \<Longrightarrow> wl_vertices (wl_next g w) = [] \<and> set (wl_vertices w) \<subseteq> {g_exit g}"
    "\<not> wl_end (wl_next g w) \<Longrightarrow> wl_cur (wl_next g w) \<in> set (wl_vertices w) - {g_exit g} \<and>
      set (wl_vertices w) - {g_exit g} \<subseteq> insert (wl_cur (wl_next g w)) (set (wl_vertices (wl_next g w))) \<and>
      set (wl_vertices (wl_next g w)) \<subseteq> set (wl_vertices w) - {wl_cur (wl_next g w)}"
    by (simp_all split: if_splits)
qed

subsection \<open>The processing order\<close>

text \<open>
  What the driver expects of an order: on the blocks \<open>A\<close> of the graph the comparison never
  aborts, and it is a strict order whose incomparability is transitive.
\<close>

locale processing_order =
  fixes prec :: "nat \<Rightarrow> nat \<Rightarrow> bool option" and A :: "nat set"
  assumes total: "a \<in> A \<Longrightarrow> b \<in> A \<Longrightarrow> prec a b \<noteq> None"
    and asym: "a \<in> A \<Longrightarrow> b \<in> A \<Longrightarrow> prec a b = Some True \<Longrightarrow> prec b a = Some False"
    and negtrans: "a \<in> A \<Longrightarrow> b \<in> A \<Longrightarrow> c \<in> A \<Longrightarrow> prec a b = Some False \<Longrightarrow> prec b c = Some False \<Longrightarrow>
      prec a c = Some False"
begin

text \<open>No block stands before one that must come after it: the last one is first in the order.\<close>

abbreviation ordered :: "nat list \<Rightarrow> bool" where
  "ordered ws \<equiv> sorted_wrt (\<lambda>x y. prec x y = Some False) ws \<and> set ws \<subseteq> A"

lemma insert_total: "set ws \<subseteq> A \<Longrightarrow> v \<in> A \<Longrightarrow> \<exists>ws'. wl_insert prec v ws = Some ws'"
proof (induction ws)
  case (Cons w ws)
  then obtain b where "prec v w = Some b" using total [of v w] by auto
  then show ?case using Cons by auto
qed simp

lemma insert_ordered:
  assumes "ordered ws" and "v \<in> A" and "wl_insert prec v ws = Some ws'"
  shows "ordered ws'"
  using assms
proof (induction ws arbitrary: ws')
  case (Cons w ws)
  from Cons.prems(3) obtain b where b: "prec v w = Some b" by (cases "prec v w") simp_all
  show ?case
  proof (cases b)
    case True
    then obtain ws1 where ws1: "wl_insert prec v ws = Some ws1" "ws' = w # ws1"
      using Cons.prems(3) b by (cases "wl_insert prec v ws") auto
    have "ordered ws1" using Cons.IH [OF _ Cons.prems(2) ws1(1)] Cons.prems(1) by simp
    moreover have "prec w v = Some False" using asym [of v w] b True Cons.prems(1,2) by simp
    moreover have "set ws1 = insert v (set ws)" using wl_insert_set [OF ws1(1)] by simp
    ultimately show ?thesis using Cons.prems(1,2) ws1(2) by auto
  next
    case False
    then have ws': "ws' = v # w # ws" using Cons.prems(3) b by simp
    have "prec v x = Some False" if "x \<in> set ws" for x
      using negtrans [of v w x] b False Cons.prems(1,2) that by auto
    then show ?thesis using Cons.prems(1,2) b False by (simp add: ws')
  qed
qed (auto simp: bindE)

lemma last_first:
  assumes "ordered ws" and "x \<in> set (butlast ws)"
  shows "prec x (last ws) = Some False"
proof -
  have "ws = butlast ws @ [last ws]" using assms(2) by (metis append_butlast_last_id butlast.simps(1) empty_iff list.set(1))
  then have "sorted_wrt (\<lambda>x y. prec x y = Some False) (butlast ws @ [last ws])" using assms(1) by simp
  then show ?thesis using assms(2) by (simp add: sorted_wrt_append)
qed

lemma ordered_butlast:
  assumes "ordered ws"
  shows "ordered (butlast ws)"
proof (cases "ws = []")
  case False
  then have "ws = butlast ws @ [last ws]" by simp
  then have "sorted_wrt (\<lambda>x y. prec x y = Some False) (butlast ws @ [last ws])" using assms by simp
  then show ?thesis using assms by (auto simp: sorted_wrt_append dest: in_set_butlastD)
qed simp

end

subsection \<open>No change is lost\<close>

text \<open>
  While it processes a block, the analysis acts on the driver by changing the states of edges.
\<close>

inductive changes :: "graph \<Rightarrow> order \<Rightarrow> 's driver \<Rightarrow> 's driver \<Rightarrow> bool" for g ord where
  none: "changes g ord w w"
| change: "changes g ord w w' \<Longrightarrow> e < length (g_edges g) \<Longrightarrow> wl_change g ord e s w' = Some w'' \<Longrightarrow> changes g ord w w''"

text \<open>
  The states of the driver during an analysis, with the store that every block saw when it was
  last processed.
\<close>

inductive driven ::
  "('s, 'w) ai_domain \<Rightarrow> graph \<Rightarrow> order \<Rightarrow> 's driver \<Rightarrow> (nat \<Rightarrow> 's store) \<Rightarrow> bool" for D g ord where
  start: "wl_init D g ord = Some w \<Longrightarrow> driven D g ord w (\<lambda>v. Map.empty)"
| work: "driven D g ord w seen \<Longrightarrow> \<not> wl_end w \<Longrightarrow> changes g ord w w' \<Longrightarrow>
    driven D g ord (wl_next g w') (seen(wl_cur w := wl_store w))"

inductive_cases changesE: "changes g ord w w'"

lemma changes_trans: "changes g ord w' w'' \<Longrightarrow> changes g ord w w' \<Longrightarrow> changes g ord w w''"
  by (induction rule: changes.induct) (auto intro: changes.intros)

lemma changes_check:
  assumes "wl_check D g ord e s (w, x) = Some (w', x')" and "e < length (g_edges g)"
  shows "changes g ord w w'"
  using assms by (auto simp: wl_check_def bindE split: if_splits intro: changes.intros)

lemma changes_ok:
  assumes "changes g ord w w'" and g: "graph_ok g" and "driver_ok g w"
  shows "driver_ok g w'" and "wl_cur w' = wl_cur w" and "wl_end w' = wl_end w"
    and "set (wl_vertices w) \<subseteq> set (wl_vertices w')"
    and "wl_store w' e \<noteq> wl_store w e \<Longrightarrow> sinkOf g e \<in> set (wl_vertices w')"
proof -
  have "driver_ok g w' \<and> wl_cur w' = wl_cur w \<and> wl_end w' = wl_end w \<and> set (wl_vertices w) \<subseteq> set (wl_vertices w') \<and>
    (\<forall>e. wl_store w' e \<noteq> wl_store w e \<longrightarrow> sinkOf g e \<in> set (wl_vertices w'))"
    using assms(1,3)
  proof (induction rule: changes.induct)
    case (change w w' e s w'')
    let ?w = "w'\<lparr>wl_store := es_set e s (wl_store w')\<rparr>"
    have p: "wl_push ord (sinkOf g e) ?w = Some w''" using change.hyps(3) by (simp add: wl_change_def)
    have ok: "driver_ok g ?w" and lt: "sinkOf g e < g_count g"
      using change g by (auto simp: driver_ok_def graph_ok_def)
    note q = wl_push_ok [OF ok lt p]
    show ?case using change.IH change.prems q by (auto simp: es_set_def)
  qed simp
  then show "driver_ok g w'" "wl_cur w' = wl_cur w" "wl_end w' = wl_end w"
    "set (wl_vertices w) \<subseteq> set (wl_vertices w')"
    "wl_store w' e \<noteq> wl_store w e \<Longrightarrow> sinkOf g e \<in> set (wl_vertices w')" by blast+
qed

lemma init_ok:
  assumes g: "graph_ok g" and i: "wl_init D g ord = Some w"
  shows "driver_ok g w"
    and "wl_store w e \<noteq> None \<Longrightarrow> sinkOf g e = g_exit g \<or> sinkOf g e \<in> set (wl_vertices w) \<or>
      \<not> wl_end w \<and> sinkOf g e = wl_cur w"
    and "\<not> wl_end w \<Longrightarrow> wl_cur w \<noteq> g_exit g \<and> wl_cur w < g_count g"
proof -
  let ?st = "es_set_vertex g (g_entry g) (ad_init D) Map.empty"
  let ?w0 = "\<lparr>wl_vertices = [], wl_set = replicate (g_count g) False, wl_cur = 0, wl_end = False, wl_store = ?st\<rparr>"
  obtain w1 where w1: "foldM (\<lambda>e. wl_push ord (sinkOf g e)) (succs g (g_entry g)) ?w0 = Some w1" "w = wl_next g w1"
    using i by (auto simp: wl_init_def bindE)
  have es: "e < length (g_edges g)" if "e \<in> set (succs g (g_entry g))" for e
    using that g by (auto simp: graph_ok_def)
  have *: "driver_ok g w' \<and> wl_store w' = wl_store w0 \<and> wl_end w' = wl_end w0 \<and>
      set (wl_vertices w') = sinkOf g ` set es \<union> set (wl_vertices w0)"
    if "foldM (\<lambda>e. wl_push ord (sinkOf g e)) es w0 = Some w'" "driver_ok g w0"
      "\<And>e. e \<in> set es \<Longrightarrow> e < length (g_edges g)" for es and w0 w' :: "'a driver"
    using that
  proof (induction es arbitrary: w0)
    case (Cons e es)
    obtain w1 where p: "wl_push ord (sinkOf g e) w0 = Some w1" "foldM (\<lambda>e. wl_push ord (sinkOf g e)) es w1 = Some w'"
      using Cons.prems(1) by (auto simp: bindE)
    have "sinkOf g e < g_count g" using Cons.prems(3) g by (simp add: graph_ok_def)
    note q = wl_push_ok [OF Cons.prems(2) this p(1)]
    show ?case using Cons.IH [OF p(2) q(1)] Cons.prems(3) q by auto
  qed simp
  have "driver_ok g ?w0" by (simp add: driver_ok_def)
  with * [OF w1(1) _ es] have ok: "driver_ok g w1" "wl_store w1 = ?st" "\<not> wl_end w1"
    "set (wl_vertices w1) = sinkOf g ` set (succs g (g_entry g))" by auto
  note nx = wl_next_ok [OF ok(1,3)]
  show "driver_ok g w" using nx(1) w1(2) by simp
  have st: "m e \<noteq> None \<or> e \<in> set es" if "fold (\<lambda>e. es_set e s) es m e \<noteq> None" for es s e and m :: "'a store"
    using that
  proof (induction es arbitrary: m)
    case (Cons a es)
    then have "(es_set a s m) e \<noteq> None \<or> e \<in> set es" by simp
    then show ?case by (auto simp: es_set_def split: if_splits)
  qed simp
  show "sinkOf g e = g_exit g \<or> sinkOf g e \<in> set (wl_vertices w) \<or> \<not> wl_end w \<and> sinkOf g e = wl_cur w"
    if "wl_store w e \<noteq> None"
  proof -
    have "?st e \<noteq> None" using that nx(2) ok(2) w1(2) by simp
    then have "e \<in> set (succs g (g_entry g))" using st [of "ad_init D" "succs g (g_entry g)" Map.empty e] by (simp add: es_set_vertex_def)
    then have "sinkOf g e \<in> set (wl_vertices w1)" using ok(4) by blast
    then show ?thesis using nx(3,4) w1(2) by (cases "wl_end w") auto
  qed
  show "wl_cur w \<noteq> g_exit g \<and> wl_cur w < g_count g" if "\<not> wl_end w"
    using nx(4) that w1(2) ok(1) by (auto simp: driver_ok_def)
qed

theorem no_lost_change:
  assumes "driven D g ord w seen" and g: "graph_ok g"
  shows "driver_ok g w"
    and "\<not> wl_end w \<Longrightarrow> wl_cur w \<noteq> g_exit g \<and> wl_cur w < g_count g"
    and "v < g_count g \<Longrightarrow> v \<noteq> g_exit g \<Longrightarrow> v \<notin> set (wl_vertices w) \<Longrightarrow> wl_end w \<or> v \<noteq> wl_cur w \<Longrightarrow>
      e \<in> set (preds g v) \<Longrightarrow> wl_store w e = seen v e"
proof -
  have "driver_ok g w \<and> (\<not> wl_end w \<longrightarrow> wl_cur w \<noteq> g_exit g \<and> wl_cur w < g_count g) \<and>
    (\<forall>v e. v < g_count g \<longrightarrow> v \<noteq> g_exit g \<longrightarrow> v \<notin> set (wl_vertices w) \<longrightarrow> wl_end w \<or> v \<noteq> wl_cur w \<longrightarrow>
      e \<in> set (preds g v) \<longrightarrow> wl_store w e = seen v e)"
    using assms(1)
  proof (induction rule: driven.induct)
    case (start w)
    have "wl_store w e = None" if "v < g_count g" "v \<noteq> g_exit g" "v \<notin> set (wl_vertices w)" "wl_end w \<or> v \<noteq> wl_cur w"
      "e \<in> set (preds g v)" for v e
    proof (rule ccontr)
      assume "wl_store w e \<noteq> None"
      moreover have "sinkOf g e = v" using that(1,5) g by (auto simp: graph_ok_def)
      ultimately show False using init_ok(2) [OF g start, of e] that by auto
    qed
    then show ?case using init_ok(1,3) [OF g start] by auto
  next
    case (work w seen w')
    then have ok: "driver_ok g w" by blast
    note ch = changes_ok [OF work.hyps(3) g ok]
    have ne: "\<not> wl_end w'" using ch(3) work.hyps(2) by simp
    note nx = wl_next_ok [OF ch(1) ne]
    have cur: "wl_cur (wl_next g w') \<noteq> g_exit g \<and> wl_cur (wl_next g w') < g_count g" if "\<not> wl_end (wl_next g w')"
      using nx(4) [OF that] ch(1) by (auto simp: driver_ok_def)
    have "wl_store (wl_next g w') e = (seen(wl_cur w := wl_store w)) v e"
      if v: "v < g_count g" "v \<noteq> g_exit g" "v \<notin> set (wl_vertices (wl_next g w'))"
        "wl_end (wl_next g w') \<or> v \<noteq> wl_cur (wl_next g w')" and e: "e \<in> set (preds g v)" for v e
    proof -
      have out: "v \<notin> set (wl_vertices w')"
        using nx(3,4) v by (cases "wl_end (wl_next g w')") auto
      have sink: "sinkOf g e = v" using v(1) e g by (auto simp: graph_ok_def)
      then have same: "wl_store w' e = wl_store w e" using ch(5) [of e] out by blast
      have "wl_store w e = (seen(wl_cur w := wl_store w)) v e"
        using work.IH work.hyps(2) v e out ch(4) by auto
      then show ?thesis using nx(2) same by simp
    qed
    then show ?case using nx(1) cur by blast
  qed
  then show "driver_ok g w"
    and "\<not> wl_end w \<Longrightarrow> wl_cur w \<noteq> g_exit g \<and> wl_cur w < g_count g"
    and "v < g_count g \<Longrightarrow> v \<noteq> g_exit g \<Longrightarrow> v \<notin> set (wl_vertices w) \<Longrightarrow> wl_end w \<or> v \<noteq> wl_cur w \<Longrightarrow>
      e \<in> set (preds g v) \<Longrightarrow> wl_store w e = seen v e" by blast+
qed

context processing_order
begin

lemma push_ordered:
  assumes "wl_push (Some prec) v w = Some w'" and "v \<in> A" and "ordered (wl_vertices w)"
  shows "ordered (wl_vertices w')"
proof (cases "wl_set w ! v")
  case True
  then show ?thesis using assms by (simp add: wl_push_def)
next
  case False
  then obtain ws where "wl_insert prec v (wl_vertices w) = Some ws" "wl_vertices w' = ws"
    using assms(1) by (auto simp: wl_push_def push_vertex_def bindE)
  then show ?thesis using insert_ordered [OF assms(3,2)] by simp
qed

text \<open>The block that \<open>next\<close> takes follows none of those it leaves.\<close>

lemma next_ordered:
  assumes "ordered (wl_vertices w)" and "\<not> wl_end w"
  shows "ordered (wl_vertices (wl_next g w)) \<and>
    (\<not> wl_end (wl_next g w) \<longrightarrow> (\<forall>x \<in> set (wl_vertices (wl_next g w)). prec x (wl_cur (wl_next g w)) = Some False))"
  using assms
proof (induction g w rule: wl_next.induct)
  case (1 g w)
  show ?case
  proof (cases "wl_vertices w = []")
    case True
    then have "wl_next g w = w\<lparr>wl_end := True\<rparr>" by (subst wl_next.simps) simp
    then show ?thesis using True by simp
  next
    case False
    obtain v w' where p: "wl_pop w = (v, w')" by (cases "wl_pop w")
    then have v: "v = last (wl_vertices w)" "wl_vertices w' = butlast (wl_vertices w)" "\<not> wl_end w'"
      using "1.prems"(2) by (auto simp: wl_pop_def Let_def)
    have o: "ordered (wl_vertices w')" using ordered_butlast [OF "1.prems"(1)] v(2) by simp
    show ?thesis
    proof (cases "v = g_exit g")
      case True
      have "wl_next g w = wl_next g (w'\<lparr>wl_cur := v\<rparr>)" using False p True by (subst wl_next.simps) simp
      then show ?thesis using "1.IH" [OF False refl p [symmetric] refl] True o v(3) by simp
    next
      case ne: False
      have "wl_next g w = w'\<lparr>wl_cur := v\<rparr>" using False p ne by (subst wl_next.simps) simp
      then show ?thesis using o last_first [OF "1.prems"(1)] v by simp
    qed
  qed
qed

lemma changes_ordered:
  assumes "changes g (Some prec) w w'" and g: "graph_ok g" "{..<g_count g} \<subseteq> A" and "ordered (wl_vertices w)"
  shows "ordered (wl_vertices w')"
  using assms(1,4)
proof (induction rule: changes.induct)
  case (change w w' e s w'')
  have "sinkOf g e \<in> A" using change.hyps(2) g by (auto simp: graph_ok_def)
  then show ?case using push_ordered [of "sinkOf g e" "w'\<lparr>wl_store := es_set e s (wl_store w')\<rparr>" w''] change
    by (simp add: wl_change_def)
qed

theorem driven_ordered:
  assumes "driven D g (Some prec) w seen" and g: "graph_ok g" "{..<g_count g} \<subseteq> A"
  shows "ordered (wl_vertices w)"
    and "\<not> wl_end w \<Longrightarrow> x \<in> set (wl_vertices w) \<Longrightarrow> prec x (wl_cur w) = Some False"
proof -
  have "ordered (wl_vertices w) \<and> (\<not> wl_end w \<longrightarrow> (\<forall>x \<in> set (wl_vertices w). prec x (wl_cur w) = Some False))"
    using assms(1)
  proof (induction rule: driven.induct)
    case (start w)
    let ?w0 = "\<lparr>wl_vertices = [], wl_set = replicate (g_count g) False, wl_cur = 0, wl_end = False,
       wl_store = es_set_vertex g (g_entry g) (ad_init D) Map.empty\<rparr>"
    obtain w1 where w1: "foldM (\<lambda>e. wl_push (Some prec) (sinkOf g e)) (succs g (g_entry g)) ?w0 = Some w1" "w = wl_next g w1"
      using start by (auto simp: wl_init_def bindE)
    have "ordered (wl_vertices w1) \<and> \<not> wl_end w1"
    proof (rule foldM_invariant [OF w1(1)])
      fix e w w'
      assume e: "e \<in> set (succs g (g_entry g))" "ordered (wl_vertices w) \<and> \<not> wl_end w" "wl_push (Some prec) (sinkOf g e) w = Some w'"
      have "sinkOf g e \<in> A" using e(1) g by (auto simp: graph_ok_def)
      then have "ordered (wl_vertices w')" by (rule push_ordered [OF e(3)]) (use e(2) in simp)
      moreover have "\<not> wl_end w'" using e(2,3) by (auto simp: wl_push_def bindE split: if_splits)
      ultimately show "ordered (wl_vertices w') \<and> \<not> wl_end w'" ..
    qed simp
    then show ?case using next_ordered [of w1 g] w1(2) by simp
  next
    case (work w seen w')
    have ok: "driver_ok g w" by (rule no_lost_change [OF work.hyps(1) g(1)])
    have "\<not> wl_end w'" using changes_ok(3) [OF work.hyps(3) g(1) ok] work.hyps(2) by simp
    then show ?case using next_ordered [of w' g] changes_ordered [OF work.hyps(3) g] work.IH by simp
  qed
  then show "ordered (wl_vertices w)"
    and "\<not> wl_end w \<Longrightarrow> x \<in> set (wl_vertices w) \<Longrightarrow> prec x (wl_cur w) = Some False" by blast+
qed

end

subsection \<open>Termination\<close>

text \<open>
  One round: the current block is processed and the next one is fetched. The processing leaves
  the driver alone or moves its store down along \<open>r\<close>.
\<close>

definition round_step :: "graph \<Rightarrow> order \<Rightarrow> ('s store \<times> 's store) set \<Rightarrow> 's driver \<Rightarrow> 's driver \<Rightarrow> bool" where
  "round_step g ord r w w'' \<longleftrightarrow> \<not> wl_end w \<and> driver_ok g w \<and>
     (\<exists>w'. changes g ord w w' \<and> w'' = wl_next g w' \<and> (w' = w \<or> (wl_store w', wl_store w) \<in> r))"

definition driver_rank :: "'s driver \<Rightarrow> nat" where
  "driver_rank w = length (wl_vertices w) + (if wl_end w then 0 else 1)"

lemma next_rank:
  assumes "driver_ok g w" and "\<not> wl_end w"
  shows "driver_rank (wl_next g w) < driver_rank w"
proof (cases "wl_end (wl_next g w)")
  case True
  then show ?thesis using wl_next_ok(3) [OF assms True] assms(2) by (simp add: driver_rank_def)
next
  case False
  note n = wl_next_ok(4) [OF assms False]
  have "card (set (wl_vertices (wl_next g w))) \<le> card (set (wl_vertices w) - {wl_cur (wl_next g w)})"
    using n by (intro card_mono) simp_all
  also have "\<dots> < card (set (wl_vertices w))" using n by (intro card_Diff1_less) simp_all
  finally have "length (wl_vertices (wl_next g w)) < length (wl_vertices w)"
    using assms(1) wl_next_ok(1) [OF assms] by (simp add: driver_ok_def distinct_card)
  then show ?thesis using assms(2) False by (simp add: driver_rank_def)
qed

theorem rounds_terminate:
  assumes g: "graph_ok g" and r: "wf r"
  shows "wf {(w', w). round_step g ord r w w'}"
proof (rule wf_subset)
  show "wf (inv_image (r <*lex*> less_than) (\<lambda>w. (wl_store w, driver_rank w)))"
    by (intro wf_inv_image wf_lex_prod r wf_less_than)
  show "{(w', w). round_step g ord r w w'} \<subseteq> inv_image (r <*lex*> less_than) (\<lambda>w. (wl_store w, driver_rank w))"
  proof (rule subrelI)
    fix w'' w
    assume "(w'', w) \<in> {(w', w). round_step g ord r w w'}"
    then obtain w' where w: "\<not> wl_end w" "driver_ok g w" "changes g ord w w'" "w'' = wl_next g w'"
      "w' = w \<or> (wl_store w', wl_store w) \<in> r" by (auto simp: round_step_def)
    note ch = changes_ok [OF w(3) g w(2)]
    have ne: "\<not> wl_end w'" using ch(3) w(1) by simp
    have "wl_store w'' = wl_store w'" using wl_next_ok(2) [OF ch(1) ne] w(4) by simp
    then show "(w'', w) \<in> inv_image (r <*lex*> less_than) (\<lambda>w. (wl_store w, driver_rank w))"
      using w(4,5) next_rank [OF w(2,1)] by (auto simp: in_inv_image)
  qed
qed

lemma wl_next_end: "\<not> wl_end w \<Longrightarrow> wl_end (wl_next g w) \<Longrightarrow> wl_vertices (wl_next g w) = []"
proof (induction g w rule: wl_next.induct)
  case (1 g w)
  show ?case
  proof (cases "wl_vertices w = [] \<or> last (wl_vertices w) \<noteq> g_exit g")
    case True
    then show ?thesis using "1.prems" by (subst (asm) wl_next.simps, subst wl_next.simps) (auto simp: wl_pop_def Let_def)
  next
    case False
    obtain v w' where p: "wl_pop w = (v, w')" by (cases "wl_pop w")
    have v: "v = g_exit g" using False p by (simp add: wl_pop_def Let_def)
    have "wl_next g w = wl_next g (w'\<lparr>wl_cur := v\<rparr>)" using False p v by (subst wl_next.simps) simp
    moreover have "\<not> wl_end w'" using p "1.prems"(1) by (auto simp: wl_pop_def Let_def)
    ultimately show ?thesis using "1.IH" [OF _ refl p [symmetric] refl] False v "1.prems"(2) by simp
  qed
qed

subsection \<open>The loop over the blocks\<close>

text \<open>
  \<open>while(ana) { step; ana++; }\<close>, for at most \<open>rounds\<close> blocks: it returns when the work list
  is empty. \<open>'r\<close> is what the steps keep besides the driver.
\<close>

primrec run_driver ::
  "nat \<Rightarrow> graph \<Rightarrow> ('s driver \<times> 'r \<Rightarrow> ('s driver \<times> 'r) option) \<Rightarrow> 's driver \<times> 'r \<Rightarrow> ('s driver \<times> 'r) option" where
  "run_driver 0 g step = (\<lambda>(w, r). if wl_end w then Some (w, r) else None)"
| "run_driver (Suc rounds) g step = (\<lambda>(w, r).
     if wl_end w then Some (w, r)
     else do {
       (w, r) \<leftarrow> step (w, r);
       run_driver rounds g step (wl_next g w, r) })"

text \<open>More rounds, and a step that returns more often, give the same result.\<close>

lemma run_driver_mono:
  assumes "run_driver rounds g step x = Some y" and "rounds \<le> rounds'"
    and "\<And>x y. step x = Some y \<Longrightarrow> step' x = Some y"
  shows "run_driver rounds' g step' x = Some y"
  using assms(1,2)
proof (induction rounds arbitrary: x rounds')
  case 0
  then show ?case by (cases rounds') (auto split: prod.splits if_splits)
next
  case (Suc rounds)
  obtain n where n: "rounds' = Suc n" "rounds \<le> n" using Suc.prems(2) by (cases rounds') auto
  obtain w r where x: "x = (w, r)" by (cases x)
  show ?case
  proof (cases "wl_end w")
    case True
    then have "(w, r) = y" using Suc.prems(1) x by simp
    then show ?thesis using True by (auto simp: n(1) x)
  next
    case False
    then obtain w' r' where s: "step (w, r) = Some (w', r')" "run_driver rounds g step (wl_next g w', r') = Some y"
      using Suc.prems(1) x by (auto simp: bindE)
    show ?thesis using Suc.IH [OF s(2) n(2)] assms(3) [OF s(1)] False n x by simp
  qed
qed

text \<open>A step that always returns and moves the states down a well-founded order needs finitely many rounds.\<close>

lemma rounds_suffice:
  assumes g: "graph_ok g" and wf: "wf down" and ok: "driver_ok g w"
    and step: "\<And>w r. driver_ok g w \<Longrightarrow> \<not> wl_end w \<Longrightarrow> \<exists>w' r'. step (w, r) = Some (w', r') \<and> changes g ord w w' \<and>
      (w' = w \<or> (wl_store w', wl_store w) \<in> down)"
  shows "\<exists>rounds y. run_driver rounds g step (w, r) = Some y"
  using ok
proof (induction w arbitrary: r rule: wf_induct_rule [OF rounds_terminate [OF g wf, of ord]])
  case (1 w)
  show ?case
  proof (cases "wl_end w")
    case True
    then have "run_driver 0 g step (w, r) = Some (w, r)" by simp
    then show ?thesis by blast
  next
    case False
    obtain w' r' where s: "step (w, r) = Some (w', r')" "changes g ord w w'" "w' = w \<or> (wl_store w', wl_store w) \<in> down"
      using step [OF 1(2) False] by blast
    have "round_step g ord down w (wl_next g w')" using False 1(2) s by (auto simp: round_step_def)
    moreover have "driver_ok g (wl_next g w')"
      using wl_next_ok(1) [OF changes_ok(1) [OF s(2) g 1(2)]] changes_ok(3) [OF s(2) g 1(2)] False by simp
    ultimately obtain rounds y where "run_driver rounds g step (wl_next g w', r') = Some y" using 1(1) by blast
    then have "run_driver (Suc rounds) g step (w, r) = Some y" using False s(1) by simp
    then show ?thesis by blast
  qed
qed

text \<open>
  What a step promises: it touches the driver only by changing the states of edges that leave
  the current block.
\<close>

locale block_step =
  fixes g :: graph and ord :: order and step :: "'s driver \<times> 'r \<Rightarrow> ('s driver \<times> 'r) option"
  assumes step_changes: "graph_ok g \<Longrightarrow> wl_cur w < g_count g \<Longrightarrow> step (w, r) = Some (w', r') \<Longrightarrow>
      changes g ord w w' \<and> (\<forall>e. e \<notin> set (succs g (wl_cur w)) \<longrightarrow> wl_store w' e = wl_store w e)"
begin

text \<open>
  Every block that the step has processed was last processed with the states that its incoming
  edges have now, and its outgoing edges have the states that this produced.
\<close>

definition settled :: "'s driver \<Rightarrow> nat \<Rightarrow> bool" where
  "settled w v \<longleftrightarrow> (\<exists>w1 r1 w2 r2. step (w1, r1) = Some (w2, r2) \<and> wl_cur w1 = v \<and>
     (\<forall>e \<in> set (succs g v). wl_store w e = wl_store w2 e) \<and>
     (v \<notin> set (wl_vertices w) \<longrightarrow> wl_end w \<or> v \<noteq> wl_cur w \<longrightarrow> (\<forall>e \<in> set (preds g v). wl_store w e = wl_store w1 e)))"

definition waiting :: "'s driver \<Rightarrow> nat \<Rightarrow> bool" where
  "waiting w v \<longleftrightarrow> v \<in> set (wl_vertices w) \<or> \<not> wl_end w \<and> v = wl_cur w \<or> (\<forall>e \<in> set (preds g v). wl_store w e = None)"

definition run_inv :: "'s driver \<Rightarrow> bool" where
  "run_inv w \<longleftrightarrow> driver_ok g w \<and> (\<not> wl_end w \<longrightarrow> wl_cur w \<noteq> g_exit g \<and> wl_cur w < g_count g) \<and>
     (wl_end w \<longrightarrow> wl_vertices w = []) \<and> (\<forall>v < g_count g. v \<noteq> g_exit g \<longrightarrow> settled w v \<or> waiting w v)"

lemma run_inv_start:
  assumes g: "graph_ok g" and "wl_init D g ord = Some w"
  shows "run_inv w"
proof -
  note i = init_ok [OF assms]
  have "waiting w v" if v: "v < g_count g" "v \<noteq> g_exit g" for v
  proof -
    have "wl_store w e = None" if e: "e \<in> set (preds g v)" and "v \<notin> set (wl_vertices w)" "wl_end w \<or> v \<noteq> wl_cur w" for e
    proof (rule ccontr)
      assume "wl_store w e \<noteq> None"
      moreover have "sinkOf g e = v" using e v g by (auto simp: graph_ok_def)
      ultimately show False using i(2) [of e] v that by auto
    qed
    then show ?thesis unfolding waiting_def by blast
  qed
  moreover have "wl_vertices w = []" if "wl_end w"
  proof -
    have keep: "wl_end w2 = wl_end w1" if "foldM (\<lambda>e. wl_push ord (sinkOf g e)) es w1 = Some w2" for es and w1 w2 :: "'s driver"
      by (rule foldM_invariant [OF that, of "\<lambda>w. wl_end w = wl_end w1"])
        (auto simp: wl_push_def bindE split: if_splits)
    show ?thesis using assms(2) that by (auto simp: wl_init_def bindE dest!: keep intro: wl_next_end)
  qed
  ultimately show ?thesis using i(1,3) unfolding run_inv_def by blast
qed

lemma run_inv_step:
  assumes g: "graph_ok g" and inv: "run_inv w" and ne: "\<not> wl_end w" and s: "step (w, r) = Some (w', r')"
  shows "run_inv (wl_next g w')"
proof -
  have ok: "driver_ok g w" and cur: "wl_cur w < g_count g" using inv ne by (simp_all add: run_inv_def)
  note st = step_changes [OF g cur s]
  note ch = changes_ok [OF conjunct1 [OF st] g ok]
  have ne': "\<not> wl_end w'" using ch(3) ne by simp
  note nx = wl_next_ok [OF ch(1) ne']
  let ?w = "wl_next g w'"
  have cur': "wl_cur ?w \<noteq> g_exit g \<and> wl_cur ?w < g_count g" if "\<not> wl_end ?w"
    using nx(4) [OF that] ch(1) by (auto simp: driver_ok_def)
  have out: "v \<in> set (wl_vertices ?w) \<or> \<not> wl_end ?w \<and> v = wl_cur ?w" if "v \<in> set (wl_vertices w')" "v \<noteq> g_exit g" for v
    using nx(3,4) that by (cases "wl_end ?w") auto
  have same: "wl_store ?w e = wl_store w e" if "e \<in> set (preds g v)" "v < g_count g" "v \<notin> set (wl_vertices w')" for v e
  proof -
    have "sinkOf g e = v" using that g by (auto simp: graph_ok_def)
    then show ?thesis using ch(5) [of e] that(3) nx(2) by auto
  qed
  have "settled ?w v \<or> waiting ?w v" if v: "v < g_count g" "v \<noteq> g_exit g" for v
  proof (cases "v = wl_cur w")
    case True
    have "wl_store ?w e = wl_store w e"
      if "e \<in> set (preds g v)" "v \<notin> set (wl_vertices ?w)" "wl_end ?w \<or> v \<noteq> wl_cur ?w" for e
      by (rule same [OF that(1) v(1)]) (use out v(2) that(2,3) in blast)
    then have "settled ?w v" unfolding settled_def using s True nx(2) by auto
    then show ?thesis ..
  next
    case False
    have keep: "wl_store ?w e = wl_store w e" if "e \<in> set (succs g v)" for e
    proof -
      have "e \<notin> set (succs g (wl_cur w))" using that v(1) cur False g by (auto simp: graph_ok_def)
      then show ?thesis using st nx(2) by simp
    qed
    show ?thesis
    proof (cases "v \<in> set (wl_vertices w')")
      case True
      then show ?thesis using out v(2) by (auto simp: waiting_def)
    next
      case gone: False
      then have "v \<notin> set (wl_vertices w)" using ch(4) by blast
      moreover have "settled w v \<or> waiting w v" using inv v by (simp add: run_inv_def)
      ultimately consider "settled w v" | "\<forall>e \<in> set (preds g v). wl_store w e = None" using False by (auto simp: waiting_def)
      then show ?thesis
      proof cases
        case 1
        then obtain w1 r1 w2 r2 where k: "step (w1, r1) = Some (w2, r2)" "wl_cur w1 = v"
          "\<forall>e \<in> set (succs g v). wl_store w e = wl_store w2 e"
          "\<forall>e \<in> set (preds g v). wl_store w e = wl_store w1 e"
          using \<open>v \<notin> set (wl_vertices w)\<close> False unfolding settled_def by blast
        have "\<forall>e \<in> set (preds g v). wl_store ?w e = wl_store w1 e" using same [OF _ v(1) gone] k(4) by simp
        then have "settled ?w v" unfolding settled_def using k(1-3) keep by auto
        then show ?thesis ..
      next
        case 2
        then show ?thesis using same [OF _ v(1) gone] by (auto simp: waiting_def)
      qed
    qed
  qed
  then show ?thesis using nx(1) cur' wl_next_end [OF ne'] unfolding run_inv_def by blast
qed

lemma run_inv_run:
  assumes g: "graph_ok g" and "run_inv w" and "run_driver rounds g step (w, r) = Some (w', r')"
  shows "run_inv w' \<and> wl_end w'"
  using assms(2,3)
proof (induction rounds arbitrary: w r)
  case 0
  then show ?case by (auto split: if_splits)
next
  case (Suc rounds)
  show ?case
  proof (cases "wl_end w")
    case True
    then show ?thesis using Suc.prems by simp
  next
    case False
    then obtain w1 r1 where s: "step (w, r) = Some (w1, r1)" "run_driver rounds g step (wl_next g w1, r1) = Some (w', r')"
      using Suc.prems(2) by (auto simp: bindE)
    show ?thesis by (rule Suc.IH [OF run_inv_step [OF g Suc.prems(1) False s(1)] s(2)])
  qed
qed

text \<open>
  At the end every block but the exit whose incoming edges have a state is settled: processing
  it on these states gave the states of its outgoing edges.
\<close>

lemma run_fixpoint:
  assumes g: "graph_ok g" and i: "wl_init D g ord = Some w0"
    and run: "run_driver rounds g step (w0, r) = Some (w, r')"
    and v: "v < g_count g" "v \<noteq> g_exit g" and reached: "e \<in> set (preds g v)" "wl_store w e \<noteq> None"
  obtains w1 r1 w2 r2 where "step (w1, r1) = Some (w2, r2)" and "wl_cur w1 = v"
    and "\<And>e. e \<in> set (preds g v) \<Longrightarrow> wl_store w1 e = wl_store w e"
    and "\<And>e. e \<in> set (succs g v) \<Longrightarrow> wl_store w2 e = wl_store w e"
proof -
  note found = that
  have inv: "run_inv w" "wl_end w" using run_inv_run [OF g run_inv_start [OF g i] run] by simp_all
  have empty: "wl_vertices w = []" using inv by (simp add: run_inv_def)
  have "settled w v" using inv empty v reached by (auto simp: run_inv_def waiting_def)
  then show thesis using found inv(2) empty by (auto simp: settled_def)
qed

end

end
