(* ===== verification/Std_Map.thy ===== *)
theory Std_Map
  imports Prelude
begin

text \<open>
  The ordered maps of the C++ standard library that the program uses
  (\<open>std::map\<close>, \<open>std::set\<close>): association lists sorted by key. The list order is the
  iteration order of the container, which several algorithms of the program depend on.
\<close>

type_synonym ('k, 'v) omap = "('k \<times> 'v) list"

definition om_ok :: "('k::linorder, 'v) omap \<Rightarrow> bool" where
  "om_ok m \<longleftrightarrow> sorted_wrt (<) (map fst m)"

text \<open>\<open>m[k] = v\<close>\<close>

fun om_set :: "'k::linorder \<Rightarrow> 'v \<Rightarrow> ('k, 'v) omap \<Rightarrow> ('k, 'v) omap" where
  "om_set k v [] = [(k, v)]"
| "om_set k v ((k', v') # m) =
     (if k < k' then (k, v) # (k', v') # m
      else if k = k' then (k, v) # m
      else (k', v') # om_set k v m)"

text \<open>\<open>m.emplace(k, v)\<close>: an existing entry is kept.\<close>

definition om_emplace :: "'k::linorder \<Rightarrow> 'v \<Rightarrow> ('k, 'v) omap \<Rightarrow> ('k, 'v) omap" where
  "om_emplace k v m = (if map_of m k = None then om_set k v m else m)"

text \<open>\<open>m.erase(k)\<close>\<close>

definition om_erase :: "'k::linorder \<Rightarrow> ('k, 'v) omap \<Rightarrow> ('k, 'v) omap" where
  "om_erase k m = filter (\<lambda>(k', v). k' \<noteq> k) m"

lemma set_fst_om_set: "set (map fst (om_set k v m)) = insert k (set (map fst m))"
  by (induction k v m rule: om_set.induct) auto

lemma om_set_sorted: "sorted_wrt (<) (map fst m) \<Longrightarrow> sorted_wrt (<) (map fst (om_set k v m))"
proof (induction k v m rule: om_set.induct)
  case (1 k v)
  then show ?case by simp
next
  case (2 k v k' v' m)
  then show ?case using set_fst_om_set [of k v m] by auto
qed

lemma map_of_om_set: "map_of (om_set k v m) = (map_of m)(k \<mapsto> v)"
  if "om_ok m"
  using that unfolding om_ok_def
proof (induction k v m rule: om_set.induct)
  case (1 k v)
  then show ?case by simp
next
  case (2 k v k' v' m)
  have "map_of m k = None" if "k < k'"
    using 2(2) that by (force simp: map_of_eq_None_iff)
  with 2 show ?case by (auto simp: fun_eq_iff)
qed

lemma sorted_filter_fst:
  "sorted_wrt (<) (map fst m) \<Longrightarrow> sorted_wrt (<) (map fst (filter P m))"
  by (induction m) auto

lemma om_ok_distinct: "om_ok m \<Longrightarrow> distinct (map fst m)"
  by (simp add: om_ok_def strict_sorted_iff)

lemma map_of_om_erase: "map_of (om_erase k m) = (map_of m)(k := None)"
  by (induction m) (auto simp: om_erase_def fun_eq_iff)

interpretation om: finite_map "[]" map_of om_set om_erase "\<lambda>m. m" om_ok
proof unfold_locales
  show "om_ok []" by (simp add: om_ok_def)
  show "\<And>m k v. om_ok m \<Longrightarrow> om_ok (om_set k v m)"
    by (simp only: om_ok_def om_set_sorted)
  show "\<And>m k. om_ok m \<Longrightarrow> om_ok (om_erase k m)"
    unfolding om_ok_def om_erase_def by (rule sorted_filter_fst)
qed (auto simp: map_of_om_set map_of_om_erase om_ok_distinct)

lemma om_emplace_ok [inv_rules]: "om_ok m \<Longrightarrow> om_ok (om_emplace k v m)"
  by (simp add: om_emplace_def om.upd_ok)

lemma map_of_om_emplace:
  "om_ok m \<Longrightarrow> map_of (om_emplace k v m) =
     (case map_of m k of None \<Rightarrow> (map_of m)(k \<mapsto> v) | Some _ \<Rightarrow> map_of m)"
  by (auto simp: om_emplace_def map_of_om_set split: option.splits)

lemma om_ok_Nil [simp]: "om_ok []" by (rule om.emp_ok)

lemma om_ok_map_snd [simp]: "om_ok (map (\<lambda>(k, v). (k, f k v)) m) \<longleftrightarrow> om_ok m"
  by (simp add: om_ok_def comp_def case_prod_unfold)

subsection \<open>Ordered sets of variable numbers\<close>

text \<open>\<open>std::set<guid_t>\<close> as its sorted list of elements.\<close>

type_synonym oset = "nat list"

definition os_insert :: "nat \<Rightarrow> oset \<Rightarrow> oset" where
  "os_insert x xs = (if x \<in> set xs then xs else insort x xs)"

definition os_intersection :: "oset \<Rightarrow> oset \<Rightarrow> oset" where
  "os_intersection xs ys = filter (\<lambda>x. x \<in> set ys) xs"

definition os_difference :: "oset \<Rightarrow> oset \<Rightarrow> oset" where
  "os_difference xs ys = filter (\<lambda>x. x \<notin> set ys) xs"

text \<open>\<open>std::distance(s.begin(), s.find(x))\<close>\<close>

fun os_index :: "nat \<Rightarrow> oset \<Rightarrow> nat" where
  "os_index x [] = 0"
| "os_index x (y # ys) = (if x = y then 0 else Suc (os_index x ys))"

lemma set_os_insert [simp]: "set (os_insert x xs) = insert x (set xs)"
  by (auto simp: os_insert_def set_insort_key)

lemma set_os_ops [simp]:
  "set (os_intersection xs ys) = set xs \<inter> set ys"
  "set (os_difference xs ys) = set xs - set ys"
  by (auto simp: os_intersection_def os_difference_def)

lemma os_index_nth: "x \<in> set xs \<Longrightarrow> os_index x xs < length xs \<and> xs ! os_index x xs = x"
  by (induction xs) auto

end
