(* ===== verification/Lin_Expr.thy ===== *)
theory Lin_Expr
  imports Std_Map Complex_Main
begin

text \<open>
  Linear expressions and constraints over variables (\<open>WLinExpr\<close>, \<open>WCons\<close> of
  \<open>include/PolyWrap.h\<close> and the operators of \<open>poly_PolyWrap.cpp\<close>). A variable
  (\<open>WVar\<close>) is its number; coefficients are unbounded integers. The lemmas give the
  value of every operator under a valuation of the variables by rationals.
\<close>

text \<open>\<open>WLinExpr\<close>: coefficients in an ordered map, and the constant.\<close>

record wlin =
  coefs :: "(guid, int) omap"
  cst :: int

definition le_const :: "int \<Rightarrow> wlin" where
  "le_const c = \<lparr>coefs = [], cst = c\<rparr>"

definition le_var :: "guid \<Rightarrow> wlin" where
  "le_var v = \<lparr>coefs = om_set v 1 [], cst = 0\<rparr>"

definition le_inhomogeneous :: "wlin \<Rightarrow> int" where
  "le_inhomogeneous e = cst e"

text \<open>\<open>coefs.at(v.guid())\<close> throws when the variable has no entry.\<close>

definition le_coefficient :: "wlin \<Rightarrow> guid \<Rightarrow> int option" where
  "le_coefficient e v = map_of (coefs e) v"

definition le_has_var :: "wlin \<Rightarrow> guid \<Rightarrow> bool" where
  "le_has_var e v = (map_of (coefs e) v \<noteq> None)"

text \<open>The variables in the order of \<open>TermIterator\<close>.\<close>

definition le_terms :: "wlin \<Rightarrow> guid list" where
  "le_terms e = map fst (coefs e)"

definition le_add :: "wlin \<Rightarrow> wlin \<Rightarrow> wlin" where
  "le_add a b =
     (let r1 = fold (\<lambda>(g, c) r.
                 let v = (case map_of (coefs b) g of Some c' \<Rightarrow> c + c' | None \<Rightarrow> c)
                 in if v \<noteq> 0 then om_set g v r else r) (coefs a) [];
          r2 = fold (\<lambda>(g, c) r. if map_of (coefs a) g = None then om_set g c r else r) (coefs b) r1
      in \<lparr>coefs = r2, cst = cst a + cst b\<rparr>)"

definition le_scale :: "int \<Rightarrow> wlin \<Rightarrow> wlin" where
  "le_scale b a =
     (if b = 0 then le_const 0
      else \<lparr>coefs = fold (\<lambda>(g, c) r. om_set g (c * b) r) (coefs a) [], cst = cst a * b\<rparr>)"

definition le_sub :: "wlin \<Rightarrow> wlin \<Rightarrow> wlin" where
  "le_sub a b = le_add a (le_scale (-1) b)"

datatype ctype = CONS_EQ | CONS_GE

record wcons =
  wc_expr :: wlin
  wc_type :: ctype

definition wc_default :: wcons where
  "wc_default = \<lparr>wc_expr = le_const 0, wc_type = CONS_EQ\<rparr>"

definition is_equality :: "wcons \<Rightarrow> bool" where
  "is_equality c = (wc_type c = CONS_EQ)"

definition wc_coefficient :: "wcons \<Rightarrow> guid \<Rightarrow> int option" where
  "wc_coefficient c v = le_coefficient (wc_expr c) v"

definition wc_has_var :: "wcons \<Rightarrow> guid \<Rightarrow> bool" where
  "wc_has_var c v = le_has_var (wc_expr c) v"

definition wc_inhomogeneous :: "wcons \<Rightarrow> int" where
  "wc_inhomogeneous c = le_inhomogeneous (wc_expr c)"

definition wc_terms :: "wcons \<Rightarrow> guid list" where
  "wc_terms c = le_terms (wc_expr c)"

text \<open>
  \<open>operator==\<close>, \<open>>=\<close>, \<open><=\<close>, \<open><\<close>, \<open>>\<close> build constraints. The strict ones
  read the variables as integers: \<open>a < b\<close> is \<open>a + 1 <= b\<close>.
\<close>

definition w_eq :: "wlin \<Rightarrow> wlin \<Rightarrow> wcons" where
  "w_eq a b = \<lparr>wc_expr = le_sub a b, wc_type = CONS_EQ\<rparr>"

definition w_ge :: "wlin \<Rightarrow> wlin \<Rightarrow> wcons" where
  "w_ge a b = \<lparr>wc_expr = le_sub a b, wc_type = CONS_GE\<rparr>"

definition w_le :: "wlin \<Rightarrow> wlin \<Rightarrow> wcons" where
  "w_le a b = w_ge b a"

definition w_lt :: "wlin \<Rightarrow> wlin \<Rightarrow> wcons" where
  "w_lt a b = w_le (le_add a (le_const 1)) b"

definition w_gt :: "wlin \<Rightarrow> wlin \<Rightarrow> wcons" where
  "w_gt a b = w_ge a (le_add b (le_const 1))"

subsection \<open>Values\<close>

type_synonym valuation = "guid \<Rightarrow> rat"

definition le_eval :: "valuation \<Rightarrow> wlin \<Rightarrow> rat" where
  "le_eval v e = of_int (cst e) + (\<Sum>(g, c) \<leftarrow> coefs e. of_int c * v g)"

definition wc_sat :: "valuation \<Rightarrow> wcons \<Rightarrow> bool" where
  "wc_sat v c = (case wc_type c of
     CONS_EQ \<Rightarrow> le_eval v (wc_expr c) = 0 | CONS_GE \<Rightarrow> le_eval v (wc_expr c) \<ge> 0)"

definition le_ok :: "wlin \<Rightarrow> bool" where
  "le_ok e = om_ok (coefs e)"

definition le_vars :: "wlin \<Rightarrow> guid set" where
  "le_vars e = fst ` set (coefs e)"

definition wc_ok :: "wcons \<Rightarrow> bool" where
  "wc_ok c = le_ok (wc_expr c)"

definition wc_vars :: "wcons \<Rightarrow> guid set" where
  "wc_vars c = le_vars (wc_expr c)"

text \<open>The coefficient as a total function, zero where there is no entry.\<close>

definition le_coef :: "wlin \<Rightarrow> guid \<Rightarrow> int" where
  "le_coef e g = (case map_of (coefs e) g of Some c \<Rightarrow> c | None \<Rightarrow> 0)"

lemma sum_list_omap:
  assumes "distinct (map fst m)"
  shows "(\<Sum>(g, c) \<leftarrow> m. f g c) = (\<Sum>g \<in> fst ` set m. f g (the (map_of m g)))"
  using assms
proof (induction m)
  case (Cons p m)
  obtain g c where p: "p = (g, c)" by (cases p)
  have "(\<Sum>g' \<in> fst ` set m. f g' (the (map_of m g'))) =
    (\<Sum>g' \<in> fst ` set m. f g' (the (map_of (p # m) g')))"
    using Cons.prems p by (intro sum.cong) auto
  then show ?case using Cons p by simp
qed simp

lemma le_eval_sum:
  assumes "le_ok e" and "finite G" and "le_vars e \<subseteq> G"
  shows "le_eval v e = of_int (cst e) + (\<Sum>g \<in> G. of_int (le_coef e g) * v g)"
proof -
  have d: "distinct (map fst (coefs e))" using assms(1) by (simp add: le_ok_def om_ok_distinct)
  have "(\<Sum>(g, c) \<leftarrow> coefs e. of_int c * v g) =
    (\<Sum>g \<in> fst ` set (coefs e). of_int (the (map_of (coefs e) g)) * v g)"
    using sum_list_omap [OF d, of "\<lambda>g c. of_int c * v g"] by simp
  also have "\<dots> = (\<Sum>g \<in> fst ` set (coefs e). of_int (le_coef e g) * v g)"
    using map_of_eq_None_iff [of "coefs e"]
    by (intro sum.cong refl) (force simp: le_coef_def split: option.split)
  also have "\<dots> = (\<Sum>g \<in> G. of_int (le_coef e g) * v g)"
    using assms(2,3)
    by (intro sum.mono_neutral_left)
      (auto simp: le_vars_def le_coef_def split: option.split dest: map_of_SomeD intro: rev_image_eqI)
  finally show ?thesis by (simp add: le_eval_def)
qed

lemma finite_le_vars [simp]: "finite (le_vars e)"
  by (simp add: le_vars_def)

lemma le_vars_dom: "le_vars e = dom (map_of (coefs e))"
  by (simp add: le_vars_def dom_map_of_conv_image_fst)

lemma le_add_coefs:
  assumes "le_ok a" and "le_ok b"
  shows "le_ok (le_add a b)" and "le_coef (le_add a b) g = le_coef a g + le_coef b g"
    and "cst (le_add a b) = cst a + cst b" and "le_vars (le_add a b) \<subseteq> le_vars a \<union> le_vars b"
proof -
  have da: "distinct (map fst (coefs a))" and db: "distinct (map fst (coefs b))"
    using assms by (simp_all add: le_ok_def om_ok_distinct)
  define w where "w g c = (case map_of (coefs b) g of Some c' \<Rightarrow> c + c' | None \<Rightarrow> c)" for g and c :: int
  define r1 where
    "r1 = fold (\<lambda>(g, c) r. if w g c \<noteq> 0 then om_set g (w g c) r else r) (coefs a) []"
  have eq: "le_add a b = \<lparr>coefs = fold (\<lambda>(g, c) r. if map_of (coefs a) g = None then om_set g c r else r)
    (coefs b) r1, cst = cst a + cst b\<rparr>"
    unfolding le_add_def r1_def w_def Let_def ..
  have r1: "om_ok r1" "map_of r1 g = (case map_of (coefs a) g of
      Some c \<Rightarrow> if w g c \<noteq> 0 then Some (w g c) else None | None \<Rightarrow> None)" for g
    unfolding r1_def
    using om.fold_upd_if [OF om.emp_ok da, where p = "\<lambda>g c. w g c \<noteq> 0" and f = w]
    by (auto split: option.split)
  have r2: "map_of (coefs (le_add a b)) g = (case map_of (coefs b) g of
      Some c \<Rightarrow> if map_of (coefs a) g = None then Some c else map_of r1 g | None \<Rightarrow> map_of r1 g)" for g
    unfolding eq using om.fold_upd_if(2) [OF r1(1) db, where p = "\<lambda>g c. map_of (coefs a) g = None"
      and f = "\<lambda>g c. c"] by simp
  show "le_ok (le_add a b)"
    unfolding eq le_ok_def
    using om.fold_upd_if(1) [OF r1(1) db, where p = "\<lambda>g c. map_of (coefs a) g = None"
      and f = "\<lambda>g c. c"] by simp
  show "le_coef (le_add a b) g = le_coef a g + le_coef b g"
    by (auto simp: le_coef_def r2 r1(2) w_def split: option.splits)
  show "cst (le_add a b) = cst a + cst b" by (simp add: eq)
  show "le_vars (le_add a b) \<subseteq> le_vars a \<union> le_vars b"
    by (auto simp: le_vars_dom r2 r1(2) split: option.splits if_splits)
qed

lemma le_scale_coefs:
  assumes "le_ok a"
  shows "le_ok (le_scale k a)" and "le_coef (le_scale k a) g = k * le_coef a g"
    and "cst (le_scale k a) = k * cst a" and "le_vars (le_scale k a) \<subseteq> le_vars a"
proof -
  have da: "distinct (map fst (coefs a))" using assms by (simp add: le_ok_def om_ok_distinct)
  note f = om.fold_upd_if [OF om.emp_ok da, where p = "\<lambda>g c. True" and f = "\<lambda>g c. c * k"]
  show "le_ok (le_scale k a)" using f by (simp add: le_scale_def le_ok_def le_const_def)
  show "le_coef (le_scale k a) g = k * le_coef a g"
    using f by (auto simp: le_scale_def le_coef_def le_const_def split: option.splits)
  show "cst (le_scale k a) = k * cst a" by (simp add: le_scale_def le_const_def)
  show "le_vars (le_scale k a) \<subseteq> le_vars a"
    using f by (auto simp: le_vars_dom le_scale_def le_const_def split: option.splits)
qed

lemma le_ok_ops [simp, intro, inv_rules]:
  "le_ok (le_const c)" "le_ok (le_var g)"
  "le_ok a \<Longrightarrow> le_ok b \<Longrightarrow> le_ok (le_add a b)"
  "le_ok a \<Longrightarrow> le_ok (le_scale k a)"
  "le_ok a \<Longrightarrow> le_ok b \<Longrightarrow> le_ok (le_sub a b)"
  by (simp_all add: le_add_coefs(1) le_scale_coefs(1) le_sub_def)
    (simp_all add: le_ok_def le_const_def le_var_def om_ok_def)

lemma le_eval_const [simp, sem_simps]: "le_eval v (le_const c) = of_int c"
  by (simp add: le_eval_def le_const_def)

lemma le_eval_var [simp, sem_simps]: "le_eval v (le_var g) = v g"
  by (simp add: le_eval_def le_var_def)

lemma le_eval_add [simp, sem_simps]:
  assumes "le_ok a" and "le_ok b"
  shows "le_eval v (le_add a b) = le_eval v a + le_eval v b"
proof -
  let ?G = "le_vars a \<union> le_vars b"
  have "le_eval v (le_add a b) = of_int (cst a + cst b) +
    (\<Sum>g \<in> ?G. of_int (le_coef a g + le_coef b g) * v g)"
    using le_eval_sum [OF le_add_coefs(1) [OF assms] _ le_add_coefs(4) [OF assms]]
    by (simp add: le_add_coefs(2,3) assms)
  also have "\<dots> = le_eval v a + le_eval v b"
    using le_eval_sum [OF assms(1), of ?G v] le_eval_sum [OF assms(2), of ?G v]
    by (simp add: sum.distrib distrib_right)
  finally show ?thesis .
qed

lemma le_eval_scale [simp, sem_simps]:
  assumes "le_ok a"
  shows "le_eval v (le_scale k a) = of_int k * le_eval v a"
  using le_eval_sum [OF le_scale_coefs(1) [OF assms] _ le_scale_coefs(4) [OF assms], of v k]
    le_eval_sum [OF assms, of "le_vars a" v]
  by (simp add: le_scale_coefs(2,3) assms distrib_left sum_distrib_left mult.assoc)

lemma le_eval_sub [simp, sem_simps]:
  "le_ok a \<Longrightarrow> le_ok b \<Longrightarrow> le_eval v (le_sub a b) = le_eval v a - le_eval v b"
  by (simp add: le_sub_def)

lemma wc_ok_ops [simp, intro, inv_rules]:
  "le_ok a \<Longrightarrow> le_ok b \<Longrightarrow> wc_ok (w_eq a b)"
  "le_ok a \<Longrightarrow> le_ok b \<Longrightarrow> wc_ok (w_ge a b)"
  "le_ok a \<Longrightarrow> le_ok b \<Longrightarrow> wc_ok (w_le a b)"
  "le_ok a \<Longrightarrow> le_ok b \<Longrightarrow> wc_ok (w_lt a b)"
  "le_ok a \<Longrightarrow> le_ok b \<Longrightarrow> wc_ok (w_gt a b)"
  by (simp_all add: wc_ok_def w_eq_def w_ge_def w_le_def w_lt_def w_gt_def)

lemma wc_sat_ops [simp, sem_simps]:
  assumes "le_ok a" and "le_ok b"
  shows "wc_sat v (w_eq a b) \<longleftrightarrow> le_eval v a = le_eval v b"
    and "wc_sat v (w_ge a b) \<longleftrightarrow> le_eval v a \<ge> le_eval v b"
    and "wc_sat v (w_le a b) \<longleftrightarrow> le_eval v a \<le> le_eval v b"
    and "wc_sat v (w_lt a b) \<longleftrightarrow> le_eval v a + 1 \<le> le_eval v b"
    and "wc_sat v (w_gt a b) \<longleftrightarrow> le_eval v a \<ge> le_eval v b + 1"
  using assms by (auto simp: wc_sat_def w_eq_def w_ge_def w_le_def w_lt_def w_gt_def)

text \<open>The value depends on the variables of the expression only.\<close>

lemma le_eval_cong: "(\<And>g. g \<in> le_vars e \<Longrightarrow> v g = w g) \<Longrightarrow> le_eval v e = le_eval w e"
  unfolding le_eval_def le_vars_def by (auto intro!: arg_cong [of _ _ sum_list] map_cong) force

lemma wc_sat_cong: "(\<And>g. g \<in> wc_vars c \<Longrightarrow> v g = w g) \<Longrightarrow> wc_sat v c = wc_sat w c"
  unfolding wc_sat_def wc_vars_def using le_eval_cong [of "wc_expr c" v w]
  by (auto split: ctype.split)

lemma le_vars_basic [simp]: "le_vars (le_const c) = {}" "le_vars (le_var g) = {g}"
  by (simp_all add: le_vars_def le_const_def le_var_def)

lemma le_vars_sub: "le_ok a \<Longrightarrow> le_ok b \<Longrightarrow> le_vars (le_sub a b) \<subseteq> le_vars a \<union> le_vars b"
  using le_add_coefs(4) [of a "le_scale (-1) b"] le_scale_coefs(4) [of b "-1"]
  by (auto simp: le_sub_def)

lemma wc_vars_ops:
  assumes "le_ok a" and "le_ok b"
  shows "wc_vars (w_eq a b) \<subseteq> le_vars a \<union> le_vars b"
    and "wc_vars (w_ge a b) \<subseteq> le_vars a \<union> le_vars b"
    and "wc_vars (w_le a b) \<subseteq> le_vars a \<union> le_vars b"
    and "wc_vars (w_lt a b) \<subseteq> le_vars a \<union> le_vars b"
    and "wc_vars (w_gt a b) \<subseteq> le_vars a \<union> le_vars b"
proof -
  have one: "le_ok x \<Longrightarrow> le_vars (le_add x (le_const 1)) \<subseteq> le_vars x" for x
    using le_add_coefs(4) [of x "le_const 1"] by simp
  show "wc_vars (w_eq a b) \<subseteq> le_vars a \<union> le_vars b" "wc_vars (w_ge a b) \<subseteq> le_vars a \<union> le_vars b"
    "wc_vars (w_le a b) \<subseteq> le_vars a \<union> le_vars b"
    using assms le_vars_sub by (auto simp: wc_vars_def w_eq_def w_ge_def w_le_def dest!: subsetD)
  show "wc_vars (w_lt a b) \<subseteq> le_vars a \<union> le_vars b" "wc_vars (w_gt a b) \<subseteq> le_vars a \<union> le_vars b"
    using assms one [OF assms(1)] one [OF assms(2)]
      le_vars_sub [of b "le_add a (le_const 1)"] le_vars_sub [of a "le_add b (le_const 1)"]
    by (auto simp: wc_vars_def w_lt_def w_gt_def w_ge_def w_le_def)
qed

end
