(* ===== verification/PPL_Interface.thy ===== *)
theory PPL_Interface
  imports Prelude Complex_Main
begin

text \<open>
  The part of the Parma Polyhedra Library that the program calls. The library is not part of
  the repository: a closed polyhedron is a value of a type parameter \<open>'p\<close>, the methods are
  the fields of the record \<open>ppl\<close>, a parameter of every definition that uses one, and the
  documented behaviour the analysis relies on is the locale \<open>ppl_laws\<close>. The laws ask for
  soundness only where the documentation promises more (the hull and the widening contain
  their arguments, a positive answer of a test is right); adding a constraint, intersecting
  and renaming dimensions are exact.
\<close>

text \<open>
  \<open>PPL::Linear_Expression\<close> (coefficients by dimension, inhomogeneous term) and
  \<open>PPL::Constraint\<close>.
\<close>

type_synonym plin = "int list \<times> int"
type_synonym point = "dim \<Rightarrow> rat"

datatype pcons = PEq plin | PGe plin

definition pl_zero :: plin where
  "pl_zero = ([], 0)"

fun pl_add_term :: "int \<Rightarrow> dim \<Rightarrow> plin \<Rightarrow> plin" where
  "pl_add_term c d (cs, k) =
     (let cs' = cs @ replicate (Suc d - length cs) 0 in (cs'[d := cs' ! d + c], k))"

fun pl_add_const :: "int \<Rightarrow> plin \<Rightarrow> plin" where
  "pl_add_const c (cs, k) = (cs, k + c)"

fun pl_coef :: "plin \<Rightarrow> dim \<Rightarrow> int" where
  "pl_coef (cs, k) d = (if d < length cs then cs ! d else 0)"

fun pl_eval :: "point \<Rightarrow> plin \<Rightarrow> rat" where
  "pl_eval x (cs, k) = of_int k + (\<Sum>i < length cs. of_int (cs ! i) * x i)"

fun pc_expr :: "pcons \<Rightarrow> plin" where
  "pc_expr (PEq e) = e"
| "pc_expr (PGe e) = e"

fun pc_is_equality :: "pcons \<Rightarrow> bool" where
  "pc_is_equality (PEq e) = True"
| "pc_is_equality (PGe e) = False"

definition pc_dim :: "pcons \<Rightarrow> nat" where
  "pc_dim c = length (fst (pc_expr c))"

fun psat :: "point \<Rightarrow> pcons \<Rightarrow> bool" where
  "psat x (PEq e) = (pl_eval x e = 0)"
| "psat x (PGe e) = (pl_eval x e \<ge> 0)"

text \<open>
  The partial function over dimensions that \<open>map_space_dimensions\<close> takes, with the
  queries the library makes on it.
\<close>

record pfunc =
  pf_maps :: "dim \<Rightarrow> dim option"
  pf_max_in_codomain :: int
  pf_max_in_domain :: int
  pf_has_empty_codomain :: bool

record 'p ppl =
  pp_universe0 :: 'p
  pp_empty0 :: 'p
  pp_dim :: "'p \<Rightarrow> nat"
  pp_minimized :: "'p \<Rightarrow> pcons list"
  pp_add :: "'p \<Rightarrow> pcons \<Rightarrow> 'p"
  pp_embed :: "'p \<Rightarrow> nat \<Rightarrow> 'p"
  pp_map :: "'p \<Rightarrow> pfunc \<Rightarrow> 'p"
  pp_is_empty :: "'p \<Rightarrow> bool"
  pp_is_universe :: "'p \<Rightarrow> bool"
  pp_included :: "'p \<Rightarrow> pcons \<Rightarrow> bool"
  pp_disjoint :: "'p \<Rightarrow> pcons \<Rightarrow> bool"
  pp_maximize :: "'p \<Rightarrow> plin \<Rightarrow> (int \<times> int \<times> bool) option"
  pp_minimize :: "'p \<Rightarrow> plin \<Rightarrow> (int \<times> int \<times> bool) option"
  pp_intersection :: "'p \<Rightarrow> 'p \<Rightarrow> 'p"
  pp_hull :: "'p \<Rightarrow> 'p \<Rightarrow> 'p"
  pp_h79 :: "'p \<Rightarrow> 'p \<Rightarrow> 'p"
  pp_equal :: "'p \<Rightarrow> 'p \<Rightarrow> bool"

text \<open>The points of a polyhedron: those that satisfy its constraints.\<close>

definition psem :: "'p ppl \<Rightarrow> 'p \<Rightarrow> point set" where
  "psem P p = {x. \<forall>c \<in> set (pp_minimized P p). psat x c}"

text \<open>
  What \<open>map_space_dimensions\<close> requires of its argument: injective on the dimensions it
  keeps, onto an initial segment whose bounds it reports.
\<close>

definition pf_fits :: "nat \<Rightarrow> pfunc \<Rightarrow> bool" where
  "pf_fits n f \<longleftrightarrow>
     (\<forall>i < n. \<forall>i' < n. pf_maps f i \<noteq> None \<and> pf_maps f i = pf_maps f i' \<longrightarrow> i = i') \<and>
     {j. \<exists>i < n. pf_maps f i = Some j} = {j. int j \<le> pf_max_in_codomain f} \<and>
     - 1 \<le> pf_max_in_codomain f \<and>
     pf_has_empty_codomain f = (pf_max_in_codomain f = - 1)"

definition pf_image :: "nat \<Rightarrow> pfunc \<Rightarrow> point set \<Rightarrow> point set" where
  "pf_image n f X = {y. \<exists>x \<in> X. \<forall>i < n. \<forall>j. pf_maps f i = Some j \<longrightarrow> y j = x i}"

locale ppl_laws =
  fixes P :: "'p ppl"
  assumes universe0_dim: "pp_dim P (pp_universe0 P) = 0"
    and universe0_sem: "psem P (pp_universe0 P) = UNIV"
    and empty0_dim: "pp_dim P (pp_empty0 P) = 0"
    and empty0_sem: "psem P (pp_empty0 P) = {}"
    and minimized_dim: "c \<in> set (pp_minimized P p) \<Longrightarrow> pc_dim c \<le> pp_dim P p"
    and add_dim: "pc_dim c \<le> pp_dim P p \<Longrightarrow> pp_dim P (pp_add P p c) = pp_dim P p"
    and add_sem: "pc_dim c \<le> pp_dim P p \<Longrightarrow> psem P (pp_add P p c) = psem P p \<inter> {x. psat x c}"
    and embed_dim: "pp_dim P (pp_embed P p n) = pp_dim P p + n"
    and embed_sem: "psem P (pp_embed P p n) = psem P p"
    and map_dim: "pf_fits (pp_dim P p) f \<Longrightarrow>
      pp_dim P (pp_map P p f) = nat (pf_max_in_codomain f + 1)"
    and map_zero: "pp_dim P p = 0 \<Longrightarrow> pp_dim P (pp_map P p f) = 0"
    and map_sem: "pf_fits (pp_dim P p) f \<Longrightarrow>
      pf_image (pp_dim P p) f (psem P p) \<subseteq> psem P (pp_map P p f)"
    and map_sem_rename: "pf_fits (pp_dim P p) f \<Longrightarrow> (\<And>i. i < pp_dim P p \<Longrightarrow> pf_maps f i \<noteq> None) \<Longrightarrow>
      psem P (pp_map P p f) = pf_image (pp_dim P p) f (psem P p)"
    and is_empty_sem: "pp_is_empty P p \<Longrightarrow> psem P p = {}"
    and included_sem: "pp_included P p c \<Longrightarrow> x \<in> psem P p \<Longrightarrow> psat x c"
    and disjoint_sem: "pp_disjoint P p c \<Longrightarrow> x \<in> psem P p \<Longrightarrow> \<not> psat x c"
    and maximize_den: "pp_maximize P p e = Some (num, den, b) \<Longrightarrow> 0 < den"
    and maximize_sem: "pp_maximize P p e = Some (num, den, b) \<Longrightarrow> x \<in> psem P p \<Longrightarrow>
      pl_eval x e * of_int den \<le> of_int num"
    and minimize_den: "pp_minimize P p e = Some (num, den, b) \<Longrightarrow> 0 < den"
    and minimize_sem: "pp_minimize P p e = Some (num, den, b) \<Longrightarrow> x \<in> psem P p \<Longrightarrow>
      of_int num \<le> pl_eval x e * of_int den"
    and intersection_dim: "pp_dim P p = pp_dim P q \<Longrightarrow> pp_dim P (pp_intersection P p q) = pp_dim P p"
    and intersection_sem: "pp_dim P p = pp_dim P q \<Longrightarrow>
      psem P (pp_intersection P p q) = psem P p \<inter> psem P q"
    and hull_dim: "pp_dim P p = pp_dim P q \<Longrightarrow> pp_dim P (pp_hull P p q) = pp_dim P p"
    and hull_sem: "pp_dim P p = pp_dim P q \<Longrightarrow> psem P p \<union> psem P q \<subseteq> psem P (pp_hull P p q)"
    and h79_dim: "pp_dim P p = pp_dim P q \<Longrightarrow> pp_dim P (pp_h79 P p q) = pp_dim P p"
    and h79_sem: "pp_dim P p = pp_dim P q \<Longrightarrow> psem P p \<subseteq> psem P (pp_h79 P p q)"
    and equal_sem: "pp_equal P p q \<Longrightarrow> pp_dim P p = pp_dim P q \<and> psem P p = psem P q"

subsection \<open>Linear expressions over dimensions\<close>

lemma sum_list_update:
  fixes f :: "int \<Rightarrow> dim \<Rightarrow> rat"
  assumes "d < length cs"
  shows "(\<Sum>i < length cs. of_int (cs[d := cs ! d + c] ! i) * x i) =
    (\<Sum>i < length cs. of_int (cs ! i) * x i) + of_int c * (x d :: rat)"
proof -
  have "(\<Sum>i < length cs. of_int (cs[d := cs ! d + c] ! i) * x i) =
    (\<Sum>i < length cs. of_int (cs ! i) * x i + (if i = d then of_int c * x d else 0))"
    using assms by (intro sum.cong) (auto simp: nth_list_update distrib_right)
  then show ?thesis using assms by (simp add: sum.distrib)
qed

lemma sum_list_pad:
  "(\<Sum>i < length cs + n. of_int ((cs @ replicate n 0) ! i) * (x i :: rat)) =
   (\<Sum>i < length cs. of_int (cs ! i) * x i)"
proof -
  have "(\<Sum>i < length cs. of_int ((cs @ replicate n 0) ! i) * x i) =
    (\<Sum>i < length cs + n. of_int ((cs @ replicate n 0) ! i) * x i)"
    by (rule sum.mono_neutral_left) (auto simp: nth_append)
  then show ?thesis by (simp add: nth_append)
qed

lemma pl_eval_add_term [simp, sem_simps]:
  "pl_eval x (pl_add_term c d e) = pl_eval x e + of_int c * x d"
proof -
  obtain cs k where e: "e = (cs, k)" by (cases e)
  let ?cs = "cs @ replicate (Suc d - length cs) 0"
  have "d < length ?cs" by simp
  from sum_list_update [OF this, where c = c and x = x]
  show ?thesis
    using sum_list_pad [of cs "Suc d - length cs" x] by (simp add: e Let_def)
qed

lemma pl_eval_add_const [simp, sem_simps]:
  "pl_eval x (pl_add_const c e) = pl_eval x e + of_int c"
  by (cases e) simp

lemma pl_eval_zero [simp, sem_simps]: "pl_eval x pl_zero = 0"
  by (simp add: pl_zero_def)

lemma pl_dim_ops [simp]:
  "length (fst pl_zero) = 0"
  "length (fst (pl_add_term c d e)) = max (length (fst e)) (Suc d)"
  "length (fst (pl_add_const c e)) = length (fst e)"
  by (cases e; simp add: pl_zero_def Let_def)+

lemma pl_eval_cong:
  "(\<And>i. i < length (fst e) \<Longrightarrow> x i = y i) \<Longrightarrow> pl_eval x e = pl_eval y e"
  by (cases e) (auto intro: sum.cong)

lemma pl_eval_coef:
  assumes "length (fst e) \<le> n"
  shows "pl_eval x e = of_int (snd e) + (\<Sum>i < n. of_int (pl_coef e i) * x i)"
proof -
  obtain cs k where e: "e = (cs, k)" by (cases e)
  have "(\<Sum>i < length cs. of_int (cs ! i) * x i) = (\<Sum>i < n. of_int (pl_coef e i) * x i)"
    using assms e by (intro sum.mono_neutral_cong_left) auto
  then show ?thesis by (simp add: e)
qed

lemma psat_cong: "(\<And>i. i < pc_dim c \<Longrightarrow> x i = y i) \<Longrightarrow> psat x c = psat y c"
  by (cases c) (auto simp: pc_dim_def cong: pl_eval_cong dest: pl_eval_cong)

context ppl_laws
begin

lemma psem_cong:
  assumes "\<And>i. i < pp_dim P p \<Longrightarrow> x i = y i"
  shows "x \<in> psem P p \<longleftrightarrow> y \<in> psem P p"
  using assms minimized_dim psat_cong [of _ x y] by (fastforce simp: psem_def)

end

end
