(* ===== verification/W_Poly.thy ===== *)
theory W_Poly
  imports Lin_Expr PPL_Interface
begin

text \<open>
  Polyhedra over named variables (\<open>WPoly\<close> of \<open>include/PolyWrap.h\<close>): a polyhedron of
  the library together with the \<open>adapter\<close>, the ordered map from variable numbers to
  dimensions, and the next free dimension. A variable without a dimension is unconstrained.
  Definitions first, in the order of the source; then the invariant \<open>wp_ok\<close>, the meaning
  \<open>wsem\<close> as a set of valuations, and the effect of each operation on both.
\<close>

record 'p wpoly =
  wp_adapter :: "(guid, dim) omap"
  wp_next :: dim
  wp_poly :: 'p

text \<open>\<open>WPoly(bool empty)\<close>\<close>

definition wp_new :: "'p ppl \<Rightarrow> bool \<Rightarrow> 'p wpoly" where
  "wp_new P emp =
     \<lparr>wp_adapter = [], wp_next = 0, wp_poly = (if emp then pp_empty0 P else pp_universe0 P)\<rparr>"

text \<open>\<open>translate(guid_t) const\<close>: \<open>None\<close> is the exception \<open>TranslationFailed\<close>.\<close>

definition wp_translate_const :: "'p wpoly \<Rightarrow> guid \<Rightarrow> dim option" where
  "wp_translate_const w g = map_of (wp_adapter w) g"

definition wp_isTracked :: "'p wpoly \<Rightarrow> guid \<Rightarrow> bool" where
  "wp_isTracked w g = (map_of (wp_adapter w) g \<noteq> None)"

text \<open>The non-constant \<open>translate(guid_t)\<close> gives an unknown variable the next dimension.\<close>

definition wp_translate :: "guid \<Rightarrow> 'p wpoly \<Rightarrow> dim \<times> 'p wpoly" where
  "wp_translate g w =
     (case map_of (wp_adapter w) g of
        Some d \<Rightarrow> (d, w)
      | None \<Rightarrow> (wp_next w,
          w\<lparr>wp_adapter := om_set g (wp_next w) (wp_adapter w), wp_next := wp_next w + 1\<rparr>))"

text \<open>\<open>WLinExpr::toPPL\<close>, in its two versions.\<close>

fun le_terms_toPPL :: "(guid \<times> int) list \<Rightarrow> plin \<Rightarrow> 'p wpoly \<Rightarrow> plin \<times> 'p wpoly" where
  "le_terms_toPPL [] e w = (e, w)"
| "le_terms_toPPL ((g, c) # ts) e w =
     (let (d, w') = wp_translate g w in le_terms_toPPL ts (pl_add_term c d e) w')"

definition le_toPPL :: "wlin \<Rightarrow> 'p wpoly \<Rightarrow> plin \<times> 'p wpoly" where
  "le_toPPL le w =
     (let (e, w') = le_terms_toPPL (coefs le) pl_zero w in (pl_add_const (cst le) e, w'))"

definition le_toPPL_const :: "wlin \<Rightarrow> 'p wpoly \<Rightarrow> plin option" where
  "le_toPPL_const le w = do {
     e \<leftarrow> foldM (\<lambda>(g, c) e. do { d \<leftarrow> wp_translate_const w g; Some (pl_add_term c d e) })
       (coefs le) pl_zero;
     Some (pl_add_const (cst le) e) }"

definition wc_ppl :: "ctype \<Rightarrow> plin \<Rightarrow> pcons" where
  "wc_ppl t e = (if t = CONS_EQ then PEq e else PGe e)"

definition wp_translate_cons_const :: "'p wpoly \<Rightarrow> wcons \<Rightarrow> pcons option" where
  "wp_translate_cons_const w c = do {
     e \<leftarrow> le_toPPL_const (wc_expr c) w; Some (wc_ppl (wc_type c) e) }"

definition wp_translate_cons :: "'p ppl \<Rightarrow> wcons \<Rightarrow> 'p wpoly \<Rightarrow> pcons \<times> 'p wpoly" where
  "wp_translate_cons P c w =
     (let (e, w') = le_toPPL (wc_expr c) w;
          p = wp_poly w';
          p' = (if pp_dim P p < wp_next w' then pp_embed P p (wp_next w' - pp_dim P p) else p)
      in (wc_ppl (wc_type c) e, w'\<lparr>wp_poly := p'\<rparr>))"

definition wp_add_constraint :: "'p ppl \<Rightarrow> wcons \<Rightarrow> 'p wpoly \<Rightarrow> 'p wpoly" where
  "wp_add_constraint P c w =
     (let (pc, w') = wp_translate_cons P c w in w'\<lparr>wp_poly := pp_add P (wp_poly w') pc\<rparr>)"

text \<open>
  \<open>back_translate\<close> and the constraints that \<open>ConsIterator\<close> enumerates;
  \<open>inv.at(i)\<close> throws for a dimension no variable owns.
\<close>

definition wp_invMap :: "'p wpoly \<Rightarrow> (dim, guid) omap" where
  "wp_invMap w = fold (\<lambda>(g, d) m. om_set d g m) (wp_adapter w) []"

definition wp_back_translate :: "'p ppl \<Rightarrow> 'p wpoly \<Rightarrow> pcons \<Rightarrow> wcons option" where
  "wp_back_translate P w c = do {
     le \<leftarrow> foldM (\<lambda>i le.
         let k = pl_coef (pc_expr c) i in
         if k \<noteq> 0 then do {
           g \<leftarrow> map_of (wp_invMap w) i;
           Some (le_add le (le_scale k (le_var g))) }
         else Some le) [0..<pp_dim P (wp_poly w)] (le_const 0);
     let le' = le_add le (le_const (snd (pc_expr c)));
     Some (if pc_is_equality c then w_eq le' (le_const 0) else w_ge le' (le_const 0)) }"

definition wp_constraints :: "'p ppl \<Rightarrow> 'p wpoly \<Rightarrow> wcons list option" where
  "wp_constraints P w = mapM (wp_back_translate P w) (pp_minimized P (wp_poly w))"

text \<open>The variables in the order of \<open>VarIterator\<close>.\<close>

definition wp_vars :: "'p wpoly \<Rightarrow> guid list" where
  "wp_vars w = map fst (wp_adapter w)"

text \<open>
  \<open>maximize\<close> and \<open>minimize\<close> catch \<open>TranslationFailed\<close> and report failure; on
  failure the callers' numerator and denominator keep their values.
\<close>

definition wp_maximize :: "'p ppl \<Rightarrow> 'p wpoly \<Rightarrow> wlin \<Rightarrow> (int \<times> int \<times> bool) option" where
  "wp_maximize P w le = do { e \<leftarrow> le_toPPL_const le w; pp_maximize P (wp_poly w) e }"

definition wp_minimize :: "'p ppl \<Rightarrow> 'p wpoly \<Rightarrow> wlin \<Rightarrow> (int \<times> int \<times> bool) option" where
  "wp_minimize P w le = do { e \<leftarrow> le_toPPL_const le w; pp_minimize P (wp_poly w) e }"

text \<open>
  \<open>relation_with(c).implies(is_included())\<close> and \<open>\<dots>(is_disjoint())\<close>. On a constant
  object an untracked variable throws; otherwise it is given a dimension.
\<close>

definition wp_included_const :: "'p ppl \<Rightarrow> 'p wpoly \<Rightarrow> wcons \<Rightarrow> bool option" where
  "wp_included_const P w c = do {
     pc \<leftarrow> wp_translate_cons_const w c; Some (pp_included P (wp_poly w) pc) }"

definition wp_disjoint_const :: "'p ppl \<Rightarrow> 'p wpoly \<Rightarrow> wcons \<Rightarrow> bool option" where
  "wp_disjoint_const P w c = do {
     pc \<leftarrow> wp_translate_cons_const w c; Some (pp_disjoint P (wp_poly w) pc) }"

definition wp_included :: "'p ppl \<Rightarrow> wcons \<Rightarrow> 'p wpoly \<Rightarrow> bool \<times> 'p wpoly" where
  "wp_included P c w =
     (let (pc, w') = wp_translate_cons P c w in (pp_included P (wp_poly w') pc, w'))"

definition wp_is_empty :: "'p ppl \<Rightarrow> 'p wpoly \<Rightarrow> bool" where
  "wp_is_empty P w = pp_is_empty P (wp_poly w)"

definition wp_is_universe :: "'p ppl \<Rightarrow> 'p wpoly \<Rightarrow> bool" where
  "wp_is_universe P w = pp_is_universe P (wp_poly w)"

definition wp_variable_count :: "'p ppl \<Rightarrow> 'p wpoly \<Rightarrow> nat" where
  "wp_variable_count P w = pp_dim P (wp_poly w)"

definition wp_highest_guid :: "'p wpoly \<Rightarrow> guid" where
  "wp_highest_guid w = fold (\<lambda>(g, d) h. if h < g then g else h) (wp_adapter w) 0"

text \<open>The helper classes \<open>Eliminator\<close> and \<open>MapHash\<close>.\<close>

definition pf_eliminator :: "dim list \<Rightarrow> nat \<Rightarrow> pfunc" where
  "pf_eliminator victims n =
     \<lparr>pf_maps = (\<lambda>i. if i \<in> set victims then None
        else Some (i - length (filter (\<lambda>v. v < i) victims))),
      pf_max_in_codomain = int n - 1 - int (length victims),
      pf_max_in_domain = int n - 1,
      pf_has_empty_codomain = (n = length victims)\<rparr>"

definition pf_maphash :: "(dim, dim) omap \<Rightarrow> pfunc" where
  "pf_maphash remap =
     \<lparr>pf_maps = map_of remap,
      pf_max_in_codomain = fold (\<lambda>(i, j) m. if int j > m then int j else m) remap 0,
      pf_max_in_domain = fold (\<lambda>(i, j) m. if int i > m then int i else m) remap 0,
      pf_has_empty_codomain = False\<rparr>"

definition wp_map_adapter_dim :: "pfunc \<Rightarrow> (guid, dim) omap \<Rightarrow> (guid, dim) omap" where
  "wp_map_adapter_dim f a =
     List.map_filter (\<lambda>(g, d). map_option (\<lambda>j. (g, j)) (pf_maps f d)) a"

text \<open>\<open>map_with_dim\<close> aborts when the dimensions do not add up.\<close>

definition wp_map_with_dim :: "'p ppl \<Rightarrow> pfunc \<Rightarrow> 'p wpoly \<Rightarrow> 'p wpoly option" where
  "wp_map_with_dim P f w =
     (let p = pp_map P (wp_poly w) f; n = nat (pf_max_in_codomain f + 1) in
      if n \<noteq> pp_dim P p then None
      else Some \<lparr>wp_adapter = wp_map_adapter_dim f (wp_adapter w), wp_next = n, wp_poly = p\<rparr>)"

definition wp_eliminate :: "'p ppl \<Rightarrow> dim \<Rightarrow> 'p wpoly \<Rightarrow> 'p wpoly option" where
  "wp_eliminate P d w = wp_map_with_dim P (pf_eliminator [d] (pp_dim P (wp_poly w))) w"

definition wp_unconstrain :: "'p ppl \<Rightarrow> guid \<Rightarrow> 'p wpoly \<Rightarrow> 'p wpoly option" where
  "wp_unconstrain P g w = do {
     assert_that (length (wp_adapter w) = pp_dim P (wp_poly w));
     case wp_translate_const w g of None \<Rightarrow> Some w | Some d \<Rightarrow> wp_eliminate P d w }"

text \<open>
  \<open>map_vars\<close>: rename the variables by a partial function; those without an image are
  projected out. \<open>map_lambda\<close> and \<open>filter_lambda\<close> wrap a lambda as that function.
\<close>

definition wp_split_vars ::
  "(guid \<Rightarrow> guid option) \<Rightarrow> (guid, dim) omap \<Rightarrow> (guid, dim) omap \<times> dim list" where
  "wp_split_vars f a =
     fold (\<lambda>(g, d) (na, vs).
       case f g of Some j \<Rightarrow> (om_set j d na, vs) | None \<Rightarrow> (na, vs @ [d])) a ([], [])"

definition wp_map_vars :: "'p ppl \<Rightarrow> (guid \<Rightarrow> guid option) \<Rightarrow> 'p wpoly \<Rightarrow> 'p wpoly option" where
  "wp_map_vars P f w =
     (let (a, vs) = wp_split_vars f (wp_adapter w)
      in wp_map_with_dim P (pf_eliminator vs (pp_dim P (wp_poly w))) (w\<lparr>wp_adapter := a\<rparr>))"

definition wp_map_lambda :: "'p ppl \<Rightarrow> (guid \<Rightarrow> guid option) \<Rightarrow> 'p wpoly \<Rightarrow> 'p wpoly option" where
  "wp_map_lambda P f w = wp_map_vars P f w"

definition wp_filter_lambda :: "'p ppl \<Rightarrow> (guid \<Rightarrow> bool) \<Rightarrow> 'p wpoly \<Rightarrow> 'p wpoly option" where
  "wp_filter_lambda P f w = wp_map_vars P (\<lambda>g. if f g then Some g else None) w"

text \<open>
  \<open>combine(src, keep)\<close> gives both polyhedra the same variables on the same dimensions: the
  union of their variables when \<open>keep\<close>, else the common ones.
\<close>

definition wp_adopt :: "'p wpoly \<Rightarrow> 'p wpoly \<Rightarrow> 'p wpoly" where
  "wp_adopt from w =
     fold (\<lambda>(g, d) w. if map_of (wp_adapter w) g = None
       then w\<lparr>wp_adapter := om_set g (wp_next w) (wp_adapter w), wp_next := wp_next w + 1\<rparr>
       else w) (wp_adapter from) w"

definition wp_missing_dims :: "'p wpoly \<Rightarrow> 'p wpoly \<Rightarrow> dim list" where
  "wp_missing_dims w other =
     map snd (filter (\<lambda>(g, d). map_of (wp_adapter other) g = None) (wp_adapter w))"

definition wp_align :: "'p ppl \<Rightarrow> 'p wpoly \<Rightarrow> 'p wpoly \<Rightarrow> 'p wpoly option" where
  "wp_align P w src =
     (let (srcmap, sa) = fold (\<lambda>(g, d) (m, a).
            case map_of a g of Some i \<Rightarrow> (om_set i d m, a)
            | None \<Rightarrow> (om_set 0 d m, om_set g 0 a)) (wp_adapter w) ([], wp_adapter src)
      in wp_map_with_dim P (pf_maphash srcmap) (src\<lparr>wp_adapter := sa\<rparr>))"

definition wp_combine ::
  "'p ppl \<Rightarrow> 'p wpoly \<Rightarrow> 'p wpoly \<Rightarrow> bool \<Rightarrow> ('p wpoly \<times> 'p wpoly) option" where
  "wp_combine P w src keep = do {
     let src1 = (if keep then wp_adopt w src else src);
     let w1 = (if keep then wp_adopt src1 w else w);
     let victim1 = (if keep then [] else wp_missing_dims w src);
     let victim2 = (if keep then [] else wp_missing_dims src w);
     let w2 = w1\<lparr>wp_poly := pp_embed P (wp_poly w1) (wp_next w1 - wp_next w)\<rparr>;
     let src2 = src1\<lparr>wp_poly := pp_embed P (wp_poly src1) (wp_next src1 - wp_next src)\<rparr>;
     (w3, src3) \<leftarrow> (if keep then Some (w2, src2) else do {
        w' \<leftarrow> wp_map_with_dim P (pf_eliminator victim1 (pp_dim P (wp_poly w2))) w2;
        src' \<leftarrow> wp_map_with_dim P (pf_eliminator victim2 (pp_dim P (wp_poly src2))) src2;
        Some (w', src') });
     src4 \<leftarrow> wp_align P w3 src3;
     Some (w3, src4) }"

definition wp_equals :: "'p ppl \<Rightarrow> 'p wpoly \<Rightarrow> 'p wpoly \<Rightarrow> bool option" where
  "wp_equals P w src = do {
     (copie1, copie2) \<leftarrow> wp_combine P src w True;
     Some (pp_equal P (wp_poly copie1) (wp_poly copie2)) }"

definition wp_intersection :: "'p ppl \<Rightarrow> 'p wpoly \<Rightarrow> 'p wpoly \<Rightarrow> 'p wpoly option" where
  "wp_intersection P w src = do {
     (w', copie) \<leftarrow> wp_combine P w src True;
     Some (w'\<lparr>wp_poly := pp_intersection P (wp_poly w') (wp_poly copie)\<rparr>) }"

definition wp_hull :: "'p ppl \<Rightarrow> 'p wpoly \<Rightarrow> 'p wpoly \<Rightarrow> 'p wpoly option" where
  "wp_hull P w src = do {
     (w', copie) \<leftarrow> wp_combine P w src False;
     Some (w'\<lparr>wp_poly := pp_hull P (wp_poly w') (wp_poly copie)\<rparr>) }"

definition wp_h79 :: "'p ppl \<Rightarrow> 'p wpoly \<Rightarrow> 'p wpoly \<Rightarrow> 'p wpoly option" where
  "wp_h79 P w src = do {
     (w', copie) \<leftarrow> wp_combine P w src False;
     Some (w'\<lparr>wp_poly := pp_h79 P (wp_poly w') (wp_poly copie)\<rparr>) }"

end
