(* ===== verification/W_Poly_Sem.thy ===== *)
theory W_Poly_Sem
  imports W_Poly
begin

text \<open>
  The invariant and the meaning of \<open>WPoly\<close>, and what each of its operations does to
  them. Everything is proved from the laws of the polyhedra library, in the locale
  \<open>ppl_laws\<close>.
\<close>

subsection \<open>Adapters\<close>

text \<open>An adapter numbers its variables \<open>0, \<dots>, n - 1\<close> without repetition.\<close>

definition ad_ok :: "(guid, dim) omap \<Rightarrow> nat \<Rightarrow> bool" where
  "ad_ok a n \<longleftrightarrow> om_ok a \<and> inj_on (map_of a) (dom (map_of a)) \<and> ran (map_of a) = {..<n}"

definition agree :: "(guid, dim) omap \<Rightarrow> valuation \<Rightarrow> point \<Rightarrow> bool" where
  "agree a v x \<longleftrightarrow> (\<forall>g d. map_of a g = Some d \<longrightarrow> v g = x d)"

definition wp_ok :: "'p ppl \<Rightarrow> 'p wpoly \<Rightarrow> bool" where
  "wp_ok P w \<longleftrightarrow> ad_ok (wp_adapter w) (pp_dim P (wp_poly w)) \<and> wp_next w = pp_dim P (wp_poly w)"

definition wsem :: "'p ppl \<Rightarrow> 'p wpoly \<Rightarrow> valuation set" where
  "wsem P w = {v. \<exists>x \<in> psem P (wp_poly w). agree (wp_adapter w) v x}"

definition wp_dom :: "'p wpoly \<Rightarrow> guid set" where
  "wp_dom w = dom (map_of (wp_adapter w))"

lemma agreeD: "agree a v x \<Longrightarrow> map_of a g = Some d \<Longrightarrow> x d = v g"
  by (simp add: agree_def)

lemma agree_ex:
  assumes "inj_on (map_of a) (dom (map_of a))"
  shows "\<exists>x. agree a v x"
proof -
  define x where "x d = v (SOME g. map_of a g = Some d)" for d
  have "v g = x d" if g: "map_of a g = Some d" for g d
  proof -
    have "map_of a (SOME g. map_of a g = Some d) = Some d" using g by (rule someI)
    then have "(SOME g. map_of a g = Some d) = g"
      using assms g by (intro inj_onD [OF assms]) auto
    then show ?thesis by (simp add: x_def)
  qed
  then show ?thesis by (auto simp: agree_def)
qed

lemma agree_unique:
  assumes "ad_ok a n" and "agree a v x" and "agree a v y" and "i < n"
  shows "x i = y i"
proof -
  have "i \<in> ran (map_of a)" using assms by (simp add: ad_ok_def)
  then obtain g where "map_of a g = Some i" by (auto simp: ran_def)
  then show ?thesis using assms(2,3) by (simp add: agreeD)
qed

lemma ad_ok_dim_less: "ad_ok a n \<Longrightarrow> map_of a g = Some d \<Longrightarrow> d < n"
  by (auto simp: ad_ok_def intro: ranI)

lemma ad_ok_image: "ad_ok a n \<Longrightarrow> map_of a ` dom (map_of a) = Some ` {..<n}"
  by (auto simp: ad_ok_def image_iff dom_def ran_def set_eq_iff) metis+

lemma ad_ok_length: "ad_ok a n \<Longrightarrow> length a = n"
proof -
  assume a: "ad_ok a n"
  have "card (dom (map_of a)) = card (map_of a ` dom (map_of a))"
    using a card_image [of "map_of a" "dom (map_of a)"] by (simp add: ad_ok_def)
  also have "\<dots> = n" by (simp add: ad_ok_image [OF a] card_image)
  finally show ?thesis using a by (simp add: ad_ok_def om.card_dom)
qed

lemma ad_ok_extend:
  assumes a: "ad_ok a n" and g: "map_of a g = None"
  shows "ad_ok (om_set g n a) (Suc n)"
proof -
  have om: "om_ok a" using a by (simp add: ad_ok_def)
  have m: "map_of (om_set g n a) = (map_of a)(g \<mapsto> n)" by (rule map_of_om_set [OF om])
  have "inj_on ((map_of a)(g \<mapsto> n)) (dom ((map_of a)(g \<mapsto> n)))"
  proof (rule inj_onI)
    fix p q
    assume pq: "p \<in> dom ((map_of a)(g \<mapsto> n))" "q \<in> dom ((map_of a)(g \<mapsto> n))"
      "((map_of a)(g \<mapsto> n)) p = ((map_of a)(g \<mapsto> n)) q"
    have n: "map_of a h \<noteq> Some n" for h using ad_ok_dim_less [OF a] by fastforce
    show "p = q"
    proof (cases "p = g \<or> q = g")
      case True
      then show ?thesis using pq(3) n [of p] n [of q] by (auto split: if_splits)
    next
      case False
      then have "map_of a p = map_of a q" "p \<in> dom (map_of a)" "q \<in> dom (map_of a)"
        using pq by auto
      moreover have "inj_on (map_of a) (dom (map_of a))" using a by (simp add: ad_ok_def)
      ultimately show ?thesis by (simp add: inj_on_eq_iff)
    qed
  qed
  moreover have "ran ((map_of a)(g \<mapsto> n)) = {..<Suc n}"
    using a g by (simp add: ad_ok_def ran_map_upd lessThan_Suc)
  ultimately show ?thesis using om by (simp add: ad_ok_def m om.upd_ok)
qed

subsection \<open>Translation and constraints\<close>

text \<open>Steps that only give new variables new dimensions.\<close>

definition extends :: "'p wpoly \<Rightarrow> 'p wpoly \<Rightarrow> bool" where
  "extends w w' \<longleftrightarrow> map_of (wp_adapter w) \<subseteq>\<^sub>m map_of (wp_adapter w') \<and> wp_next w \<le> wp_next w' \<and>
     wp_poly w' = wp_poly w \<and> (ad_ok (wp_adapter w) (wp_next w) \<longrightarrow> ad_ok (wp_adapter w') (wp_next w'))"

lemma extends_refl [simp]: "extends w w"
  by (simp add: extends_def)

lemma extends_trans: "extends u v \<Longrightarrow> extends v w \<Longrightarrow> extends u w"
  unfolding extends_def using map_le_trans by auto

lemma wp_translate_extends:
  assumes "ad_ok (wp_adapter w) (wp_next w)" and t: "wp_translate g w = (d, w')"
  shows "extends w w'" and "map_of (wp_adapter w') g = Some d"
    and "wp_dom w' = insert g (wp_dom w)"
proof -
  have om: "om_ok (wp_adapter w)" using assms(1) by (simp add: ad_ok_def)
  show "extends w w'" "map_of (wp_adapter w') g = Some d" "wp_dom w' = insert g (wp_dom w)"
    using t ad_ok_extend [OF assms(1)]
    by (auto simp: wp_translate_def extends_def map_of_om_set [OF om] wp_dom_def map_le_def
        split: option.splits)
qed

lemma le_terms_toPPL_sem:
  assumes "ad_ok (wp_adapter w) (wp_next w)" and "le_terms_toPPL ts e w = (e', w')"
    and "length (fst e) \<le> wp_next w"
  shows "extends w w'" and "length (fst e') \<le> wp_next w'"
    and "wp_dom w' = wp_dom w \<union> fst ` set ts"
    and "agree (wp_adapter w') v x \<Longrightarrow>
      pl_eval x e' = pl_eval x e + (\<Sum>(g, c) \<leftarrow> ts. of_int c * v g)"
proof -
  have "extends w w' \<and> length (fst e') \<le> wp_next w' \<and> wp_dom w' = wp_dom w \<union> fst ` set ts \<and>
    (agree (wp_adapter w') v x \<longrightarrow>
      pl_eval x e' = pl_eval x e + (\<Sum>(g, c) \<leftarrow> ts. of_int c * v g))"
    using assms
  proof (induction ts e w rule: le_terms_toPPL.induct)
    case (1 e w)
    then show ?case by simp
  next
    case (2 g c ts e w)
    obtain d w1 where t: "wp_translate g w = (d, w1)" by (cases "wp_translate g w")
    note tr = wp_translate_extends [OF "2.prems"(1) t]
    have ok1: "ad_ok (wp_adapter w1) (wp_next w1)" using tr(1) "2.prems"(1) by (simp add: extends_def)
    have "d < wp_next w1" using ad_ok_dim_less [OF ok1 tr(2)] .
    then have len: "length (fst (pl_add_term c d e)) \<le> wp_next w1"
      using "2.prems"(3) tr(1) by (simp add: extends_def)
    have IH: "extends w1 w' \<and> length (fst e') \<le> wp_next w' \<and> wp_dom w' = wp_dom w1 \<union> fst ` set ts \<and>
      (agree (wp_adapter w') v x \<longrightarrow>
        pl_eval x e' = pl_eval x (pl_add_term c d e) + (\<Sum>(g, c) \<leftarrow> ts. of_int c * v g))"
      using "2.IH" [OF t [symmetric] refl ok1 _ len] "2.prems"(2) t by simp
    moreover have "x d = v g" if "agree (wp_adapter w') v x"
      using agreeD [OF that, of g d] tr(2) IH by (auto simp: extends_def map_le_def dom_def)
    ultimately show ?case using tr(1,3) extends_trans by (auto simp: algebra_simps)
  qed
  then show "extends w w'" "length (fst e') \<le> wp_next w'" "wp_dom w' = wp_dom w \<union> fst ` set ts"
    "agree (wp_adapter w') v x \<Longrightarrow>
      pl_eval x e' = pl_eval x e + (\<Sum>(g, c) \<leftarrow> ts. of_int c * v g)" by blast+
qed

lemma le_toPPL_sem:
  assumes "ad_ok (wp_adapter w) (wp_next w)" and t: "le_toPPL le w = (e, w')"
  shows "extends w w'" and "length (fst e) \<le> wp_next w'"
    and "wp_dom w' = wp_dom w \<union> le_vars le"
    and "agree (wp_adapter w') v x \<Longrightarrow> pl_eval x e = le_eval v le"
proof -
  obtain e0 where e0: "le_terms_toPPL (coefs le) pl_zero w = (e0, w')" "e = pl_add_const (cst le) e0"
    using t by (auto simp: le_toPPL_def split: prod.splits)
  have "length (fst pl_zero) \<le> wp_next w" by simp
  note s = le_terms_toPPL_sem [OF assms(1) e0(1) this]
  show "extends w w'" by (rule s(1))
  show "length (fst e) \<le> wp_next w'" using s(2) e0(2) by simp
  show "wp_dom w' = wp_dom w \<union> le_vars le" using s(3) by (simp add: le_vars_def)
  show "agree (wp_adapter w') v x \<Longrightarrow> pl_eval x e = le_eval v le"
    using s(4) by (simp add: e0(2) le_eval_def)
qed

lemma le_toPPL_const_sem:
  assumes "le_toPPL_const le w = Some e" and ok: "ad_ok (wp_adapter w) n"
  shows "length (fst e) \<le> n" and "agree (wp_adapter w) v x \<Longrightarrow> pl_eval x e = le_eval v le"
    and "le_vars le \<subseteq> wp_dom w"
proof -
  have *: "length (fst e') \<le> n \<and> fst ` set ts \<subseteq> wp_dom w \<and> (agree (wp_adapter w) v x \<longrightarrow>
      pl_eval x e' = pl_eval x e0 + (\<Sum>(g, c) \<leftarrow> ts. of_int c * v g))"
    if "foldM (\<lambda>(g, c) e. do { d \<leftarrow> wp_translate_const w g; Some (pl_add_term c d e) }) ts e0 = Some e'"
      and "length (fst e0) \<le> n" for ts e0 e'
    using that
  proof (induction ts arbitrary: e0)
    case (Cons t ts)
    obtain g c where t: "t = (g, c)" by (cases t)
    from Cons.prems(1) obtain d where d: "map_of (wp_adapter w) g = Some d"
      and r: "foldM (\<lambda>(g, c) e. do { d \<leftarrow> wp_translate_const w g; Some (pl_add_term c d e) }) ts
        (pl_add_term c d e0) = Some e'"
      by (auto simp: t bindE wp_translate_const_def)
    have "length (fst (pl_add_term c d e0)) \<le> n"
      using Cons.prems(2) ad_ok_dim_less [OF ok d] by simp
    from Cons.IH [OF r this] show ?case
      using d by (auto simp: t agreeD wp_dom_def algebra_simps)
  qed simp
  from assms(1) obtain e0 where
    "foldM (\<lambda>(g, c) e. do { d \<leftarrow> wp_translate_const w g; Some (pl_add_term c d e) })
       (coefs le) pl_zero = Some e0" "e = pl_add_const (cst le) e0"
    by (auto simp: le_toPPL_const_def bindE)
  then show "length (fst e) \<le> n" "agree (wp_adapter w) v x \<Longrightarrow> pl_eval x e = le_eval v le"
    "le_vars le \<subseteq> wp_dom w"
    using * [of "coefs le" pl_zero e0] by (auto simp: le_eval_def le_vars_def)
qed

lemma le_toPPL_const_total:
  assumes "le_vars le \<subseteq> wp_dom w"
  shows "le_toPPL_const le w \<noteq> None"
proof -
  have "\<exists>e. foldM (\<lambda>(g, c) e. do { d \<leftarrow> wp_translate_const w g; Some (pl_add_term c d e) }) (coefs le) pl_zero
      = Some e \<and> True"
  proof (rule foldM_total)
    fix t :: "guid \<times> int" and e
    assume "t \<in> set (coefs le)"
    then have "fst t \<in> wp_dom w" using assms by (auto simp: le_vars_def)
    then show "\<exists>e'. (case t of (g, c) \<Rightarrow> \<lambda>e. do { d \<leftarrow> wp_translate_const w g; Some (pl_add_term c d e) }) e
        = Some e' \<and> True"
      by (cases t) (auto simp: wp_dom_def wp_translate_const_def)
  qed simp
  then show ?thesis by (auto simp: le_toPPL_const_def)
qed

lemma psat_wc_ppl: "pl_eval x e = le_eval v (wc_expr c) \<Longrightarrow> psat x (wc_ppl (wc_type c) e) = wc_sat v c"
  by (cases "wc_type c") (auto simp: wc_ppl_def wc_sat_def)

lemma pc_dim_wc_ppl [simp]: "pc_dim (wc_ppl t e) = length (fst e)"
  by (simp add: pc_dim_def wc_ppl_def)

context ppl_laws
begin

lemma wsem_point:
  assumes "wp_ok P w" and "agree (wp_adapter w) v x"
  shows "v \<in> wsem P w \<longleftrightarrow> x \<in> psem P (wp_poly w)"
proof
  assume "v \<in> wsem P w"
  then obtain y where "y \<in> psem P (wp_poly w)" "agree (wp_adapter w) v y" by (auto simp: wsem_def)
  then show "x \<in> psem P (wp_poly w)"
    using psem_cong [of "wp_poly w" x y] agree_unique [of "wp_adapter w" _ v x y] assms
    by (auto simp: wp_ok_def)
qed (use assms in \<open>auto simp: wsem_def\<close>)

lemma wsem_cong:
  assumes "\<And>g. g \<in> wp_dom w \<Longrightarrow> v g = v' g"
  shows "v \<in> wsem P w \<longleftrightarrow> v' \<in> wsem P w"
proof -
  have "agree (wp_adapter w) v x = agree (wp_adapter w) v' x" for x
    using assms by (auto simp: agree_def wp_dom_def dom_def)
  then show ?thesis by (simp add: wsem_def)
qed

lemma wsem_upd: "g \<notin> wp_dom w \<Longrightarrow> v(g := a) \<in> wsem P w \<longleftrightarrow> v \<in> wsem P w"
  by (rule wsem_cong) auto

lemma new_ok [simp, intro]: "wp_ok P (wp_new P b)"
  by (simp add: wp_ok_def wp_new_def ad_ok_def universe0_dim empty0_dim)

lemma new_sem [simp]: "wsem P (wp_new P True) = {}" "wsem P (wp_new P False) = UNIV"
  by (auto simp: wsem_def wp_new_def empty0_sem universe0_sem agree_def)

text \<open>Giving new variables new, unconstrained dimensions.\<close>

lemma embed_extends:
  assumes ok: "wp_ok P w" and ext: "extends w w'"
    and w'': "w'' = w'\<lparr>wp_poly := pp_embed P (wp_poly w') (wp_next w' - pp_dim P (wp_poly w'))\<rparr>"
  shows "wp_ok P w''" and "wsem P w'' = wsem P w"
proof -
  have dim: "pp_dim P (wp_poly w') = wp_next w" "wp_next w \<le> wp_next w'"
    and ad: "ad_ok (wp_adapter w') (wp_next w')"
    using ok ext by (auto simp: wp_ok_def extends_def)
  have "pp_dim P (wp_poly w'') = wp_next w'" using dim by (simp add: w'' embed_dim)
  then show ok'': "wp_ok P w''" using ad unfolding wp_ok_def by (simp add: w'')
  show "wsem P w'' = wsem P w"
  proof (rule set_eqI)
    fix v
    obtain x where x: "agree (wp_adapter w') v x"
      using agree_ex [of "wp_adapter w'" v] ad by (auto simp: ad_ok_def)
    have "agree (wp_adapter w) v x"
      using x ext by (auto simp: agree_def extends_def map_le_def dom_def)
    then show "v \<in> wsem P w'' \<longleftrightarrow> v \<in> wsem P w"
      using wsem_point [OF ok] wsem_point [OF ok'', of v x] x ext
      by (simp add: w'' embed_sem extends_def)
  qed
qed

lemma translate_cons:
  assumes ok: "wp_ok P w" and t: "wp_translate_cons P c w = (pc, w')"
  shows "wp_ok P w'" and "wsem P w' = wsem P w" and "wp_dom w' = wp_dom w \<union> wc_vars c"
    and "pc_dim pc \<le> pp_dim P (wp_poly w')"
    and "agree (wp_adapter w') v x \<Longrightarrow> psat x pc = wc_sat v c"
proof -
  obtain e w1 where e: "le_toPPL (wc_expr c) w = (e, w1)" by (cases "le_toPPL (wc_expr c) w")
  have ad: "ad_ok (wp_adapter w) (wp_next w)" using ok by (simp add: wp_ok_def)
  note s = le_toPPL_sem [OF ad e]
  have w': "pp_dim P (wp_poly w1) < wp_next w1 \<and>
      w' = w1\<lparr>wp_poly := pp_embed P (wp_poly w1) (wp_next w1 - pp_dim P (wp_poly w1))\<rparr> \<or>
      w' = w1 \<and> \<not> pp_dim P (wp_poly w1) < wp_next w1" and pc: "pc = wc_ppl (wc_type c) e"
    using t by (auto simp: wp_translate_cons_def e Let_def split: if_splits)
  have dims: "pp_dim P (wp_poly w1) = wp_next w" "wp_next w \<le> wp_next w1"
    using s(1) ok by (auto simp: extends_def wp_ok_def)
  have "wp_ok P w' \<and> wsem P w' = wsem P w"
  proof (cases "pp_dim P (wp_poly w1) < wp_next w1")
    case True
    then show ?thesis using w' embed_extends [OF ok s(1)] by blast
  next
    case False
    define w2 where "w2 = w1\<lparr>wp_poly := pp_embed P (wp_poly w1) (wp_next w1 - pp_dim P (wp_poly w1))\<rparr>"
    note e2 = embed_extends [OF ok s(1) w2_def]
    have "w' = w1" using w' False by (auto simp: w2_def)
    moreover have "wp_ok P w1" using s(1) ok dims False by (auto simp: wp_ok_def extends_def)
    moreover have "wsem P w1 = wsem P w2" by (simp add: wsem_def w2_def embed_sem)
    ultimately show ?thesis using e2 by simp
  qed
  then show ok': "wp_ok P w'" and "wsem P w' = wsem P w" by blast+
  have ad': "wp_adapter w' = wp_adapter w1" "wp_next w' = wp_next w1" using w' by auto
  show "wp_dom w' = wp_dom w \<union> wc_vars c" using s(3) ad' by (simp add: wp_dom_def wc_vars_def)
  show "pc_dim pc \<le> pp_dim P (wp_poly w')" using s(2) pc ok' ad' by (simp add: wp_ok_def)
  show "agree (wp_adapter w') v x \<Longrightarrow> psat x pc = wc_sat v c"
    using s(4) ad' pc by (simp add: psat_wc_ppl)
qed

theorem add_constraint:
  assumes ok: "wp_ok P w"
  shows "wp_ok P (wp_add_constraint P c w)"
    and "wsem P (wp_add_constraint P c w) = wsem P w \<inter> {v. wc_sat v c}"
    and "wp_dom (wp_add_constraint P c w) = wp_dom w \<union> wc_vars c"
proof -
  obtain pc w1 where t: "wp_translate_cons P c w = (pc, w1)" by (cases "wp_translate_cons P c w")
  note s = translate_cons [OF ok t]
  let ?w = "wp_add_constraint P c w"
  have w: "?w = w1\<lparr>wp_poly := pp_add P (wp_poly w1) pc\<rparr>" by (simp add: wp_add_constraint_def t)
  show ok': "wp_ok P ?w" using s(1,4) by (simp add: w wp_ok_def add_dim)
  show "wsem P ?w = wsem P w \<inter> {v. wc_sat v c}"
  proof (rule set_eqI)
    fix v
    obtain x where x: "agree (wp_adapter w1) v x"
      using agree_ex [of "wp_adapter w1" v] s(1) by (auto simp: wp_ok_def ad_ok_def)
    then show "v \<in> wsem P ?w \<longleftrightarrow> v \<in> wsem P w \<inter> {v. wc_sat v c}"
      using wsem_point [OF ok', of v x] wsem_point [OF s(1) x] s(2,4) s(5) [OF x]
      by (simp add: w add_sem)
  qed
  show "wp_dom ?w = wp_dom w \<union> wc_vars c" using s(3) by (simp add: w wp_dom_def)
qed

end

subsection \<open>Changing the dimensions\<close>

text \<open>The renumbering of \<open>Eliminator\<close>: the rank of a dimension among those that stay.\<close>

lemma rank_bij:
  fixes V :: "nat set"
  assumes "V \<subseteq> {..<n}"
  shows "inj_on (\<lambda>i. card ({..<i} - V)) ({..<n} - V)"
    and "(\<lambda>i. card ({..<i} - V)) ` ({..<n} - V) = {..<n - card V}"
proof -
  have less: "card ({..<i} - V) < card ({..<j} - V)" if "i < j" "i \<notin> V" for i j
    using that by (intro psubset_card_mono) auto
  show inj: "inj_on (\<lambda>i. card ({..<i} - V)) ({..<n} - V)"
  proof (rule inj_onI)
    fix i j
    assume "i \<in> {..<n} - V" "j \<in> {..<n} - V" "card ({..<i} - V) = card ({..<j} - V)"
    then show "i = j" using less [of i j] less [of j i] by (cases i j rule: linorder_cases) auto
  qed
  have n: "card ({..<n} - V) = n - card V"
    using assms by (simp add: card_Diff_subset finite_subset)
  have "(\<lambda>i. card ({..<i} - V)) ` ({..<n} - V) \<subseteq> {..<n - card V}"
  proof
    fix k
    assume "k \<in> (\<lambda>i. card ({..<i} - V)) ` ({..<n} - V)"
    then obtain i where "i < n" "i \<notin> V" "k = card ({..<i} - V)" by auto
    then show "k \<in> {..<n - card V}" using less [of i n] n by simp
  qed
  then show "(\<lambda>i. card ({..<i} - V)) ` ({..<n} - V) = {..<n - card V}"
    using card_image [OF inj] n by (intro card_subset_eq) auto
qed

lemma eliminator_maps:
  assumes "distinct vs"
  shows "pf_maps (pf_eliminator vs n) i = (if i \<in> set vs then None else Some (card ({..<i} - set vs)))"
proof -
  have "{..<i} - set vs = {..<i} - set (filter (\<lambda>v. v < i) vs)" by auto
  moreover have "card (set (filter (\<lambda>v. v < i) vs)) = length (filter (\<lambda>v. v < i) vs)"
    using assms by (metis distinct_card distinct_filter)
  ultimately have "card ({..<i} - set vs) = i - length (filter (\<lambda>v. v < i) vs)"
    using card_Diff_subset [of "set (filter (\<lambda>v. v < i) vs)" "{..<i}"] by force
  then show ?thesis by (simp add: pf_eliminator_def)
qed

lemma eliminator_fits:
  assumes vs: "distinct vs" "set vs \<subseteq> {..<n}"
  shows "pf_fits n (pf_eliminator vs n)"
    and "nat (pf_max_in_codomain (pf_eliminator vs n) + 1) = n - length vs"
proof -
  note r = rank_bij [OF vs(2)]
  have len: "length vs \<le> n" using card_mono [OF _ vs(2)] vs(1) by (simp add: distinct_card)
  have "{j. \<exists>i<n. pf_maps (pf_eliminator vs n) i = Some j} = {..<n - card (set vs)}"
    unfolding r(2) [symmetric] by (auto simp: eliminator_maps [OF vs(1)] split: if_splits)
  also have "\<dots> = {j. int j \<le> pf_max_in_codomain (pf_eliminator vs n)}"
    using len vs(1) by (auto simp: pf_eliminator_def distinct_card)
  finally have ran: "{j. \<exists>i<n. pf_maps (pf_eliminator vs n) i = Some j} =
    {j. int j \<le> pf_max_in_codomain (pf_eliminator vs n)}" .
  show "pf_fits n (pf_eliminator vs n)"
    unfolding pf_fits_def ran
  proof (intro conjI allI impI)
    fix i i'
    assume "i < n" "i' < n" and eq: "pf_maps (pf_eliminator vs n) i \<noteq> None \<and>
      pf_maps (pf_eliminator vs n) i = pf_maps (pf_eliminator vs n) i'"
    then show "i = i'" using inj_onD [OF r(1), of i i']
      by (simp add: eliminator_maps [OF vs(1)] split: if_splits)
  qed (use len in \<open>auto simp: pf_eliminator_def\<close>)
  show "nat (pf_max_in_codomain (pf_eliminator vs n) + 1) = n - length vs"
    using len by (simp add: pf_eliminator_def)
qed

text \<open>The adapter after a renumbering.\<close>

lemma map_adapter_dim_Cons:
  "wp_map_adapter_dim f ((g, d) # a) =
     (case pf_maps f d of None \<Rightarrow> wp_map_adapter_dim f a
      | Some j \<Rightarrow> (g, j) # wp_map_adapter_dim f a)"
  by (simp add: wp_map_adapter_dim_def List.map_filter_simps split: option.split)

lemma map_adapter_dim_keys: "fst ` set (wp_map_adapter_dim f a) \<subseteq> fst ` set a"
  by (induction a)
    (auto simp: wp_map_adapter_dim_def List.map_filter_simps split: option.splits)

lemma map_adapter_dim_sorted: "om_ok a \<Longrightarrow> om_ok (wp_map_adapter_dim f a)"
proof (induction a)
  case (Cons p a)
  obtain g d where p: "p = (g, d)" by (cases p)
  have "\<forall>h \<in> fst ` set a. g < h" using Cons.prems p by (simp add: om_ok_def)
  then have "\<forall>h \<in> fst ` set (wp_map_adapter_dim f a). g < h"
    using map_adapter_dim_keys [of f a] by blast
  then show ?case
    using Cons p by (auto simp: om_ok_def map_adapter_dim_Cons split: option.split)
qed (simp add: wp_map_adapter_dim_def List.map_filter_simps)

lemma map_adapter_dim_look:
  "distinct (map fst a) \<Longrightarrow>
   map_of (wp_map_adapter_dim f a) g = Option.bind (map_of a g) (pf_maps f)"
proof (induction a)
  case (Cons p a)
  obtain h d where p: "p = (h, d)" by (cases p)
  have "map_of a h = None" using Cons.prems p by (simp add: map_of_eq_None_iff)
  then show ?case
    using Cons p by (auto simp: wp_map_adapter_dim_def List.map_filter_simps split: option.splits)
qed (simp add: wp_map_adapter_dim_def List.map_filter_simps)

lemma fits_inj:
  "pf_fits n f \<Longrightarrow> pf_maps f i = Some j \<Longrightarrow> pf_maps f i' = Some j \<Longrightarrow> i < n \<Longrightarrow> i' < n \<Longrightarrow> i = i'"
  by (simp add: pf_fits_def)

lemma map_adapter_dim_ok:
  assumes om: "om_ok a" and inj: "inj_on (map_of a) (dom (map_of a))"
    and ran: "ran (map_of a) \<subseteq> {..<n}" and fits: "pf_fits n f"
    and cover: "{i. i < n \<and> pf_maps f i \<noteq> None} \<subseteq> ran (map_of a)"
  shows "ad_ok (wp_map_adapter_dim f a) (nat (pf_max_in_codomain f + 1))"
proof -
  let ?a = "wp_map_adapter_dim f a"
  have look: "map_of ?a g = Option.bind (map_of a g) (pf_maps f)" for g
    by (rule map_adapter_dim_look [OF om_ok_distinct [OF om]])
  have less: "d < n" if "map_of a g = Some d" for g d using ran that by (auto intro: ranI)
  have "inj_on (map_of ?a) (dom (map_of ?a))"
  proof (rule inj_onI)
    fix g h
    assume "g \<in> dom (map_of ?a)" "map_of ?a g = map_of ?a h"
    then obtain d e j where "map_of a g = Some d" "pf_maps f d = Some j"
      "map_of a h = Some e" "pf_maps f e = Some j" by (auto simp: look bindE)
    then show "g = h" using fits_inj [OF fits, of d j e] less inj
      by (metis domI inj_onD)
  qed
  moreover have "ran (map_of ?a) = {j. \<exists>i<n. pf_maps f i = Some j}"
  proof
    show "ran (map_of ?a) \<subseteq> {j. \<exists>i<n. pf_maps f i = Some j}"
      using less by (auto simp: ran_def look bindE)
    show "{j. \<exists>i<n. pf_maps f i = Some j} \<subseteq> ran (map_of ?a)"
    proof clarify
      fix i j
      assume i: "i < n" "pf_maps f i = Some j"
      then have "i \<in> ran (map_of a)" using cover by auto
      then obtain g where "map_of a g = Some i" by (auto simp: ran_def)
      then have "map_of ?a g = Some j" using i by (simp add: look)
      then show "j \<in> ran (map_of ?a)" by (rule ranI)
    qed
  qed
  then have "ran (map_of ?a) = {..<nat (pf_max_in_codomain f + 1)}"
    using fits by (auto simp: pf_fits_def)
  ultimately show ?thesis using map_adapter_dim_sorted [OF om] by (simp add: ad_ok_def)
qed

context ppl_laws
begin

text \<open>
  Applying a renumbering: it does not abort, gives a well-formed polyhedron, loses no
  valuation, and is exact when no dimension is projected out.
\<close>

lemma map_with_dim:
  assumes om: "om_ok (wp_adapter w)" and inj: "inj_on (map_of (wp_adapter w)) (dom (map_of (wp_adapter w)))"
    and ran: "ran (map_of (wp_adapter w)) \<subseteq> {..<n}" and n: "n = pp_dim P (wp_poly w)"
    and fits: "pf_fits n f"
    and cover: "{i. i < n \<and> pf_maps f i \<noteq> None} \<subseteq> ran (map_of (wp_adapter w))"
  obtains w' where "wp_map_with_dim P f w = Some w'" and "wp_ok P w'" and "wsem P w \<subseteq> wsem P w'"
    and "\<And>g. map_of (wp_adapter w') g = Option.bind (map_of (wp_adapter w) g) (pf_maps f)"
    and "(\<And>i. i < n \<Longrightarrow> pf_maps f i \<noteq> None) \<Longrightarrow> wsem P w' = wsem P w"
proof -
  let ?w = "\<lparr>wp_adapter = wp_map_adapter_dim f (wp_adapter w),
    wp_next = nat (pf_max_in_codomain f + 1), wp_poly = pp_map P (wp_poly w) f\<rparr>"
  have dim: "pp_dim P (pp_map P (wp_poly w) f) = nat (pf_max_in_codomain f + 1)"
    using map_dim fits n by simp
  have look: "map_of (wp_adapter ?w) g = Option.bind (map_of (wp_adapter w) g) (pf_maps f)" for g
    by (simp add: map_adapter_dim_look om_ok_distinct om)
  have less: "d < n" if "map_of (wp_adapter w) g = Some d" for g d using ran that by (auto intro: ranI)
  have sub: "wsem P w \<subseteq> wsem P ?w"
  proof
    fix v
    assume "v \<in> wsem P w"
    then obtain x where x: "x \<in> psem P (wp_poly w)" "agree (wp_adapter w) v x" by (auto simp: wsem_def)
    define y where "y j = x (SOME i. i < n \<and> pf_maps f i = Some j)" for j
    have y: "y j = x i" if "i < n" "pf_maps f i = Some j" for i j
    proof -
      have "(SOME i. i < n \<and> pf_maps f i = Some j) = i"
        by (rule some_equality) (use that fits_inj [OF fits] in blast)+
      then show ?thesis by (simp add: y_def)
    qed
    then have "y \<in> pf_image n f (psem P (wp_poly w))" using x(1) by (auto simp: pf_image_def)
    then have "y \<in> psem P (pp_map P (wp_poly w) f)" using map_sem fits n by blast
    moreover have "agree (wp_adapter ?w) v y"
      unfolding agree_def look bindE using x(2) y less by (fastforce simp: agree_def)
    ultimately show "v \<in> wsem P ?w" by (auto simp: wsem_def)
  qed
  show thesis
  proof
    show "wp_map_with_dim P f w = Some ?w" by (simp add: wp_map_with_dim_def dim)
    show "wp_ok P ?w" using map_adapter_dim_ok [OF om inj ran fits cover] by (simp add: wp_ok_def dim)
    show "wsem P w \<subseteq> wsem P ?w" by (rule sub)
    show "map_of (wp_adapter ?w) g = Option.bind (map_of (wp_adapter w) g) (pf_maps f)" for g
      by (rule look)
    assume total: "\<And>i. i < n \<Longrightarrow> pf_maps f i \<noteq> None"
    have "wsem P ?w \<subseteq> wsem P w"
    proof
      fix v
      assume "v \<in> wsem P ?w"
      then obtain y where "y \<in> pf_image n f (psem P (wp_poly w))" and a: "agree (wp_adapter ?w) v y"
        using map_sem_rename [of "wp_poly w" f] fits n total by (auto simp: wsem_def)
      then obtain x where x: "x \<in> psem P (wp_poly w)"
        "\<And>i j. i < n \<Longrightarrow> pf_maps f i = Some j \<Longrightarrow> y j = x i" by (auto simp: pf_image_def)
      have "agree (wp_adapter w) v x"
        unfolding agree_def
      proof clarify
        fix g d
        assume g: "map_of (wp_adapter w) g = Some d"
        then obtain j where "pf_maps f d = Some j" using total less by blast
        then show "v g = x d" using g a x(2) [of d j] less by (simp only: agree_def look) auto
      qed
      then show "v \<in> wsem P w" using x(1) by (auto simp: wsem_def)
    qed
    then show "wsem P ?w = wsem P w" using sub by blast
  qed
qed

lemma wp_ok_map_with_dim:
  assumes ok: "wp_ok P w" and n: "n = pp_dim P (wp_poly w)" and fits: "pf_fits n f"
  obtains w' where "wp_map_with_dim P f w = Some w'" and "wp_ok P w'" and "wsem P w \<subseteq> wsem P w'"
    and "\<And>g. map_of (wp_adapter w') g = Option.bind (map_of (wp_adapter w) g) (pf_maps f)"
    and "(\<And>i. i < n \<Longrightarrow> pf_maps f i \<noteq> None) \<Longrightarrow> wsem P w' = wsem P w"
proof -
  have ad: "om_ok (wp_adapter w)" "inj_on (map_of (wp_adapter w)) (dom (map_of (wp_adapter w)))"
    "ran (map_of (wp_adapter w)) \<subseteq> {..<n}" "{i. i < n \<and> pf_maps f i \<noteq> None} \<subseteq> ran (map_of (wp_adapter w))"
    using ok n by (auto simp: wp_ok_def ad_ok_def)
  show thesis by (rule map_with_dim [OF ad(1-3) n fits ad(4)]) (fact that)
qed

text \<open>\<open>unconstrain\<close> forgets one variable.\<close>

lemma unconstrain:
  assumes ok: "wp_ok P w"
  obtains w' where "wp_unconstrain P g w = Some w'" and "wp_ok P w'"
    and "wp_dom w' = wp_dom w - {g}" and "\<And>v a. v \<in> wsem P w \<Longrightarrow> v(g := a) \<in> wsem P w'"
proof (cases "map_of (wp_adapter w) g")
  case None
  have "v(g := a) \<in> wsem P w" if "v \<in> wsem P w" for v a
    using that None by (simp add: wsem_upd wp_dom_def domIff)
  moreover have "wp_unconstrain P g w = Some w"
    using None ok ad_ok_length by (auto simp: wp_unconstrain_def wp_ok_def wp_translate_const_def bindE)
  ultimately show thesis using that ok None by (auto simp: wp_dom_def)
next
  case (Some d)
  let ?n = "pp_dim P (wp_poly w)"
  have ad: "ad_ok (wp_adapter w) ?n" using ok by (simp add: wp_ok_def)
  have d: "d < ?n" using ad_ok_dim_less [OF ad Some] .
  have fits: "pf_fits ?n (pf_eliminator [d] ?n)" using d by (intro eliminator_fits) auto
  have maps: "pf_maps (pf_eliminator [d] ?n) i = None \<longleftrightarrow> i = d" for i
    by (simp add: eliminator_maps)
  obtain w' where w': "wp_map_with_dim P (pf_eliminator [d] ?n) w = Some w'" "wp_ok P w'"
    "wsem P w \<subseteq> wsem P w'"
    and look: "\<And>h. map_of (wp_adapter w') h = Option.bind (map_of (wp_adapter w) h)
      (pf_maps (pf_eliminator [d] ?n))"
    using wp_ok_map_with_dim [OF ok refl fits] by metis
  have inj: "inj_on (map_of (wp_adapter w)) (dom (map_of (wp_adapter w)))"
    using ad by (simp add: ad_ok_def)
  have "h = g" if "map_of (wp_adapter w) h = Some d" for h
    using that Some inj by (metis domI inj_onD)
  then have only: "map_of (wp_adapter w) h = Some d \<longleftrightarrow> h = g" for h using Some by blast
  have dom: "wp_dom w' = wp_dom w - {g}"
  proof (rule set_eqI)
    fix h
    have "h \<in> wp_dom w' \<longleftrightarrow> map_of (wp_adapter w') h \<noteq> None" by (simp add: wp_dom_def domIff)
    also have "\<dots> \<longleftrightarrow> (\<exists>e. map_of (wp_adapter w) h = Some e \<and> e \<noteq> d)"
      using maps by (cases "map_of (wp_adapter w) h") (auto simp: look)
    also have "\<dots> \<longleftrightarrow> h \<in> wp_dom w - {g}" using only [of h] by (auto simp: wp_dom_def domIff)
    finally show "h \<in> wp_dom w' \<longleftrightarrow> h \<in> wp_dom w - {g}" .
  qed
  moreover have "wp_unconstrain P g w = Some w'"
    using Some w'(1) ad_ok_length [OF ad]
    by (simp add: wp_unconstrain_def wp_translate_const_def wp_eliminate_def)
  moreover have "v(g := a) \<in> wsem P w'" if "v \<in> wsem P w" for v a
    using that w'(3) by (auto simp: wsem_upd dom)
  ultimately show thesis using that w'(2) by blast
qed

end

text \<open>\<open>map_vars\<close>: splitting the adapter into renamed variables and victims.\<close>

lemma split_vars:
  assumes om: "om_ok a" and inj: "inj_on f {g \<in> dom (map_of a). f g \<noteq> None}"
    and s: "wp_split_vars f a = (na, vs)"
  shows "om_ok na"
    and "map_of na j = Some d \<longleftrightarrow> (\<exists>g. map_of a g = Some d \<and> f g = Some j)"
    and "vs = map snd (filter (\<lambda>(g, d). f g = None) a)"
proof -
  have "om_ok na \<and> (\<forall>j d. map_of na j = Some d \<longleftrightarrow>
      (\<exists>g. (g, d) \<in> set xs \<and> f g = Some j) \<or> map_of na0 j = Some d \<and> (\<forall>g \<in> fst ` set xs. f g \<noteq> Some j)) \<and>
      vs = vs0 @ map snd (filter (\<lambda>(g, d). f g = None) xs)"
    if "fold (\<lambda>(g, d) (na, vs). case f g of Some j \<Rightarrow> (om_set j d na, vs) | None \<Rightarrow> (na, vs @ [d]))
        xs (na0, vs0) = (na, vs)"
      and "om_ok na0" and "inj_on f {g \<in> fst ` set xs. f g \<noteq> None}" and "distinct (map fst xs)"
    for xs na0 vs0
    using that
  proof (induction xs arbitrary: na0 vs0)
    case (Cons p xs)
    obtain g d where p: "p = (g, d)" by (cases p)
    have inj: "inj_on f {h \<in> fst ` set xs. f h \<noteq> None}"
      using Cons.prems(3) by (rule inj_on_subset) auto
    show ?case
    proof (cases "f g")
      case None
      then show ?thesis using Cons.IH [OF _ Cons.prems(2) inj, of "vs0 @ [d]"] Cons.prems(1,4) p by auto
    next
      case (Some j)
      have "f h \<noteq> Some j" if "h \<in> fst ` set xs" for h
      proof
        assume "f h = Some j"
        then have "h = g" using inj_onD [OF Cons.prems(3), of h g] that Some p by auto
        then show False using Cons.prems(4) that p by auto
      qed
      moreover have "fold (\<lambda>(g, d) (na, vs). case f g of Some j \<Rightarrow> (om_set j d na, vs) | None \<Rightarrow> (na, vs @ [d]))
        xs (om_set j d na0, vs0) = (na, vs)" using Cons.prems(1) Some p by simp
      ultimately show ?thesis
        using Cons.IH [OF _ om.upd_ok [OF Cons.prems(2)] inj, of j d vs0] Cons.prems(2,4) Some p
        by (auto simp: map_of_om_set split: if_splits)
    qed
  qed simp
  from this [of a "[]" "[]"] show "om_ok na"
    "map_of na j = Some d \<longleftrightarrow> (\<exists>g. map_of a g = Some d \<and> f g = Some j)"
    "vs = map snd (filter (\<lambda>(g, d). f g = None) a)"
    using s om_ok_distinct [OF om] om inj
    by (simp_all add: wp_split_vars_def dom_map_of_conv_image_fst)
qed

context ppl_laws
begin

text \<open>Renaming the variables by an injective partial function.\<close>

lemma map_vars:
  assumes ok: "wp_ok P w" and inj: "inj_on f {g \<in> wp_dom w. f g \<noteq> None}"
  obtains w' where "wp_map_vars P f w = Some w'" and "wp_ok P w'"
    and "\<And>j. j \<in> wp_dom w' \<longleftrightarrow> (\<exists>g \<in> wp_dom w. f g = Some j)"
    and "\<And>v v'. v \<in> wsem P w \<Longrightarrow> (\<And>g j. g \<in> wp_dom w \<Longrightarrow> f g = Some j \<Longrightarrow> v' j = v g) \<Longrightarrow>
      v' \<in> wsem P w'"
    and "\<And>v v'. (\<And>g. g \<in> wp_dom w \<Longrightarrow> f g \<noteq> None) \<Longrightarrow> v' \<in> wsem P w' \<Longrightarrow>
      (\<And>g j. g \<in> wp_dom w \<Longrightarrow> f g = Some j \<Longrightarrow> v' j = v g) \<Longrightarrow> v \<in> wsem P w"
proof -
  let ?a = "wp_adapter w" and ?n = "pp_dim P (wp_poly w)"
  obtain na vs where s: "wp_split_vars f ?a = (na, vs)" by (cases "wp_split_vars f ?a")
  let ?w = "w\<lparr>wp_adapter := na\<rparr>" and ?f = "pf_eliminator vs ?n"
  have ad: "ad_ok ?a ?n" using ok by (simp add: wp_ok_def)
  have om: "om_ok ?a" and ainj: "inj_on (map_of ?a) (dom (map_of ?a))" and aran: "ran (map_of ?a) = {..<?n}"
    using ad by (simp_all add: ad_ok_def)
  note sp = split_vars [OF om inj [unfolded wp_dom_def] s]
  have uniq: "g = h" if "map_of ?a g = Some d" "map_of ?a h = Some d" for g h d
    using that ainj by (metis domI inj_onD)
  have set_vs: "set vs = {d. \<exists>g. map_of ?a g = Some d \<and> f g = None}"
    using om_ok_distinct [OF om] by (force simp: sp(3) map_of_eq_Some_iff)
  have "distinct (map snd ?a)"
    using uniq om_ok_distinct [OF om]
    by (auto simp: distinct_map inj_on_def)
  then have dvs: "distinct vs"
    by (simp add: sp(3) distinct_map_filter)
  have svs: "set vs \<subseteq> {..<?n}" using ad_ok_dim_less [OF ad] by (auto simp: set_vs)
  note fits = eliminator_fits(1) [OF dvs svs]
  have maps: "pf_maps ?f i = None \<longleftrightarrow> i \<in> set vs" for i by (simp add: eliminator_maps [OF dvs])
  have iff: "d \<in> set vs \<longleftrightarrow> f g = None" if "map_of ?a g = Some d" for g d
    using that uniq by (auto simp: set_vs)
  have ninj: "inj_on (map_of na) (dom (map_of na))"
    by (rule inj_onI) (use uniq in \<open>fastforce simp: sp(2)\<close>)
  have nran: "ran (map_of na) \<subseteq> {..<?n}"
    using ad_ok_dim_less [OF ad] by (auto simp: ran_def sp(2))
  have cover: "{i. i < ?n \<and> pf_maps ?f i \<noteq> None} \<subseteq> ran (map_of na)"
  proof clarify
    fix i j
    assume i: "i < ?n" "pf_maps ?f i = Some j"
    then obtain g where g: "map_of ?a g = Some i" using aran by (auto simp: ran_def set_eq_iff)
    then obtain k where "f g = Some k" using i maps [of i] iff [OF g] by auto
    then show "i \<in> ran (map_of na)" using g sp(2) by (auto intro!: ranI [of _ k])
  qed
  obtain w' where w': "wp_map_with_dim P ?f ?w = Some w'" "wp_ok P w'" "wsem P ?w \<subseteq> wsem P w'"
    and look: "\<And>h. map_of (wp_adapter w') h = Option.bind (map_of na h) (pf_maps ?f)"
    and exact: "(\<And>i. i < ?n \<Longrightarrow> pf_maps ?f i \<noteq> None) \<Longrightarrow> wsem P w' = wsem P ?w"
    by (rule map_with_dim [of ?w ?n ?f]) (use sp(1) ninj nran fits cover in simp_all)
  have wsem: "v' \<in> wsem P ?w \<longleftrightarrow>
    (\<exists>x \<in> psem P (wp_poly w). \<forall>g d j. map_of ?a g = Some d \<and> f g = Some j \<longrightarrow> v' j = x d)" for v'
    by (auto simp: wsem_def agree_def sp(2))
  show thesis
  proof
    show "wp_map_vars P f w = Some w'" using s w'(1) by (simp add: wp_map_vars_def)
    show "wp_ok P w'" by (rule w'(2))
    show "j \<in> wp_dom w' \<longleftrightarrow> (\<exists>g \<in> wp_dom w. f g = Some j)" for j
    proof
      assume "j \<in> wp_dom w'"
      then obtain d where "map_of na j = Some d" by (auto simp: wp_dom_def look bindE dom_def)
      then show "\<exists>g \<in> wp_dom w. f g = Some j" by (auto simp: sp(2) wp_dom_def)
    next
      assume "\<exists>g \<in> wp_dom w. f g = Some j"
      then obtain g d where g: "map_of ?a g = Some d" "f g = Some j" by (auto simp: wp_dom_def)
      then have "map_of na j = Some d" by (auto simp: sp(2))
      moreover obtain k where "pf_maps ?f d = Some k" using maps [of d] iff [OF g(1)] g(2) by auto
      ultimately show "j \<in> wp_dom w'" by (auto simp: wp_dom_def look)
    qed
    show "v' \<in> wsem P w'" if v: "v \<in> wsem P w"
      and v': "\<And>g j. g \<in> wp_dom w \<Longrightarrow> f g = Some j \<Longrightarrow> v' j = v g" for v v'
    proof -
      obtain x where "x \<in> psem P (wp_poly w)" "agree ?a v x" using v by (auto simp: wsem_def)
      then have "v' \<in> wsem P ?w" using v' by (fastforce simp: wsem agree_def wp_dom_def)
      then show ?thesis using w'(3) by blast
    qed
    show "v \<in> wsem P w" if total: "\<And>g. g \<in> wp_dom w \<Longrightarrow> f g \<noteq> None" and v: "v' \<in> wsem P w'"
      and v': "\<And>g j. g \<in> wp_dom w \<Longrightarrow> f g = Some j \<Longrightarrow> v' j = v g" for v v'
    proof -
      have "set vs = {}" using total by (auto simp: set_vs wp_dom_def)
      then have "v' \<in> wsem P ?w" using exact v maps by auto
      then obtain x where x: "x \<in> psem P (wp_poly w)"
        "\<forall>g d j. map_of ?a g = Some d \<and> f g = Some j \<longrightarrow> v' j = x d" by (auto simp: wsem)
      have "agree ?a v x"
        unfolding agree_def
      proof clarify
        fix g d
        assume g: "map_of ?a g = Some d"
        then obtain j where "f g = Some j" using total by (auto simp: wp_dom_def)
        moreover have "g \<in> wp_dom w" using g by (auto simp: wp_dom_def)
        ultimately show "v g = x d" using g x(2) v' [of g j] by auto
      qed
      then show ?thesis using x(1) by (auto simp: wsem_def)
    qed
  qed
qed

end

end
