(* ===== verification/W_Poly_Ops.thy ===== *)
theory W_Poly_Ops
  imports W_Poly_Sem
begin

text \<open>
  The binary operations of \<open>WPoly\<close>: \<open>combine\<close> gives two polyhedra a common
  numbering of a common set of variables, and equality, intersection, hull and widening are
  operations of the library on the result. Also the queries, which translate their argument
  and ask the library.
\<close>

subsection \<open>Giving two polyhedra the same dimensions\<close>

lemma fold_max_bound:
  "(\<forall>x \<in> set xs. int (f x) \<le> fold (\<lambda>x m. if int (f x) > m then int (f x) else m) xs m0) \<and>
   m0 \<le> fold (\<lambda>x m. if int (f x) > m then int (f x) else m) xs m0 \<and>
   (fold (\<lambda>x m. if int (f x) > m then int (f x) else m) xs m0 = m0 \<or>
    (\<exists>x \<in> set xs. fold (\<lambda>x m. if int (f x) > m then int (f x) else m) xs m0 = int (f x)))"
proof (induction xs arbitrary: m0)
  case (Cons x xs)
  show ?case using Cons.IH [of "if int (f x) > m0 then int (f x) else m0"] by auto
qed simp

lemma maphash_max:
  assumes "snd ` set r = {..<n}" and "0 < n"
  shows "pf_max_in_codomain (pf_maphash r) = int n - 1"
proof -
  define m where "m = fold (\<lambda>x m. if int (snd x) > m then int (snd x) else m) r 0"
  note b = fold_max_bound [of r snd 0, folded m_def]
  have "n - 1 \<in> snd ` set r" using assms by auto
  then have "int (n - 1) \<le> m" using b by auto
  moreover have "m \<le> int (n - 1)"
    using b assms by (auto simp: set_eq_iff) (metis Suc_pred assms(1) image_eqI lessThan_iff less_Suc_eq_le of_nat_le_iff snd_conv)
  ultimately have "m = int n - 1" using assms(2) by linarith
  then show ?thesis by (simp add: pf_maphash_def m_def case_prod_unfold)
qed

lemma maphash_fits:
  assumes om: "om_ok r" and dom: "dom (map_of r) = {..<n}" and ran: "ran (map_of r) = {..<n}"
    and inj: "inj_on (map_of r) {..<n}" and n: "0 < n"
  shows "pf_fits n (pf_maphash r)" and "\<And>i. i < n \<Longrightarrow> pf_maps (pf_maphash r) i \<noteq> None"
proof -
  have "snd ` set r = ran (map_of r)"
    using om_ok_distinct [OF om] by (force simp: ran_def map_of_eq_Some_iff)
  then have max: "pf_max_in_codomain (pf_maphash r) = int n - 1" using ran n by (simp add: maphash_max)
  have "{j. \<exists>i < n. map_of r i = Some j} = {..<n}"
    unfolding ran [symmetric] using dom by (auto simp: ran_def dom_def set_eq_iff)
  then show "pf_fits n (pf_maphash r)"
    unfolding pf_fits_def max
    using inj n by (auto simp: pf_maphash_def inj_on_def)
  show "\<And>i. i < n \<Longrightarrow> pf_maps (pf_maphash r) i \<noteq> None"
    using dom by (auto simp: pf_maphash_def dom_def set_eq_iff)
qed

lemma align_fold:
  assumes "\<And>g. g \<in> fst ` set xs \<Longrightarrow> map_of a g \<noteq> None"
  shows "fold (\<lambda>(g, d) (m, a).
      case map_of a g of Some i \<Rightarrow> (om_set i d m, a) | None \<Rightarrow> (om_set 0 d m, om_set g 0 a)) xs (m, a) =
    (fold (\<lambda>(i, d) m. om_set i d m) (map (\<lambda>(g, d). (the (map_of a g), d)) xs) m, a)"
  using assms
proof (induction xs arbitrary: m)
  case (Cons x xs)
  obtain g d where x: "x = (g, d)" by (cases x)
  obtain i where "map_of a g = Some i" using Cons.prems [of g] x by auto
  then show ?case using Cons x by simp
qed simp

lemma align_map:
  assumes w: "ad_ok aw n" and s: "ad_ok as n" and dom: "dom (map_of aw) = dom (map_of as)"
    and m: "m = fold (\<lambda>(i, d) m. om_set i d m) (map (\<lambda>(g, d). (the (map_of as g), d)) aw) []"
  shows "om_ok m" and "map_of m i = Some d \<longleftrightarrow> (\<exists>g. map_of as g = Some i \<and> map_of aw g = Some d)"
proof -
  let ?ys = "map (\<lambda>(g, d). (the (map_of as g), d)) aw"
  have dist: "distinct (map fst aw)" using w by (simp add: ad_ok_def om_ok_distinct)
  have sinj: "inj_on (map_of as) (dom (map_of as))" using s by (simp add: ad_ok_def)
  have keys: "fst ` set aw = dom (map_of as)" using dom by (simp add: dom_map_of_conv_image_fst)
  have "inj_on (\<lambda>g. the (map_of as g)) (fst ` set aw)"
    unfolding keys
    using sinj by (auto simp: inj_on_def dom_def)
  then have "distinct (map (\<lambda>g. the (map_of as g)) (map fst aw))"
    using dist by (simp only: distinct_map list.set_map)
  then have dy: "distinct (map fst ?ys)" by (simp add: comp_def case_prod_unfold)
  show "om_ok m" unfolding m by (rule om.fold_upd_ok) simp
  have "map_of m = map_of ?ys" unfolding m using om.fold_upd_look [OF om.emp_ok dy] by simp
  then have "map_of m i = Some d \<longleftrightarrow> (i, d) \<in> set ?ys"
    by (simp add: map_of_eq_Some_iff [OF dy])
  also have "\<dots> \<longleftrightarrow> (\<exists>g. map_of aw g = Some d \<and> i = the (map_of as g))"
    using map_of_eq_Some_iff [OF dist] by force
  also have "\<dots> \<longleftrightarrow> (\<exists>g. map_of as g = Some i \<and> map_of aw g = Some d)"
  proof -
    have "map_of as g = Some (the (map_of as g))" if "map_of aw g = Some d" for g
      using that dom by (metis domIff option.collapse option.distinct(1))
    then show ?thesis by (metis option.sel)
  qed
  finally show "map_of m i = Some d \<longleftrightarrow> (\<exists>g. map_of as g = Some i \<and> map_of aw g = Some d)" .
qed

lemma ad_ok_same_dom: "ad_ok a n \<Longrightarrow> ad_ok b m \<Longrightarrow> dom (map_of a) = dom (map_of b) \<Longrightarrow> n = m"
  by (metis ad_ok_def ad_ok_length om.card_dom)

context ppl_laws
begin

lemma align:
  assumes w: "wp_ok P w" and src: "wp_ok P src" and dom: "wp_dom w = wp_dom src"
    and ne: "wp_dom w \<noteq> {}"
  obtains src' where "wp_align P w src = Some src'" and "wp_ok P src'"
    and "map_of (wp_adapter src') = map_of (wp_adapter w)" and "wsem P src' = wsem P src"
proof -
  let ?n = "pp_dim P (wp_poly src)" and ?aw = "wp_adapter w" and ?as = "wp_adapter src"
  define m where "m = fold (\<lambda>(i, d) m. om_set i d m) (map (\<lambda>(g, d). (the (map_of ?as g), d)) ?aw) []"
  have s: "ad_ok ?as ?n" and w': "ad_ok ?aw (pp_dim P (wp_poly w))" using src w by (simp_all add: wp_ok_def)
  have d: "dom (map_of ?aw) = dom (map_of ?as)" using dom by (simp add: wp_dom_def)
  have wn: "ad_ok ?aw ?n" using ad_ok_same_dom [OF w' s d] w' by simp
  note m = align_map [OF wn s d m_def]
  have "map_of ?as g \<noteq> None" if "g \<in> fst ` set ?aw" for g
    using that d by (metis dom_map_of_conv_image_fst domIff)
  from align_fold [of ?aw ?as "[]", OF this]
  have al: "wp_align P w src = wp_map_with_dim P (pf_maphash m) src"
    by (simp add: wp_align_def m_def)
  have sran: "ran (map_of ?as) = {..<?n}" and wran: "ran (map_of ?aw) = {..<?n}"
    and sinj: "inj_on (map_of ?as) (dom (map_of ?as))" and winj: "inj_on (map_of ?aw) (dom (map_of ?aw))"
    using s wn by (simp_all add: ad_ok_def)
  have ex: "\<exists>e. map_of ?aw g = Some e" if "map_of ?as g = Some i" for g i
    using that d by blast
  have ex': "\<exists>e. map_of ?as g = Some e" if "map_of ?aw g = Some i" for g i
    using that d by blast
  have "dom (map_of m) = ran (map_of ?as)" using ex by (fastforce simp: dom_def ran_def m(2))
  then have dm: "dom (map_of m) = {..<?n}" using sran by simp
  have "ran (map_of m) = ran (map_of ?aw)" using ex' by (fastforce simp: ran_def m(2))
  then have rm: "ran (map_of m) = {..<?n}" using wran by simp
  have im: "inj_on (map_of m) {..<?n}"
  proof (rule inj_onI)
    fix i j
    assume "i \<in> {..<?n}" "map_of m i = map_of m j"
    then obtain e where "map_of m i = Some e" "map_of m j = Some e" using dm by (metis domD)
    then obtain g h where "map_of ?as g = Some i" "map_of ?aw g = Some e"
      "map_of ?as h = Some j" "map_of ?aw h = Some e" by (auto simp: m(2))
    then show "i = j" using winj by (metis domI inj_onD option.inject)
  qed
  obtain g where "g \<in> wp_dom src" using ne dom by auto
  then obtain i where "map_of ?as g = Some i" by (auto simp: wp_dom_def)
  then have "i \<in> ran (map_of ?as)" by (rule ranI)
  then have "?n > 0" using sran by auto
  note mh = maphash_fits [OF m(1) dm rm im this]
  obtain src' where r: "wp_map_with_dim P (pf_maphash m) src = Some src'" "wp_ok P src'"
    and look: "\<And>g. map_of (wp_adapter src') g = Option.bind (map_of ?as g) (pf_maps (pf_maphash m))"
    and "wsem P src' = wsem P src"
    using wp_ok_map_with_dim [OF src refl mh(1)] mh(2) by metis
  moreover have "map_of (wp_adapter src') g = map_of ?aw g" for g
  proof (cases "map_of ?as g")
    case None
    then show ?thesis using look [of g] ex' [of g] by (cases "map_of ?aw g") auto
  next
    case (Some i)
    then obtain e where e: "map_of ?aw g = Some e" using ex by blast
    then have "map_of m i = Some e" using Some m(2) by blast
    then show ?thesis using look [of g] Some e by (simp add: pf_maphash_def)
  qed
  ultimately show thesis using that al by (metis ext)
qed

text \<open>With no variable at all, the maximum over no dimension is taken to be dimension 0.\<close>

lemma align_empty:
  assumes "wp_ok P w" and "wp_ok P src" and "wp_dom w = {}" and "wp_dom src = {}"
  shows "wp_align P w src = None"
proof -
  have nil: "wp_adapter w = []" "wp_adapter src = []"
    using assms(3,4) by (simp_all add: wp_dom_def dom_map_of_conv_image_fst)
  then have "pp_dim P (wp_poly src) = 0" using assms(2) ad_ok_length [of "[]"] by (simp add: wp_ok_def)
  then show ?thesis
    using map_zero [of "wp_poly src"] nil
    by (simp add: wp_align_def wp_map_with_dim_def pf_maphash_def)
qed

text \<open>Dropping the variables that fail a test.\<close>

lemma eliminate_vars:
  assumes ok: "wp_ok P w" and n: "n = pp_dim P (wp_poly w)"
    and vs: "vs = map snd (filter (\<lambda>(g, d). \<not> K g) (wp_adapter w))"
  obtains w' where "wp_map_with_dim P (pf_eliminator vs n) w = Some w'"
    and "wp_ok P w'" and "wp_dom w' = {g \<in> wp_dom w. K g}" and "wsem P w \<subseteq> wsem P w'"
proof -
  let ?a = "wp_adapter w"
  have ad: "ad_ok ?a n" using ok n by (simp add: wp_ok_def)
  have dist: "distinct (map fst ?a)" and inj: "inj_on (map_of ?a) (dom (map_of ?a))"
    using ad by (simp_all add: ad_ok_def om_ok_distinct)
  have uniq: "g = h" if "map_of ?a g = Some d" "map_of ?a h = Some d" for g h d
    using that inj by (metis domI inj_onD)
  have set_vs: "d \<in> set vs \<longleftrightarrow> (\<exists>g. map_of ?a g = Some d \<and> \<not> K g)" for d
    using map_of_eq_Some_iff [OF dist] by (force simp: vs)
  have "distinct (map snd ?a)" using uniq dist by (auto simp: distinct_map inj_on_def)
  then have dvs: "distinct vs" by (simp add: vs distinct_map_filter)
  have svs: "set vs \<subseteq> {..<n}" using ad_ok_dim_less [OF ad] set_vs by auto
  obtain w' where w': "wp_map_with_dim P (pf_eliminator vs n) w = Some w'" "wp_ok P w'"
    "wsem P w \<subseteq> wsem P w'"
    and look: "\<And>h. map_of (wp_adapter w') h = Option.bind (map_of ?a h) (pf_maps (pf_eliminator vs n))"
    using wp_ok_map_with_dim [OF ok n eliminator_fits(1) [OF dvs svs]] by metis
  have "g \<in> wp_dom w' \<longleftrightarrow> g \<in> {g \<in> wp_dom w. K g}" for g
    using set_vs uniq by (cases "map_of ?a g") (auto simp: wp_dom_def domIff look eliminator_maps [OF dvs])
  then show thesis using that w' by blast
qed

lemma missing_dims:
  assumes ok: "wp_ok P w"
  obtains w' where "wp_map_with_dim P (pf_eliminator (wp_missing_dims w other) (pp_dim P (wp_poly w))) w = Some w'"
    and "wp_ok P w'" and "wp_dom w' = wp_dom w \<inter> wp_dom other" and "wsem P w \<subseteq> wsem P w'"
proof -
  have "wp_missing_dims w other = map snd (filter (\<lambda>(g, d). \<not> g \<in> wp_dom other) (wp_adapter w))"
    by (simp add: wp_missing_dims_def wp_dom_def domIff)
  from eliminate_vars [OF ok refl this] show thesis using that by (metis Int_def)
qed

end

lemma adopt:
  assumes "ad_ok (wp_adapter w) (wp_next w)"
  shows "extends w (wp_adopt from w)" and "wp_dom (wp_adopt from w) = wp_dom w \<union> wp_dom from"
proof -
  let ?f = "\<lambda>(g, d) w. if map_of (wp_adapter w) g = None
       then w\<lparr>wp_adapter := om_set g (wp_next w) (wp_adapter w), wp_next := wp_next w + 1\<rparr> else w"
  have "extends w (fold ?f xs w) \<and> wp_dom (fold ?f xs w) = wp_dom w \<union> fst ` set xs"
    if "ad_ok (wp_adapter w) (wp_next w)" for xs :: "(guid \<times> dim) list"
    using that
  proof (induction xs arbitrary: w)
    case (Cons x xs)
    obtain g d where x: "x = (g, d)" by (cases x)
    define w1 where "w1 = snd (wp_translate g w)"
    have t: "wp_translate g w = (fst (wp_translate g w), w1)" by (simp add: w1_def)
    note tr = wp_translate_extends [OF Cons.prems t]
    have "?f x w = w1" by (simp add: x w1_def wp_translate_def split: option.split)
    moreover have "ad_ok (wp_adapter w1) (wp_next w1)" using tr(1) Cons.prems by (simp add: extends_def)
    ultimately show ?case
      using Cons.IH [of w1] tr(1,3) extends_trans [of w w1] by (simp add: x)
  qed simp
  from this [OF assms, of "wp_adapter from"]
  show "extends w (wp_adopt from w)" "wp_dom (wp_adopt from w) = wp_dom w \<union> wp_dom from"
    by (simp_all add: wp_adopt_def) (simp add: wp_dom_def dom_map_of_conv_image_fst)
qed

subsection \<open>Combining\<close>

context ppl_laws
begin

lemma adopt_embed:
  assumes ok: "wp_ok P w"
  shows "wp_ok P ((wp_adopt fr w)\<lparr>wp_poly :=
      pp_embed P (wp_poly (wp_adopt fr w)) (wp_next (wp_adopt fr w) - wp_next w)\<rparr>)" (is "wp_ok P ?w")
    and "wsem P ((wp_adopt fr w)\<lparr>wp_poly :=
      pp_embed P (wp_poly (wp_adopt fr w)) (wp_next (wp_adopt fr w) - wp_next w)\<rparr>) = wsem P w"
    and "wp_dom ((wp_adopt fr w)\<lparr>wp_poly := p\<rparr>) = wp_dom w \<union> wp_dom fr"
proof -
  have ad: "ad_ok (wp_adapter w) (wp_next w)" using ok by (simp add: wp_ok_def)
  note a = adopt [OF ad, of fr]
  have "wp_next w = pp_dim P (wp_poly (wp_adopt fr w))" using ok a(1) by (simp add: wp_ok_def extends_def)
  then show "wp_ok P ?w" "wsem P ?w = wsem P w" using embed_extends [OF ok a(1) refl] by simp_all
  show "wp_dom ((wp_adopt fr w)\<lparr>wp_poly := p\<rparr>) = wp_dom w \<union> wp_dom fr"
    using a(2) by (simp add: wp_dom_def)
qed

text \<open>The two polyhedra that come back are well formed, with one adapter up to its lookup function.\<close>

definition combined :: "'p wpoly \<Rightarrow> 'p wpoly \<Rightarrow> bool" where
  "combined w w' \<longleftrightarrow> wp_ok P w \<and> wp_ok P w' \<and> map_of (wp_adapter w) = map_of (wp_adapter w')"

lemma combined_dim: "combined w w' \<Longrightarrow> pp_dim P (wp_poly w) = pp_dim P (wp_poly w')"
  unfolding combined_def wp_ok_def by (metis ad_ok_same_dom)

lemma combine_keep:
  assumes w: "wp_ok P w" and src: "wp_ok P src" and ne: "wp_dom w \<union> wp_dom src \<noteq> {}"
  obtains w' src' where "wp_combine P w src True = Some (w', src')" and "combined w' src'"
    and "wp_dom w' = wp_dom w \<union> wp_dom src" and "wsem P w' = wsem P w" and "wsem P src' = wsem P src"
proof -
  define s1 where "s1 = wp_adopt w src"
  define s2 where "s2 = s1\<lparr>wp_poly := pp_embed P (wp_poly s1) (wp_next s1 - wp_next src)\<rparr>"
  define w1 where "w1 = wp_adopt s1 w"
  define w2 where "w2 = w1\<lparr>wp_poly := pp_embed P (wp_poly w1) (wp_next w1 - wp_next w)\<rparr>"
  note s = adopt_embed [OF src, where fr = w, folded s1_def]
  note a = adopt_embed [OF w, where fr = s1, folded w1_def]
  have ds: "wp_dom s1 = wp_dom src \<union> wp_dom w"
    using adopt(2) [of src w] src by (simp add: s1_def wp_ok_def)
  have dw: "wp_dom w2 = wp_dom w \<union> wp_dom src" using a(3) ds by (auto simp: w2_def)
  have "wp_dom w2 = wp_dom s2" using dw s(3) by (auto simp: s2_def)
  moreover have "wp_ok P w2" "wp_ok P s2" using a(1) s(1) by (simp_all add: w2_def s2_def)
  ultimately obtain s3 where s3: "wp_align P w2 s2 = Some s3" "wp_ok P s3"
    "map_of (wp_adapter s3) = map_of (wp_adapter w2)" "wsem P s3 = wsem P s2"
    using align [of w2 s2] dw ne by blast
  have "wp_combine P w src True = Some (w2, s3)"
    using s3(1) by (simp add: wp_combine_def Let_def s1_def [symmetric] w1_def [symmetric]
        w2_def [symmetric] s2_def [symmetric])
  moreover have "combined w2 s3" using s3 \<open>wp_ok P w2\<close> by (simp add: combined_def)
  moreover have "wsem P w2 = wsem P w" "wsem P s3 = wsem P src"
    using a(2) s(2) s3(4) by (simp_all add: w2_def s2_def)
  ultimately show thesis using that dw by blast
qed

lemma combine_common:
  assumes w: "wp_ok P w" and src: "wp_ok P src"
  shows "wp_dom w \<inter> wp_dom src = {} \<Longrightarrow> wp_combine P w src False = None"
    and "wp_dom w \<inter> wp_dom src \<noteq> {} \<Longrightarrow> \<exists>w' src'. wp_combine P w src False = Some (w', src') \<and>
      combined w' src' \<and> wp_dom w' = wp_dom w \<inter> wp_dom src \<and>
      wsem P w \<subseteq> wsem P w' \<and> wsem P src \<subseteq> wsem P src'"
proof -
  define w1 where "w1 = w\<lparr>wp_poly := pp_embed P (wp_poly w) 0\<rparr>"
  define s1 where "s1 = src\<lparr>wp_poly := pp_embed P (wp_poly src) 0\<rparr>"
  have w1: "wp_ok P w1" "wsem P w1 = wsem P w" "wp_dom w1 = wp_dom w"
    and s1: "wp_ok P s1" "wsem P s1 = wsem P src" "wp_dom s1 = wp_dom src"
    using w src by (auto simp: w1_def s1_def wp_ok_def wsem_def wp_dom_def embed_sem embed_dim)
  obtain w2 where w2: "wp_map_with_dim P (pf_eliminator (wp_missing_dims w1 s1) (pp_dim P (wp_poly w1))) w1 = Some w2"
    "wp_ok P w2" "wp_dom w2 = wp_dom w \<inter> wp_dom src" "wsem P w \<subseteq> wsem P w2"
    using missing_dims [OF w1(1), of s1] w1 s1 by metis
  obtain s2 where s2: "wp_map_with_dim P (pf_eliminator (wp_missing_dims s1 w1) (pp_dim P (wp_poly s1))) s1 = Some s2"
    "wp_ok P s2" "wp_dom s2 = wp_dom w \<inter> wp_dom src" "wsem P src \<subseteq> wsem P s2"
    using missing_dims [OF s1(1), of w1] w1 s1 by (metis inf_commute)
  have m: "wp_missing_dims w1 s1 = wp_missing_dims w src" "wp_missing_dims s1 w1 = wp_missing_dims src w"
    by (simp_all add: wp_missing_dims_def w1_def s1_def)
  have c: "wp_combine P w src False = do { s3 \<leftarrow> wp_align P w2 s2; Some (w2, s3) }"
    using w2(1) s2(1) unfolding m by (simp add: wp_combine_def Let_def w1_def s1_def)
  show "wp_combine P w src False = None" if "wp_dom w \<inter> wp_dom src = {}"
    using c align_empty [OF w2(2) s2(2)] w2(3) s2(3) that by simp
  show "\<exists>w' src'. wp_combine P w src False = Some (w', src') \<and>
      combined w' src' \<and> wp_dom w' = wp_dom w \<inter> wp_dom src \<and>
      wsem P w \<subseteq> wsem P w' \<and> wsem P src \<subseteq> wsem P src'" if ne: "wp_dom w \<inter> wp_dom src \<noteq> {}"
  proof -
    obtain s3 where "wp_align P w2 s2 = Some s3" "wp_ok P s3"
      "map_of (wp_adapter s3) = map_of (wp_adapter w2)" "wsem P s3 = wsem P s2"
      using align [OF w2(2) s2(2)] w2(3) s2(3) ne by metis
    then show ?thesis using c w2 s2 by (auto simp: combined_def)
  qed
qed

lemma combined_op:
  assumes c: "combined w w'" and dim: "pp_dim P q = pp_dim P (wp_poly w)"
  shows "wp_ok P (w\<lparr>wp_poly := q\<rparr>)" and "wp_dom (w\<lparr>wp_poly := q\<rparr>) = wp_dom w"
    and "\<And>v x. agree (wp_adapter w) v x \<Longrightarrow> v \<in> wsem P (w\<lparr>wp_poly := q\<rparr>) \<longleftrightarrow> x \<in> psem P q"
    and "\<And>v x. agree (wp_adapter w) v x \<Longrightarrow> v \<in> wsem P w \<longleftrightarrow> x \<in> psem P (wp_poly w)"
    and "\<And>v x. agree (wp_adapter w) v x \<Longrightarrow> v \<in> wsem P w' \<longleftrightarrow> x \<in> psem P (wp_poly w')"
    and "\<And>v. \<exists>x. agree (wp_adapter w) v x"
proof -
  have ok: "wp_ok P w" "wp_ok P w'" and ad: "map_of (wp_adapter w) = map_of (wp_adapter w')"
    using c by (simp_all add: combined_def)
  show ok': "wp_ok P (w\<lparr>wp_poly := q\<rparr>)" using ok(1) dim by (simp add: wp_ok_def)
  show "wp_dom (w\<lparr>wp_poly := q\<rparr>) = wp_dom w" by (simp add: wp_dom_def)
  fix v
  show "\<exists>x. agree (wp_adapter w) v x" using ok(1) by (intro agree_ex) (simp add: wp_ok_def ad_ok_def)
  fix x
  assume a: "agree (wp_adapter w) v x"
  then have "agree (wp_adapter w') v x" by (simp add: agree_def ad)
  then show "v \<in> wsem P w' \<longleftrightarrow> x \<in> psem P (wp_poly w')" by (rule wsem_point [OF ok(2)])
  show "v \<in> wsem P w \<longleftrightarrow> x \<in> psem P (wp_poly w)" by (rule wsem_point [OF ok(1) a])
  show "v \<in> wsem P (w\<lparr>wp_poly := q\<rparr>) \<longleftrightarrow> x \<in> psem P q" using wsem_point [OF ok', of v x] a by simp
qed

text \<open>Intersection is exact; hull and widening contain their arguments; equality is equality.\<close>

lemma intersection:
  assumes w: "wp_ok P w" and src: "wp_ok P src" and ne: "wp_dom w \<union> wp_dom src \<noteq> {}"
  obtains w' where "wp_intersection P w src = Some w'" and "wp_ok P w'"
    and "wp_dom w' = wp_dom w \<union> wp_dom src" and "wsem P w' = wsem P w \<inter> wsem P src"
proof -
  obtain w1 s1 where c: "wp_combine P w src True = Some (w1, s1)" "combined w1 s1"
    "wp_dom w1 = wp_dom w \<union> wp_dom src" "wsem P w1 = wsem P w" "wsem P s1 = wsem P src"
    using combine_keep [OF w src ne] by metis
  note d = combined_dim [OF c(2)]
  note o = combined_op [OF c(2) intersection_dim [OF d]]
  let ?w = "w1\<lparr>wp_poly := pp_intersection P (wp_poly w1) (wp_poly s1)\<rparr>"
  have "v \<in> wsem P ?w \<longleftrightarrow> v \<in> wsem P w \<inter> wsem P src" for v
    using o(6) [of v] o(3-5) [of v] c(4,5) by (auto simp: intersection_sem [OF d])
  then show thesis using that [of ?w] o(1,2) c(1,3) by (auto simp: wp_intersection_def)
qed

lemma hull:
  assumes w: "wp_ok P w" and src: "wp_ok P src" and ne: "wp_dom w \<inter> wp_dom src \<noteq> {}"
  obtains w' where "wp_hull P w src = Some w'" and "wp_ok P w'"
    and "wp_dom w' = wp_dom w \<inter> wp_dom src" and "wsem P w \<union> wsem P src \<subseteq> wsem P w'"
proof -
  obtain w1 s1 where c: "wp_combine P w src False = Some (w1, s1)" "combined w1 s1"
    "wp_dom w1 = wp_dom w \<inter> wp_dom src" "wsem P w \<subseteq> wsem P w1" "wsem P src \<subseteq> wsem P s1"
    using combine_common(2) [OF w src ne] by blast
  note d = combined_dim [OF c(2)]
  note o = combined_op [OF c(2) hull_dim [OF d]]
  let ?w = "w1\<lparr>wp_poly := pp_hull P (wp_poly w1) (wp_poly s1)\<rparr>"
  have "v \<in> wsem P ?w" if "v \<in> wsem P w \<union> wsem P src" for v
    using o(6) [of v] o(3-5) [of v] c(4,5) that hull_sem [OF d] by blast
  then show thesis using that [of ?w] o(1,2) c(1,3) by (auto simp: wp_hull_def)
qed

lemma h79:
  assumes w: "wp_ok P w" and src: "wp_ok P src" and ne: "wp_dom w \<inter> wp_dom src \<noteq> {}"
  obtains w' where "wp_h79 P w src = Some w'" and "wp_ok P w'"
    and "wp_dom w' = wp_dom w \<inter> wp_dom src" and "wsem P w \<subseteq> wsem P w'"
proof -
  obtain w1 s1 where c: "wp_combine P w src False = Some (w1, s1)" "combined w1 s1"
    "wp_dom w1 = wp_dom w \<inter> wp_dom src" "wsem P w \<subseteq> wsem P w1" "wsem P src \<subseteq> wsem P s1"
    using combine_common(2) [OF w src ne] by blast
  note d = combined_dim [OF c(2)]
  note o = combined_op [OF c(2) h79_dim [OF d]]
  let ?w = "w1\<lparr>wp_poly := pp_h79 P (wp_poly w1) (wp_poly s1)\<rparr>"
  have "v \<in> wsem P ?w" if "v \<in> wsem P w" for v
    using o(6) [of v] o(3-5) [of v] c(4) that h79_sem [OF d] by blast
  then show thesis using that [of ?w] o(1,2) c(1,3) by (auto simp: wp_h79_def)
qed

lemma no_common_variable:
  assumes "wp_ok P w" and "wp_ok P src" and "wp_dom w \<inter> wp_dom src = {}"
  shows "wp_hull P w src = None" and "wp_h79 P w src = None"
  using combine_common(1) [OF assms] by (simp_all add: wp_hull_def wp_h79_def)

lemma equals_sem:
  assumes w: "wp_ok P w" and src: "wp_ok P src" and eq: "wp_equals P w src = Some True"
  shows "wsem P w = wsem P src"
proof -
  have "wp_dom src \<union> wp_dom w \<noteq> {}"
  proof
    assume "wp_dom src \<union> wp_dom w = {}"
    then have nil: "wp_adapter w = []" "wp_adapter src = []"
      by (simp_all add: wp_dom_def dom_map_of_conv_image_fst)
    then have "wp_combine P src w True = do { s \<leftarrow> wp_align P
        (src\<lparr>wp_poly := pp_embed P (wp_poly src) 0\<rparr>) (w\<lparr>wp_poly := pp_embed P (wp_poly w) 0\<rparr>);
        Some (src\<lparr>wp_poly := pp_embed P (wp_poly src) 0\<rparr>, s) }"
      by (simp add: wp_combine_def wp_adopt_def Let_def)
    moreover have "wp_ok P (src\<lparr>wp_poly := pp_embed P (wp_poly src) 0\<rparr>)"
      "wp_ok P (w\<lparr>wp_poly := pp_embed P (wp_poly w) 0\<rparr>)"
      using w src by (simp_all add: wp_ok_def embed_dim)
    ultimately show False using eq align_empty nil by (simp add: wp_equals_def wp_dom_def)
  qed
  then obtain c1 c2 where c: "wp_combine P src w True = Some (c1, c2)" "combined c1 c2"
    "wsem P c1 = wsem P src" "wsem P c2 = wsem P w"
    using combine_keep [OF src w] by metis
  have "psem P (wp_poly c1) = psem P (wp_poly c2)"
    using eq c(1) equal_sem by (auto simp: wp_equals_def)
  moreover note o = combined_op(4-6) [OF c(2) refl]
  ultimately have "v \<in> wsem P c1 \<longleftrightarrow> v \<in> wsem P c2" for v by (metis o)
  then show ?thesis using c(3,4) by blast
qed

end

subsection \<open>Queries\<close>

lemma inv_map:
  assumes "ad_ok (wp_adapter w) n"
  shows "map_of (wp_invMap w) i = Some g \<longleftrightarrow> map_of (wp_adapter w) g = Some i"
proof -
  let ?ys = "map (\<lambda>(g, d). (d, g)) (wp_adapter w)"
  have dist: "distinct (map fst (wp_adapter w))" and inj: "inj_on (map_of (wp_adapter w)) (dom (map_of (wp_adapter w)))"
    using assms by (simp_all add: ad_ok_def om_ok_distinct)
  have "g = h" if "map_of (wp_adapter w) g = Some d" "map_of (wp_adapter w) h = Some d" for g h d
    using that inj by (metis domI inj_onD)
  then have "distinct (map snd (wp_adapter w))" using dist by (auto simp: distinct_map inj_on_def)
  then have dy: "distinct (map fst ?ys)" by (simp add: comp_def case_prod_unfold)
  have "wp_invMap w = fold (\<lambda>(d, g) m. om_set d g m) ?ys []"
    by (simp add: wp_invMap_def fold_map comp_def case_prod_unfold)
  then have "map_of (wp_invMap w) = map_of ?ys" using om.fold_upd_look [OF om.emp_ok dy] by simp
  then have "map_of (wp_invMap w) i = Some g \<longleftrightarrow> (i, g) \<in> set ?ys" by (simp add: map_of_eq_Some_iff [OF dy])
  also have "\<dots> \<longleftrightarrow> map_of (wp_adapter w) g = Some i" using map_of_eq_Some_iff [OF dist] by force
  finally show ?thesis .
qed

context ppl_laws
begin

lemma maximize_bound:
  assumes "wp_ok P w" and "wp_maximize P w le = Some (n, d, b)" and "v \<in> wsem P w"
  shows "0 < d" and "le_eval v le * of_int d \<le> of_int n"
proof -
  obtain e where e: "le_toPPL_const le w = Some e" "pp_maximize P (wp_poly w) e = Some (n, d, b)"
    using assms(2) by (auto simp: wp_maximize_def bindE)
  obtain x where x: "x \<in> psem P (wp_poly w)" "agree (wp_adapter w) v x" using assms(3) by (auto simp: wsem_def)
  have ad: "ad_ok (wp_adapter w) (pp_dim P (wp_poly w))" using assms(1) by (simp add: wp_ok_def)
  show "0 < d" by (rule maximize_den [OF e(2)])
  show "le_eval v le * of_int d \<le> of_int n"
    using maximize_sem [OF e(2) x(1)] le_toPPL_const_sem(2) [OF e(1) ad x(2)] by simp
qed

lemma minimize_bound:
  assumes "wp_ok P w" and "wp_minimize P w le = Some (n, d, b)" and "v \<in> wsem P w"
  shows "0 < d" and "of_int n \<le> le_eval v le * of_int d"
proof -
  obtain e where e: "le_toPPL_const le w = Some e" "pp_minimize P (wp_poly w) e = Some (n, d, b)"
    using assms(2) by (auto simp: wp_minimize_def bindE)
  obtain x where x: "x \<in> psem P (wp_poly w)" "agree (wp_adapter w) v x" using assms(3) by (auto simp: wsem_def)
  have ad: "ad_ok (wp_adapter w) (pp_dim P (wp_poly w))" using assms(1) by (simp add: wp_ok_def)
  show "0 < d" by (rule minimize_den [OF e(2)])
  show "of_int n \<le> le_eval v le * of_int d"
    using minimize_sem [OF e(2) x(1)] le_toPPL_const_sem(2) [OF e(1) ad x(2)] by simp
qed

lemma translate_const:
  assumes "wp_ok P w" and "wp_translate_cons_const w c = Some pc" and "agree (wp_adapter w) v x"
  shows "psat x pc = wc_sat v c"
proof -
  obtain e where e: "le_toPPL_const (wc_expr c) w = Some e" "pc = wc_ppl (wc_type c) e"
    using assms(2) by (auto simp: wp_translate_cons_const_def bindE)
  have ad: "ad_ok (wp_adapter w) (pp_dim P (wp_poly w))" using assms(1) by (simp add: wp_ok_def)
  show ?thesis unfolding e(2) by (rule psat_wc_ppl) (rule le_toPPL_const_sem(2) [OF e(1) ad assms(3)])
qed

lemma included_const:
  assumes "wp_ok P w" and "wp_included_const P w c = Some True" and "v \<in> wsem P w"
  shows "wc_sat v c"
proof -
  obtain pc where pc: "wp_translate_cons_const w c = Some pc" "pp_included P (wp_poly w) pc"
    using assms(2) by (auto simp: wp_included_const_def bindE)
  obtain x where x: "x \<in> psem P (wp_poly w)" "agree (wp_adapter w) v x" using assms(3) by (auto simp: wsem_def)
  show ?thesis using included_sem [OF pc(2) x(1)] translate_const [OF assms(1) pc(1) x(2)] by simp
qed

lemma disjoint_const:
  assumes "wp_ok P w" and "wp_disjoint_const P w c = Some True" and "v \<in> wsem P w"
  shows "\<not> wc_sat v c"
proof -
  obtain pc where pc: "wp_translate_cons_const w c = Some pc" "pp_disjoint P (wp_poly w) pc"
    using assms(2) by (auto simp: wp_disjoint_const_def bindE)
  obtain x where x: "x \<in> psem P (wp_poly w)" "agree (wp_adapter w) v x" using assms(3) by (auto simp: wsem_def)
  show ?thesis using disjoint_sem [OF pc(2) x(1)] translate_const [OF assms(1) pc(1) x(2)] by simp
qed

lemma included:
  assumes "wp_ok P w" and "wp_included P c w = (b, w')"
  shows "wp_ok P w'" and "wsem P w' = wsem P w" and "wp_dom w' = wp_dom w \<union> wc_vars c"
    and "b \<Longrightarrow> v \<in> wsem P w \<Longrightarrow> wc_sat v c"
proof -
  obtain pc where t: "wp_translate_cons P c w = (pc, w')" and b: "b = pp_included P (wp_poly w') pc"
    using assms(2) by (auto simp: wp_included_def split: prod.splits)
  note s = translate_cons [OF assms(1) t]
  show "wp_ok P w'" "wsem P w' = wsem P w" "wp_dom w' = wp_dom w \<union> wc_vars c" by (rule s)+
  assume "b" and "v \<in> wsem P w"
  then obtain x where x: "x \<in> psem P (wp_poly w')" "agree (wp_adapter w') v x"
    using s(2) by (auto simp: wsem_def)
  show "wc_sat v c" using included_sem x s(5) [OF x(2)] \<open>b\<close> b by blast
qed

lemma empty_sound: "wp_is_empty P w \<Longrightarrow> wsem P w = {}"
  by (auto simp: wp_is_empty_def wsem_def dest: is_empty_sem)

text \<open>The constraints that the program iterates over describe the polyhedron exactly.\<close>

lemma back_translate:
  assumes ok: "wp_ok P w" and c: "pc_dim c \<le> pp_dim P (wp_poly w)"
  obtains k where "wp_back_translate P w c = Some k" and "wc_ok k" and "wc_vars k \<subseteq> wp_dom w"
    and "\<And>v x. agree (wp_adapter w) v x \<Longrightarrow> wc_sat v k = psat x c"
proof -
  let ?n = "pp_dim P (wp_poly w)" and ?e = "pc_expr c"
  let ?f = "\<lambda>i le. let k = pl_coef ?e i in
         if k \<noteq> 0 then do { g \<leftarrow> map_of (wp_invMap w) i; Some (le_add le (le_scale k (le_var g))) }
         else Some le"
  have ad: "ad_ok (wp_adapter w) ?n" using ok by (simp add: wp_ok_def)
  have "\<exists>le. foldM ?f [0..<m] (le_const 0) = Some le \<and> le_ok le \<and> le_vars le \<subseteq> wp_dom w \<and>
    (\<forall>v x. agree (wp_adapter w) v x \<longrightarrow> le_eval v le = (\<Sum>i < m. of_int (pl_coef ?e i) * x i))"
    if "m \<le> ?n" for m
    using that
  proof (induction m)
    case 0
    then show ?case by simp
  next
    case (Suc m)
    then obtain le where le: "foldM ?f [0..<m] (le_const 0) = Some le" "le_ok le" "le_vars le \<subseteq> wp_dom w"
      "\<And>v x. agree (wp_adapter w) v x \<Longrightarrow> le_eval v le = (\<Sum>i < m. of_int (pl_coef ?e i) * x i)" by auto
    have "m \<in> ran (map_of (wp_adapter w))" using ad Suc.prems by (auto simp: ad_ok_def)
    then obtain g where g: "map_of (wp_adapter w) g = Some m" by (auto simp: ran_def)
    then have inv: "map_of (wp_invMap w) m = Some g" by (simp add: inv_map [OF ad])
    define le' where "le' = (if pl_coef ?e m \<noteq> 0 then le_add le (le_scale (pl_coef ?e m) (le_var g)) else le)"
    have "foldM ?f [0..<Suc m] (le_const 0) = Some le'"
      using le(1) inv by (simp add: foldM_append le'_def Let_def)
    moreover have "le_ok le'" using le(2) by (simp add: le'_def)
    moreover have "le_vars le' \<subseteq> wp_dom w"
      using le(2,3) g le_add_coefs(4) [of le "le_scale (pl_coef ?e m) (le_var g)"]
        le_scale_coefs(4) [of "le_var g" "pl_coef ?e m"] by (auto simp: le'_def wp_dom_def)
    moreover have "le_eval v le' = (\<Sum>i < Suc m. of_int (pl_coef ?e i) * x i)"
      if "agree (wp_adapter w) v x" for v x
      using le(2) le(4) [OF that] agreeD [OF that g] by (simp add: le'_def)
    ultimately show ?case by blast
  qed
  from this [of ?n] obtain le where le: "foldM ?f [0..<?n] (le_const 0) = Some le" "le_ok le" "le_vars le \<subseteq> wp_dom w"
    "\<And>v x. agree (wp_adapter w) v x \<Longrightarrow> le_eval v le = (\<Sum>i < ?n. of_int (pl_coef ?e i) * x i)" by auto
  let ?le = "le_add le (le_const (snd ?e))"
  let ?k = "if pc_is_equality c then w_eq ?le (le_const 0) else w_ge ?le (le_const 0)"
  have ok': "le_ok ?le" using le(2) by simp
  have vars: "le_vars ?le \<subseteq> wp_dom w" using le(2,3) le_add_coefs(4) [of le "le_const (snd ?e)"] by auto
  show thesis
  proof
    show "wp_back_translate P w c = Some ?k" using le(1) by (simp add: wp_back_translate_def Let_def)
    show "wc_ok ?k" using ok' by simp
    show "wc_vars ?k \<subseteq> wp_dom w"
      using wc_vars_ops(1,2) [OF ok', of "le_const 0"] vars by auto
    show "wc_sat v ?k = psat x c" if "agree (wp_adapter w) v x" for v x
      using le(2) le(4) [OF that] ok' pl_eval_coef [of ?e ?n x] c
      by (cases c) (auto simp: pc_dim_def add.commute)
  qed
qed

lemma constraints:
  assumes ok: "wp_ok P w"
  obtains cs where "wp_constraints P w = Some cs" and "\<And>k. k \<in> set cs \<Longrightarrow> wc_ok k \<and> wc_vars k \<subseteq> wp_dom w"
    and "wsem P w = {v. \<forall>k \<in> set cs. wc_sat v k}"
proof -
  let ?ps = "pp_minimized P (wp_poly w)"
  have bt: "\<exists>k. wp_back_translate P w c = Some k \<and> wc_ok k \<and> wc_vars k \<subseteq> wp_dom w \<and>
    (\<forall>v x. agree (wp_adapter w) v x \<longrightarrow> wc_sat v k = psat x c)" if "c \<in> set ?ps" for c
    using back_translate [OF ok minimized_dim [OF that]] by metis
  then have "mapM (wp_back_translate P w) ?ps \<noteq> None" by (intro mapM_total) fastforce
  then obtain cs where cs: "mapM (wp_back_translate P w) ?ps = Some cs" by auto
  have k: "wc_ok k \<and> wc_vars k \<subseteq> wp_dom w" if "k \<in> set cs" for k
    using mapM_set [OF cs that] bt by fastforce
  have "v \<in> wsem P w \<longleftrightarrow> (\<forall>k \<in> set cs. wc_sat v k)" for v
  proof -
    obtain x where x: "agree (wp_adapter w) v x"
      using ok agree_ex [of "wp_adapter w" v] by (auto simp: wp_ok_def ad_ok_def)
    have "v \<in> wsem P w \<longleftrightarrow> (\<forall>c \<in> set ?ps. psat x c)" using wsem_point [OF ok x] by (simp add: psem_def)
    also have "\<dots> \<longleftrightarrow> (\<forall>k \<in> set cs. wc_sat v k)"
      using mapM_set [OF cs] mapM_set' [OF cs] bt x by (metis option.sel)
    finally show ?thesis .
  qed
  then show thesis using that cs k by (auto simp: wp_constraints_def)
qed

end

end
