(* ===== verification/My_HTable.thy ===== *)
theory My_HTable
  imports Prelude
begin

text \<open>
  The hash table \<open>MyHTable\<close> (\<open>include/MyHTable.h\<close>): an array of chains, new nodes
  pushed at the head of their chain. The order in which iterators visit the nodes (chain by
  chain, each from its head) is part of the model, because the analysis iterates over tables
  while it numbers and merges variables. The hash and the equality of the keys are the
  template argument \<open>H\<close>, here the record \<open>hkey\<close>. The class refines the finite-map
  interface: that is the interpretation at the end of the theory.
\<close>

type_synonym hash = "64 word"

record 'k hkey =
  hk_hash :: "'k \<Rightarrow> hash"
  hk_equals :: "'k \<Rightarrow> 'k \<Rightarrow> bool"

type_synonym ('k, 'v) chain = "('k \<times> 'v) list"

record ('k, 'v) htable =
  ht_size :: nat
  ht_tab :: "('k, 'v) chain list"

text \<open>\<open>int i = H::hash(key) % size\<close>\<close>

definition ht_index :: "'k hkey \<Rightarrow> ('k, 'v) htable \<Rightarrow> 'k \<Rightarrow> nat" where
  "ht_index H t k = unat (hk_hash H k mod word_of_nat (ht_size t))"

definition ht_new :: "nat \<Rightarrow> ('k, 'v) htable" where
  "ht_new n = \<lparr>ht_size = n, ht_tab = replicate n []\<rparr>"

definition default_size :: nat where
  "default_size = 211"

text \<open>The walk of a chain by \<open>find\<close>, by an assignment through a node, and by \<open>remove\<close>.\<close>

fun chain_find :: "'k hkey \<Rightarrow> 'k \<Rightarrow> ('k, 'v) chain \<Rightarrow> 'v option" where
  "chain_find H k [] = None"
| "chain_find H k ((k', v) # c) = (if hk_equals H k' k then Some v else chain_find H k c)"

fun chain_set :: "'k hkey \<Rightarrow> 'k \<Rightarrow> 'v \<Rightarrow> ('k, 'v) chain \<Rightarrow> ('k, 'v) chain" where
  "chain_set H k v [] = []"
| "chain_set H k v ((k', v') # c) =
     (if hk_equals H k' k then (k', v) # c else (k', v') # chain_set H k v c)"

fun chain_remove :: "'k hkey \<Rightarrow> 'k \<Rightarrow> ('k, 'v) chain \<Rightarrow> ('k, 'v) chain" where
  "chain_remove H k [] = []"
| "chain_remove H k ((k', v) # c) =
     (if hk_equals H k' k then c else (k', v) # chain_remove H k c)"

definition ht_chain :: "('k, 'v) htable \<Rightarrow> nat \<Rightarrow> ('k, 'v) chain" where
  "ht_chain t i = ht_tab t ! i"

definition ht_upd_chain ::
  "nat \<Rightarrow> (('k, 'v) chain \<Rightarrow> ('k, 'v) chain) \<Rightarrow> ('k, 'v) htable \<Rightarrow> ('k, 'v) htable" where
  "ht_upd_chain i f t = t\<lparr>ht_tab := (ht_tab t)[i := f (ht_chain t i)]\<rparr>"

text \<open>\<open>find\<close>; the node is represented by its value, the only part of it the callers read.\<close>

definition ht_find :: "'k hkey \<Rightarrow> ('k, 'v) htable \<Rightarrow> 'k \<Rightarrow> 'v option" where
  "ht_find H t k = chain_find H k (ht_chain t (ht_index H t k))"

text \<open>\<open>make\<close>: no test for an existing node.\<close>

definition ht_make :: "'k hkey \<Rightarrow> 'k \<Rightarrow> 'v \<Rightarrow> ('k, 'v) htable \<Rightarrow> ('k, 'v) htable" where
  "ht_make H k v t = ht_upd_chain (ht_index H t k) (\<lambda>c. (k, v) # c) t"

definition ht_hasKey :: "'k hkey \<Rightarrow> ('k, 'v) htable \<Rightarrow> 'k \<Rightarrow> bool" where
  "ht_hasKey H t k = (ht_find H t k \<noteq> None)"

text \<open>Reading \<open>t[k]\<close>: \<open>CstRef::get\<close> asserts that the node exists.\<close>

definition ht_at :: "'k hkey \<Rightarrow> ('k, 'v) htable \<Rightarrow> 'k \<Rightarrow> 'v option" where
  "ht_at H t k = ht_find H t k"

definition ht_get_default :: "'k hkey \<Rightarrow> ('k, 'v) htable \<Rightarrow> 'k \<Rightarrow> 'v \<Rightarrow> 'v" where
  "ht_get_default H t k d = (case ht_find H t k of Some v \<Rightarrow> v | None \<Rightarrow> d)"

text \<open>\<open>t[k] = v\<close> (\<open>Ref::operator=\<close>) and \<open>put\<close>: overwrite the node, or make one.\<close>

definition ht_put :: "'k hkey \<Rightarrow> 'k \<Rightarrow> 'v \<Rightarrow> ('k, 'v) htable \<Rightarrow> ('k, 'v) htable" where
  "ht_put H k v t =
     (case ht_find H t k of
        Some _ \<Rightarrow> ht_upd_chain (ht_index H t k) (chain_set H k v) t
      | None \<Rightarrow> ht_make H k v t)"

definition ht_assign :: "'k hkey \<Rightarrow> 'k \<Rightarrow> 'v \<Rightarrow> ('k, 'v) htable \<Rightarrow> ('k, 'v) htable" where
  "ht_assign H k v t =
     (if ht_find H t k = None then ht_make H k v t
      else ht_upd_chain (ht_index H t k) (chain_set H k v) t)"

definition ht_add :: "'k hkey \<Rightarrow> 'k \<Rightarrow> 'v \<Rightarrow> ('k, 'v) htable \<Rightarrow> ('k, 'v) htable" where
  "ht_add = ht_make"

definition ht_remove :: "'k hkey \<Rightarrow> 'k \<Rightarrow> ('k, 'v) htable \<Rightarrow> ('k, 'v) htable" where
  "ht_remove H k t = ht_upd_chain (ht_index H t k) (chain_remove H k) t"

definition ht_clear :: "('k, 'v) htable \<Rightarrow> ('k, 'v) htable" where
  "ht_clear t = t\<lparr>ht_tab := replicate (ht_size t) []\<rparr>"

text \<open>
  The nodes in the order of \<open>InternIterator\<close>, which \<open>PairIterator\<close>,
  \<open>KeyIterator\<close>, \<open>Iterator\<close>, \<open>count\<close> and \<open>putAll\<close> share.
\<close>

definition ht_pairs :: "('k, 'v) htable \<Rightarrow> ('k \<times> 'v) list" where
  "ht_pairs t = concat (ht_tab t)"

definition ht_isEmpty :: "('k, 'v) htable \<Rightarrow> bool" where
  "ht_isEmpty t = list_all (\<lambda>c. c = []) (ht_tab t)"

definition ht_count :: "('k, 'v) htable \<Rightarrow> nat" where
  "ht_count t = sum_list (map length (ht_tab t))"

definition ht_putAll ::
  "'k hkey \<Rightarrow> ('k, 'v) htable \<Rightarrow> ('k, 'v) htable \<Rightarrow> ('k, 'v) htable" where
  "ht_putAll H src t = fold (\<lambda>(k, v). ht_put H k v) (ht_pairs src) t"

text \<open>The copy constructor and the assignment operator. Both reverse every chain.\<close>

definition ht_copy :: "'k hkey \<Rightarrow> ('k, 'v) htable \<Rightarrow> ('k, 'v) htable" where
  "ht_copy H src = ht_putAll H src (ht_new (ht_size src))"

definition ht_copy_into ::
  "'k hkey \<Rightarrow> ('k, 'v) htable \<Rightarrow> ('k, 'v) htable \<Rightarrow> ('k, 'v) htable" where
  "ht_copy_into H src t = ht_putAll H src (ht_clear t)"

subsection \<open>Well-formed tables\<close>

text \<open>
  \<open>ht_wf\<close>: every node is in the chain its key hashes to. \<open>ht_ok\<close> adds that no chain
  has two nodes of one key, which \<open>add\<close> does not maintain and the other operations do.
\<close>

definition ht_wf :: "'k hkey \<Rightarrow> ('k, 'v) htable \<Rightarrow> bool" where
  "ht_wf H t \<longleftrightarrow> 0 < ht_size t \<and> ht_size t < 2 ^ 31 \<and> length (ht_tab t) = ht_size t \<and>
     (\<forall>i < ht_size t. \<forall>k \<in> fst ` set (ht_chain t i). ht_index H t k = i)"

definition ht_ok :: "'k hkey \<Rightarrow> ('k, 'v) htable \<Rightarrow> bool" where
  "ht_ok H t \<longleftrightarrow> ht_wf H t \<and> (\<forall>i < ht_size t. distinct (map fst (ht_chain t i)))"

lemma ht_ok_wf: "ht_ok H t \<Longrightarrow> ht_wf H t"
  by (simp add: ht_ok_def)

lemma default_size_ok: "0 < default_size" "default_size < 2 ^ 31"
  by (simp_all add: default_size_def)

locale hashing =
  fixes H :: "'k hkey"
  assumes equals_iff: "hk_equals H a b \<longleftrightarrow> a = b"
begin

lemma chain_find_eq: "chain_find H k c = map_of c k"
  by (induction c) (auto simp: equals_iff)

lemma chain_set_keys: "map fst (chain_set H k v c) = map fst c"
  by (induction c) (auto simp: equals_iff)

lemma chain_set_key_set: "fst ` set (chain_set H k v c) = fst ` set c"
  using chain_set_keys [of k v c] by (metis set_map)

lemma chain_set_find:
  "map_of (chain_set H k v c) = (if map_of c k = None then map_of c else (map_of c)(k \<mapsto> v))"
  by (induction c) (auto simp: equals_iff fun_eq_iff)

lemma chain_remove_subset: "set (chain_remove H k c) \<subseteq> set c"
  by (induction c) (auto simp: equals_iff split: if_splits)

lemma chain_remove_keys: "fst ` set (chain_remove H k c) \<subseteq> fst ` set c"
  by (rule image_mono) (rule chain_remove_subset)

lemma chain_remove_distinct:
  "distinct (map fst c) \<Longrightarrow> distinct (map fst (chain_remove H k c))"
proof (induction c)
  case (Cons p c)
  moreover have "fst p \<notin> fst ` set (chain_remove H k c)" if "fst p \<notin> fst ` set c"
    using that chain_remove_keys [of k c] by blast
  ultimately show ?case by (cases p) (simp add: equals_iff)
qed simp

lemma chain_remove_find:
  "distinct (map fst c) \<Longrightarrow> map_of (chain_remove H k c) = (map_of c)(k := None)"
proof (induction c)
  case (Cons p c)
  obtain k' v where p: "p = (k', v)" by (cases p)
  have "map_of c k' = None" using Cons.prems p by (simp add: map_of_eq_None_iff)
  with Cons p show ?case by (auto simp: equals_iff fun_eq_iff)
qed simp

end

subsection \<open>The table refines a finite map\<close>

lemma map_of_concat:
  assumes "i < length cs" and "\<And>j. j < length cs \<Longrightarrow> j \<noteq> i \<Longrightarrow> k \<notin> fst ` set (cs ! j)"
  shows "map_of (concat cs) k = map_of (cs ! i) k"
  using assms
proof (induction cs arbitrary: i)
  case Nil
  then show ?case by simp
next
  case (Cons c cs)
  show ?case
  proof (cases i)
    case 0
    have "map_of (concat cs) k = None"
      using Cons.prems(2) [of "Suc _"] 0
      by (force simp: map_of_eq_None_iff in_set_conv_nth)
    then show ?thesis using 0 by (simp add: map_add_def split: option.split)
  next
    case (Suc j)
    have "map_of c k = None"
      using Cons.prems(2) [of 0] Suc by (simp add: map_of_eq_None_iff)
    moreover have "map_of (concat cs) k = map_of (cs ! j) k"
      using Cons.IH [of j] Cons.prems Suc by (metis Suc_less_eq length_Cons nat.inject nth_Cons_Suc)
    ultimately show ?thesis using Suc by (auto simp: map_add_def split: option.splits)
  qed
qed

lemma distinct_concat_keys:
  assumes "\<And>i. i < length cs \<Longrightarrow> distinct (map fst (cs ! i))"
    and "\<And>i j k. i < length cs \<Longrightarrow> j < length cs \<Longrightarrow> k \<in> fst ` set (cs ! i) \<Longrightarrow>
      k \<in> fst ` set (cs ! j) \<Longrightarrow> i = j"
  shows "distinct (map fst (concat cs))"
  using assms
proof (induction cs)
  case (Cons c cs)
  have "distinct (map fst (concat cs))"
  proof (rule Cons.IH)
    show "distinct (map fst (cs ! i))" if "i < length cs" for i
      using Cons.prems(1) [of "Suc i"] that by simp
    show "i = j" if "i < length cs" "j < length cs" "k \<in> fst ` set (cs ! i)"
      "k \<in> fst ` set (cs ! j)" for i j k
      using Cons.prems(2) [of "Suc i" "Suc j" k] that by simp
  qed
  moreover have "k \<notin> fst ` set (concat cs)" if "k \<in> fst ` set c" for k
  proof
    assume "k \<in> fst ` set (concat cs)"
    then obtain j where "j < length cs" "k \<in> fst ` set (cs ! j)"
      by (force simp: in_set_conv_nth)
    then show False using Cons.prems(2) [of 0 "Suc j" k] that by simp
  qed
  ultimately show ?case using Cons.prems(1) [of 0] by auto
qed simp

lemma ht_index_size: "ht_size t = ht_size t' \<Longrightarrow> ht_index H t = ht_index H t'"
  by (simp add: ht_index_def fun_eq_iff)

lemma ht_index_less: "ht_wf H t \<Longrightarrow> ht_index H t k < ht_size t"
proof -
  assume wf: "ht_wf H t"
  then have s: "unat (word_of_nat (ht_size t) :: hash) = ht_size t"
    by (simp add: ht_wf_def unat_of_nat take_bit_nat_eq_self)
  show ?thesis using wf by (simp add: ht_index_def unat_mod_distrib s ht_wf_def)
qed

lemma ht_upd_chain_simps [simp]:
  "ht_size (ht_upd_chain i f t) = ht_size t"
  "length (ht_tab (ht_upd_chain i f t)) = length (ht_tab t)"
  "ht_index H (ht_upd_chain i f t) = ht_index H t"
  by (simp_all add: ht_upd_chain_def ht_index_def fun_eq_iff)

lemma ht_chain_upd:
  "j < length (ht_tab t) \<Longrightarrow>
   ht_chain (ht_upd_chain i f t) j = (if i = j then f (ht_chain t j) else ht_chain t j)"
  by (simp add: ht_chain_def ht_upd_chain_def)

lemma ht_wf_upd_chain:
  assumes "ht_wf H t" and "i = ht_index H t k"
    and "fst ` set (f (ht_chain t i)) \<subseteq> insert k (fst ` set (ht_chain t i))"
  shows "ht_wf H (ht_upd_chain i f t)"
proof -
  have "ht_index H t k' = j"
    if j: "j < ht_size t" and k': "k' \<in> fst ` set (ht_chain (ht_upd_chain i f t) j)" for j k'
  proof (cases "i = j")
    case True
    then have "k' = k \<or> k' \<in> fst ` set (ht_chain t i)"
      using k' j assms(1,3) by (auto simp: ht_chain_upd ht_wf_def)
    then show ?thesis using True j assms(1,2) by (auto simp only: ht_wf_def)
  next
    case False
    then show ?thesis using k' j assms(1) by (auto simp: ht_chain_upd ht_wf_def)
  qed
  then show ?thesis using assms(1) by (simp add: ht_wf_def)
qed

lemma ht_wf_new: "0 < n \<Longrightarrow> n < 2 ^ 31 \<Longrightarrow> ht_wf H (ht_new n)"
  by (simp add: ht_wf_def ht_new_def ht_chain_def)

lemma ht_ok_new: "0 < n \<Longrightarrow> n < 2 ^ 31 \<Longrightarrow> ht_ok H (ht_new n)"
  by (simp add: ht_ok_def ht_wf_new) (simp add: ht_new_def ht_chain_def)

lemma ht_pairs_new [simp]: "ht_pairs (ht_new n) = []"
  by (simp add: ht_pairs_def ht_new_def)

lemma ht_size_ops [simp]:
  "ht_size (ht_new n) = n"
  "ht_size (ht_clear t) = ht_size t"
  "ht_size (ht_make H k v t) = ht_size t"
  "ht_size (ht_remove H k t) = ht_size t"
  "ht_size (ht_put H k v t) = ht_size t"
  by (simp_all add: ht_new_def ht_clear_def ht_make_def ht_remove_def ht_put_def
      split: option.split)

lemma ht_clear_new: "ht_clear t = ht_new (ht_size t)"
  by (simp add: ht_clear_def ht_new_def)

lemma ht_count_pairs: "ht_count t = length (ht_pairs t)"
  by (simp add: ht_count_def ht_pairs_def length_concat)

context hashing
begin

lemma find_pairs:
  assumes "ht_wf H t"
  shows "ht_find H t k = map_of (ht_pairs t) k"
proof -
  have "map_of (concat (ht_tab t)) k = map_of (ht_tab t ! ht_index H t k) k"
    using assms ht_index_less [OF assms, of k]
    by (intro map_of_concat) (auto simp: ht_wf_def ht_chain_def)
  then show ?thesis by (simp add: ht_find_def ht_pairs_def ht_chain_def chain_find_eq)
qed

lemma find_new: "0 < n \<Longrightarrow> n < 2 ^ 31 \<Longrightarrow> ht_find H (ht_new n) = Map.empty"
  by (rule ext) (simp add: find_pairs [OF ht_wf_new])

lemma find_upd_chain:
  assumes wf: "ht_wf H t" and i: "i = ht_index H t k"
    and m: "map_of (f (ht_chain t i)) = (map_of (ht_chain t i))(k := r)"
  shows "ht_find H (ht_upd_chain i f t) = (ht_find H t)(k := r)"
proof
  fix k'
  have "ht_index H t k' < length (ht_tab t)"
    using wf ht_index_less [OF wf] by (simp add: ht_wf_def)
  then show "ht_find H (ht_upd_chain i f t) k' = ((ht_find H t)(k := r)) k'"
    using m i by (auto simp: ht_find_def chain_find_eq ht_chain_upd)
qed

lemma make_find: "ht_wf H t \<Longrightarrow> ht_find H (ht_make H k v t) = (ht_find H t)(k \<mapsto> v)"
  unfolding ht_make_def by (rule find_upd_chain) auto

lemma put_find:
  assumes "ht_wf H t"
  shows "ht_find H (ht_put H k v t) = (ht_find H t)(k \<mapsto> v)"
proof (cases "ht_find H t k")
  case None
  then show ?thesis using make_find [OF assms] by (simp add: ht_put_def)
next
  case (Some w)
  then have "map_of (ht_chain t (ht_index H t k)) k \<noteq> None"
    by (simp add: ht_find_def chain_find_eq)
  then have "ht_find H (ht_upd_chain (ht_index H t k) (chain_set H k v) t) = (ht_find H t)(k \<mapsto> v)"
    by (intro find_upd_chain [OF assms]) (auto simp: chain_set_find)
  then show ?thesis using Some by (simp add: ht_put_def)
qed

lemma remove_find: "ht_ok H t \<Longrightarrow> ht_find H (ht_remove H k t) = (ht_find H t)(k := None)"
  unfolding ht_remove_def
  by (rule find_upd_chain) (auto simp: ht_ok_def chain_remove_find ht_index_less)

lemma make_wf: "ht_wf H t \<Longrightarrow> ht_wf H (ht_make H k v t)"
  unfolding ht_make_def by (rule ht_wf_upd_chain [of _ _ _ k]) auto

lemma put_wf: "ht_wf H t \<Longrightarrow> ht_wf H (ht_put H k v t)"
  unfolding ht_put_def
  by (simp add: make_wf chain_set_key_set ht_wf_upd_chain [of _ _ _ k] subset_insertI
      split: option.split)

lemma remove_wf: "ht_wf H t \<Longrightarrow> ht_wf H (ht_remove H k t)"
  unfolding ht_remove_def
  by (rule ht_wf_upd_chain [of _ _ _ k]) (simp_all only: subset_insertI2 [OF chain_remove_keys])

lemma ok_upd_chain:
  assumes "ht_ok H t" and "ht_wf H (ht_upd_chain i f t)"
    and "i < ht_size t \<Longrightarrow> distinct (map fst (f (ht_chain t i)))"
  shows "ht_ok H (ht_upd_chain i f t)"
  using assms by (auto simp: ht_ok_def ht_wf_def ht_chain_upd)

lemma put_ok:
  assumes "ht_ok H t"
  shows "ht_ok H (ht_put H k v t)"
proof -
  have wf: "ht_wf H t" using assms by (simp add: ht_ok_def)
  have d: "distinct (map fst (ht_chain t (ht_index H t k)))"
    using assms ht_index_less [OF wf] by (simp add: ht_ok_def)
  have "k \<notin> fst ` set (ht_chain t (ht_index H t k))" if "ht_find H t k = None"
    using that by (simp add: ht_find_def chain_find_eq map_of_eq_None_iff)
  then show ?thesis
    using put_wf [OF wf, of k v] assms d
    by (auto simp: ht_put_def ht_make_def chain_set_keys intro!: ok_upd_chain split: option.splits)
qed

lemma remove_ok:
  assumes "ht_ok H t"
  shows "ht_ok H (ht_remove H k t)"
proof -
  have "ht_wf H (ht_remove H k t)" using assms by (simp add: ht_ok_def remove_wf)
  then show ?thesis
    using assms unfolding ht_remove_def
    by (intro ok_upd_chain) (auto simp: ht_ok_def chain_remove_distinct)
qed

lemma pairs_distinct:
  assumes "ht_ok H t"
  shows "distinct (map fst (ht_pairs t))"
  unfolding ht_pairs_def
proof (rule distinct_concat_keys)
  show "distinct (map fst (ht_tab t ! i))" if "i < length (ht_tab t)" for i
    using assms that by (simp add: ht_ok_def ht_wf_def ht_chain_def)
  have "ht_index H t k = i" if "i < length (ht_tab t)" "k \<in> fst ` set (ht_tab t ! i)" for i k
    using assms that by (auto simp: ht_ok_def ht_wf_def ht_chain_def)
  then show "i = j" if "i < length (ht_tab t)" "j < length (ht_tab t)"
    "k \<in> fst ` set (ht_tab t ! i)" "k \<in> fst ` set (ht_tab t ! j)" for i j k
    using that by metis
qed

end

sublocale hashing \<subseteq> tab: finite_map
  "ht_new default_size" "ht_find H" "ht_put H" "ht_remove H" ht_pairs "ht_ok H"
proof unfold_locales
  show "ht_ok H (ht_new default_size)" by (rule ht_ok_new) (simp_all add: default_size_def)
  show "\<And>k. ht_find H (ht_new default_size) k = None"
    using find_pairs [OF ht_wf_new [of default_size H]] by (simp add: default_size_def)
  show "\<And>m. ht_ok H m \<Longrightarrow> map_of (ht_pairs m) = ht_find H m"
    by (simp add: find_pairs [OF ht_ok_wf] fun_eq_iff)
qed (simp_all add: put_ok remove_ok remove_find pairs_distinct put_find [OF ht_ok_wf])

context hashing
begin

text \<open>Copying a table keeps its contents, whatever it does to the order.\<close>

lemma copy_ok:
  assumes "ht_ok H t"
  shows "ht_ok H (ht_copy H t)" and "ht_find H (ht_copy H t) = ht_find H t"
proof -
  have new: "ht_ok H (ht_new (ht_size t))"
    using assms by (intro ht_ok_new) (auto simp: ht_ok_def ht_wf_def)
  have emp: "ht_find H (ht_new (ht_size t)) = Map.empty"
    using assms by (intro find_new) (auto simp: ht_ok_def ht_wf_def)
  show "ht_ok H (ht_copy H t)"
    unfolding ht_copy_def ht_putAll_def by (rule tab.fold_upd_ok [OF new])
  show "ht_find H (ht_copy H t) = ht_find H t"
    unfolding ht_copy_def ht_putAll_def
    using tab.fold_upd_look [OF new tab.entries_distinct [OF assms]] tab.entries_look [OF assms]
    by (simp add: emp)
qed

lemma assign_put: "ht_assign H = ht_put H"
  by (auto simp: ht_assign_def ht_put_def fun_eq_iff split: option.splits)

lemma hasKey_iff: "ht_hasKey H t k \<longleftrightarrow> k \<in> dom (ht_find H t)"
  by (simp add: ht_hasKey_def dom_def)

lemma count_card: "ht_ok H t \<Longrightarrow> ht_count t = card (dom (ht_find H t))"
  by (simp add: ht_count_pairs tab.card_dom)

end

end
