(* ===== verification/Ident_Map.thy ===== *)
theory Ident_Map
  imports My_HTable "HOL-Library.FuncSet"
begin

text \<open>
  Identifiers and the two-way table between identifiers and polyhedron variables
  (\<open>Ident\<close>, \<open>idval_t\<close> and \<open>Mapping\<close> of \<open>include/PPLDomain.h\<close>). An
  identifier names a register, an address, a memory value or a loop counter; its partner is a
  variable number with the step of the array it describes. The invariant is that the two hash
  tables are inverse to each other; every operation keeps it, and \<open>operator==\<close> decides
  equality of the mappings, whatever the layout of the tables.
\<close>

datatype ident_type =
    ID_REG | ID_REG_INPUT | ID_MEM_ADDR | ID_MEM_COUNT | ID_MEM_VAL | ID_MEM_VAL_PLUS
  | ID_MEM_VAL_MINUS | ID_MEM_VAL_INPUT | ID_SPECIAL | ID_LOOP | ID_INVALID | ID_MAX_TYPE

record ident =
  id_num :: int
  id_type :: ident_type

abbreviation Ident :: "int \<Rightarrow> ident_type \<Rightarrow> ident" where
  "Ident n t \<equiv> \<lparr>id_num = n, id_type = t\<rparr>"

definition ident_invalid :: ident where
  "ident_invalid = Ident 0 ID_INVALID"

definition ID_START_SP :: int where "ID_START_SP = 0"
definition ID_START_FP :: int where "ID_START_FP = 1"
definition ID_START_LR :: int where "ID_START_LR = 2"

definition hash_ident :: "ident hkey" where
  "hash_ident = \<lparr>hk_hash = (\<lambda>k. word_of_int (id_num k)),
     hk_equals = (\<lambda>a b. id_num a = id_num b \<and> id_type a = id_type b)\<rparr>"

text \<open>\<open>idval_t\<close>; \<open>NO_STEP\<close> marks a variable that is not an array base.\<close>

record idval =
  iv_g :: guid
  iv_s :: int

abbreviation idval_t :: "guid \<Rightarrow> int \<Rightarrow> idval" where
  "idval_t g s \<equiv> \<lparr>iv_g = g, iv_s = s\<rparr>"

definition NO_STEP :: int where "NO_STEP = -1"
definition STEP_BOT :: int where "STEP_BOT = 0"
definition MAX_STEP :: int where "MAX_STEP = 16"

definition hash_idval :: "idval hkey" where
  "hash_idval = \<lparr>hk_hash = (\<lambda>v.
       let prime = 31; result = 1;
           result = prime * result + word_of_nat (iv_g v);
           result = prime * result + word_of_int (iv_s v) in result),
     hk_equals = (\<lambda>a b. iv_g a = iv_g b \<and> iv_s a = iv_s b)\<rparr>"

text \<open>\<open>LEVect\<close>: a vector of coefficients; \<open>get_ui\<close> is the absolute value, truncated.\<close>

definition hash_levect :: "int list hkey" where
  "hash_levect = \<lparr>hk_hash = (\<lambda>v. fold (\<lambda>c r. 31 * r + word_of_int \<bar>c\<bar>) v 1), hk_equals = (=)\<rparr>"

interpretation hident: hashing hash_ident
  proof
  show "hk_equals hash_ident a b = (a = b)" for a b
    by (cases a; cases b) (simp add: hash_ident_def)
qed

interpretation hidval: hashing hash_idval
  proof
  show "hk_equals hash_idval a b = (a = b)" for a b
    by (cases a; cases b) (simp add: hash_idval_def)
qed

interpretation hlevect: hashing hash_levect
  by unfold_locales (simp add: hash_levect_def)

record mapping =
  id2guid :: "(ident, idval) htable"
  guid2id :: "(idval, ident) htable"

definition im_new :: mapping where
  "im_new = \<lparr>id2guid = ht_new default_size, guid2id = ht_new default_size\<rparr>"

text \<open>The copy of a \<open>Mapping\<close> copies both tables into cleared ones.\<close>

definition im_copy :: "mapping \<Rightarrow> mapping" where
  "im_copy src = \<lparr>id2guid = ht_copy_into hash_ident (id2guid src) (ht_new default_size),
     guid2id = ht_copy_into hash_idval (guid2id src) (ht_new default_size)\<rparr>"

definition im_includes :: "mapping \<Rightarrow> mapping \<Rightarrow> bool" where
  "im_includes m src \<longleftrightarrow>
     list_all (\<lambda>(i, g). ht_find hash_ident (id2guid src) i = Some g) (ht_pairs (id2guid m)) \<and>
     list_all (\<lambda>(g, i). ht_find hash_idval (guid2id src) g = Some i) (ht_pairs (guid2id m))"

definition im_equal :: "mapping \<Rightarrow> mapping \<Rightarrow> bool" where
  "im_equal m src \<longleftrightarrow> im_includes m src \<and> im_includes src m"

definition im_has1 :: "mapping \<Rightarrow> ident \<Rightarrow> bool" where
  "im_has1 m i = ht_hasKey hash_ident (id2guid m) i"

definition im_has2 :: "mapping \<Rightarrow> idval \<Rightarrow> bool" where
  "im_has2 m g = ht_hasKey hash_idval (guid2id m) g"

text \<open>\<open>find1\<close>, \<open>find2\<close>: the table's \<open>operator[]\<close> asserts that the key exists.\<close>

definition im_find1 :: "mapping \<Rightarrow> ident \<Rightarrow> idval option" where
  "im_find1 m i = ht_at hash_ident (id2guid m) i"

definition im_find2 :: "mapping \<Rightarrow> idval \<Rightarrow> ident option" where
  "im_find2 m g = ht_at hash_idval (guid2id m) g"

definition im_add :: "ident \<Rightarrow> idval \<Rightarrow> mapping \<Rightarrow> mapping" where
  "im_add i g m =
     (let m1 = (case ht_find hash_ident (id2guid m) i of
                  Some g' \<Rightarrow> m\<lparr>guid2id := ht_remove hash_idval g' (guid2id m)\<rparr> | None \<Rightarrow> m);
          m2 = (case ht_find hash_idval (guid2id m1) g of
                  Some i' \<Rightarrow> m1\<lparr>id2guid := ht_remove hash_ident i' (id2guid m1)\<rparr> | None \<Rightarrow> m1)
      in \<lparr>id2guid = ht_assign hash_ident i g (id2guid m2),
          guid2id = ht_assign hash_idval g i (guid2id m2)\<rparr>)"

definition im_del1 :: "ident \<Rightarrow> mapping \<Rightarrow> mapping option" where
  "im_del1 i m = do {
     g \<leftarrow> ht_at hash_ident (id2guid m) i;
     Some \<lparr>id2guid = ht_remove hash_ident i (id2guid m),
       guid2id = ht_remove hash_idval g (guid2id m)\<rparr> }"

definition im_del2 :: "idval \<Rightarrow> mapping \<Rightarrow> mapping option" where
  "im_del2 g m = do {
     i \<leftarrow> ht_at hash_idval (guid2id m) g;
     Some \<lparr>id2guid = ht_remove hash_ident i (id2guid m),
       guid2id = ht_remove hash_idval g (guid2id m)\<rparr> }"

definition im_pairs :: "mapping \<Rightarrow> (ident \<times> idval) list" where
  "im_pairs m = ht_pairs (id2guid m)"

definition im_count :: "mapping \<Rightarrow> nat option" where
  "im_count m = do {
     assert_that (ht_count (id2guid m) = ht_count (guid2id m)); Some (ht_count (id2guid m)) }"

subsection \<open>The two tables are inverse\<close>

definition im_ok :: "mapping \<Rightarrow> bool" where
  "im_ok m \<longleftrightarrow> ht_ok hash_ident (id2guid m) \<and> ht_ok hash_idval (guid2id m) \<and>
     (\<forall>i g. im_find1 m i = Some g \<longleftrightarrow> im_find2 m g = Some i)"

lemmas im_finds = im_find1_def im_find2_def im_has1_def im_has2_def ht_at_def ht_hasKey_def

lemma im_okI:
  assumes "ht_ok hash_ident (id2guid m)" and "ht_ok hash_idval (guid2id m)"
    and "\<And>i g. im_find1 m i = Some g \<longleftrightarrow> im_find2 m g = Some i"
  shows "im_ok m"
  using assms by (simp add: im_ok_def)

lemma im_ok_inv: "im_ok m \<Longrightarrow> im_find1 m i = Some g \<longleftrightarrow> im_find2 m g = Some i"
  by (simp add: im_ok_def)

lemma im_new_ok [simp]: "im_ok im_new"
  by (simp add: im_ok_def im_new_def im_finds hident.tab.emp_ok hidval.tab.emp_ok
      hident.tab.look_emp hidval.tab.look_emp)

lemma im_new_find [simp]: "im_find1 im_new i = None" "im_find2 im_new g = None"
  by (simp_all add: im_new_def im_finds hident.tab.look_emp hidval.tab.look_emp)

lemma im_copy_ok:
  assumes "im_ok m"
  shows "im_ok (im_copy m)" and "im_find1 (im_copy m) = im_find1 m" and "im_find2 (im_copy m) = im_find2 m"
proof -
  have 1: "ht_ok hash_ident (id2guid m)" and 2: "ht_ok hash_idval (guid2id m)"
    using assms by (simp_all add: im_ok_def)
  have c: "ht_copy_into H t (ht_new default_size) = fold (\<lambda>(k, v). ht_put H k v) (ht_pairs t) (ht_new default_size)"
    for H :: "'k hkey" and t :: "('k, 'v) htable"
    by (simp add: ht_copy_into_def ht_putAll_def ht_clear_new)
  show f: "im_find1 (im_copy m) = im_find1 m" "im_find2 (im_copy m) = im_find2 m"
    using hident.tab.rebuild [OF 1] hidval.tab.rebuild [OF 2]
    by (simp_all add: im_copy_def im_finds c fun_eq_iff)
  show "im_ok (im_copy m)"
    using assms unfolding im_ok_def f
    by (simp add: im_copy_def c hident.tab.fold_upd_ok [OF hident.tab.emp_ok]
        hidval.tab.fold_upd_ok [OF hidval.tab.emp_ok])
qed

lemma im_add_finds:
  assumes ok: "im_ok m"
  shows "im_ok (im_add i g m)"
    and "im_find1 (im_add i g m) i' = (if i' = i then Some g
      else if im_find1 m i' = Some g then None else im_find1 m i')"
    and "im_find2 (im_add i g m) g' = (if g' = g then Some i
      else if im_find2 m g' = Some i then None else im_find2 m g')"
proof -
  have 1: "ht_ok hash_ident (id2guid m)" and 2: "ht_ok hash_idval (guid2id m)"
    and inv: "\<And>i g. ht_find hash_ident (id2guid m) i = Some g \<longleftrightarrow> ht_find hash_idval (guid2id m) g = Some i"
    using ok by (simp_all add: im_ok_def im_finds)
  note laws = hident.assign_put hidval.assign_put hident.tab.look_upd hidval.tab.look_upd
    hident.tab.look_del hidval.tab.look_del hident.tab.upd_ok hidval.tab.upd_ok
    hident.tab.del_ok hidval.tab.del_ok
  show f1: "im_find1 (im_add i g m) i' = (if i' = i then Some g
      else if im_find1 m i' = Some g then None else im_find1 m i')" for i'
    using inv 1 2 by (auto simp: im_add_def Let_def im_finds laws split: option.splits) 
  show f2: "im_find2 (im_add i g m) g' = (if g' = g then Some i
      else if im_find2 m g' = Some i then None else im_find2 m g')" for g'
    using inv [symmetric] 1 2 by (auto simp: im_add_def Let_def im_finds laws split: option.splits)
  have ok12: "ht_ok hash_ident (id2guid (im_add i g m))" "ht_ok hash_idval (guid2id (im_add i g m))"
    using 1 2 by (simp_all add: im_add_def Let_def laws split: option.splits)
  have "im_find1 (im_add i g m) a = Some b \<longleftrightarrow> im_find2 (im_add i g m) b = Some a" for a b
    using im_ok_inv [OF ok] im_ok_inv [OF ok, of a g] by (simp add: f1 f2) (metis option.inject option.distinct(1))
  then show "im_ok (im_add i g m)" using ok12 by (intro im_okI)
qed

lemma im_del_finds:
  assumes ok: "im_ok m" and f: "im_find1 m i = Some g"
  obtains m' where "im_del1 i m = Some m'" and "im_del2 g m = Some m'" and "im_ok m'"
    and "\<And>i'. im_find1 m' i' = (if i' = i then None else im_find1 m i')"
    and "\<And>g'. im_find2 m' g' = (if g' = g then None else im_find2 m g')"
proof -
  let ?m = "\<lparr>id2guid = ht_remove hash_ident i (id2guid m), guid2id = ht_remove hash_idval g (guid2id m)\<rparr>"
  have 1: "ht_ok hash_ident (id2guid m)" and 2: "ht_ok hash_idval (guid2id m)" using ok by (simp_all add: im_ok_def)
  have f2: "im_find2 m g = Some i" using f im_ok_inv [OF ok] by simp
  have d: "im_find1 ?m i' = (if i' = i then None else im_find1 m i')"
    "im_find2 ?m g' = (if g' = g then None else im_find2 m g')" for i' g'
    using 1 2 by (simp_all add: im_finds hident.tab.look_del hidval.tab.look_del)
  have "im_ok ?m"
  proof (rule im_okI)
    show "ht_ok hash_ident (id2guid ?m)" "ht_ok hash_idval (guid2id ?m)"
      using 1 2 by (simp_all add: hident.tab.del_ok hidval.tab.del_ok)
    show "im_find1 ?m a = Some b \<longleftrightarrow> im_find2 ?m b = Some a" for a b
      using im_ok_inv [OF ok] f f2 by (simp only: d) (metis option.distinct(1) option.inject)
  qed
  moreover have "im_del1 i m = Some ?m" "im_del2 g m = Some ?m"
    using f f2 by (simp_all add: im_del1_def im_del2_def im_finds)
  ultimately show thesis using that d by blast
qed

lemma im_pairs_iff: "im_ok m \<Longrightarrow> (i, g) \<in> set (im_pairs m) \<longleftrightarrow> im_find1 m i = Some g"
  by (simp add: im_pairs_def im_finds hident.tab.entries_iff im_ok_def)

lemma im_includes_iff:
  assumes "im_ok m" and "im_ok m'"
  shows "im_includes m m' \<longleftrightarrow> im_find1 m \<subseteq>\<^sub>m im_find1 m'"
proof -
  have e: "list_all (\<lambda>(k, v). f k = Some v) ps \<longleftrightarrow> h \<subseteq>\<^sub>m f"
    if "\<And>k v. (k, v) \<in> set ps \<longleftrightarrow> h k = Some v" for ps :: "('k \<times> 'v) list" and f h :: "'k \<Rightarrow> 'v option"
  proof -
    have "list_all (\<lambda>(k, v). f k = Some v) ps \<longleftrightarrow> (\<forall>k v. (k, v) \<in> set ps \<longrightarrow> f k = Some v)"
      by (auto simp: list_all_iff)
    also have "\<dots> \<longleftrightarrow> (\<forall>k v. h k = Some v \<longrightarrow> f k = Some v)" using that by simp
    finally have "list_all (\<lambda>(k, v). f k = Some v) ps \<longleftrightarrow> (\<forall>k v. h k = Some v \<longrightarrow> f k = Some v)" .
    then show ?thesis by (auto simp: map_le_def dom_def)
  qed
  have "list_all (\<lambda>(i, g). ht_find hash_ident (id2guid m') i = Some g) (ht_pairs (id2guid m)) \<longleftrightarrow>
      ht_find hash_ident (id2guid m) \<subseteq>\<^sub>m ht_find hash_ident (id2guid m')"
    by (rule e) (use assms(1) in \<open>simp add: hident.tab.entries_iff im_ok_def\<close>)
  moreover have "list_all (\<lambda>(g, i). ht_find hash_idval (guid2id m') g = Some i) (ht_pairs (guid2id m)) \<longleftrightarrow>
      ht_find hash_idval (guid2id m) \<subseteq>\<^sub>m ht_find hash_idval (guid2id m')"
    by (rule e) (use assms(1) in \<open>simp add: hidval.tab.entries_iff im_ok_def\<close>)
  moreover have "im_find1 k = ht_find hash_ident (id2guid k)" "im_find2 k = ht_find hash_idval (guid2id k)" for k
    by (simp_all add: im_finds fun_eq_iff)
  moreover have "im_find1 m \<subseteq>\<^sub>m im_find1 m' \<Longrightarrow> im_find2 m \<subseteq>\<^sub>m im_find2 m'"
  proof -
    assume le: "im_find1 m \<subseteq>\<^sub>m im_find1 m'"
    have "im_find2 m' g = Some i" if "im_find2 m g = Some i" for g i
    proof -
      have "im_find1 m i = Some g" using that im_ok_inv [OF assms(1)] by simp
      then have "im_find1 m' i = Some g" using le by (metis domI map_le_def)
      then show ?thesis using im_ok_inv [OF assms(2)] by simp
    qed
    then show "im_find2 m \<subseteq>\<^sub>m im_find2 m'" by (fastforce simp: map_le_def)
  qed
  ultimately show ?thesis by (auto simp: im_includes_def)
qed

lemma im_equal_iff: "im_ok m \<Longrightarrow> im_ok m' \<Longrightarrow> im_equal m m' \<longleftrightarrow> im_find1 m = im_find1 m'"
  by (auto simp: im_equal_def im_includes_iff intro: map_le_antisym)

lemma im_inj: "im_ok m \<Longrightarrow> im_find1 m a = Some g \<Longrightarrow> im_find1 m b = Some g \<Longrightarrow> a = b"
  using im_ok_inv by (metis option.inject)

lemma im_count_total:
  assumes "im_ok m"
  shows "im_count m = Some (card (dom (im_find1 m)))"
proof -
  have e: "im_find1 m = ht_find hash_ident (id2guid m)" "im_find2 m = ht_find hash_idval (guid2id m)"
    by (simp_all add: im_finds fun_eq_iff)
  have ok: "ht_ok hash_ident (id2guid m)" "ht_ok hash_idval (guid2id m)" using assms by (simp_all add: im_ok_def)
  have fin: "finite (dom (im_find2 m))" unfolding e by (rule hidval.tab.finite_dom [OF ok(2)])
  have "bij_betw (\<lambda>i. the (im_find1 m i)) (dom (im_find1 m)) (dom (im_find2 m))"
  proof (rule bij_betwI [where g = "\<lambda>g. the (im_find2 m g)"])
    have 1: "im_find2 m (the (im_find1 m i)) = Some i" if "i \<in> dom (im_find1 m)" for i
    proof -
      obtain g where "im_find1 m i = Some g" using \<open>i \<in> dom (im_find1 m)\<close> by blast
      moreover from this have "im_find2 m g = Some i" by (rule im_ok_inv [OF assms, THEN iffD1])
      ultimately show ?thesis by simp
    qed
    have 2: "im_find1 m (the (im_find2 m g)) = Some g" if "g \<in> dom (im_find2 m)" for g
    proof -
      obtain i where "im_find2 m g = Some i" using \<open>g \<in> dom (im_find2 m)\<close> by blast
      moreover from this have "im_find1 m i = Some g" by (rule im_ok_inv [OF assms, THEN iffD2])
      ultimately show ?thesis by simp
    qed
    show "(\<lambda>i. the (im_find1 m i)) \<in> dom (im_find1 m) \<rightarrow> dom (im_find2 m)"
      "(\<lambda>g. the (im_find2 m g)) \<in> dom (im_find2 m) \<rightarrow> dom (im_find1 m)"
      by (rule funcsetI, use 1 in blast) (rule funcsetI, use 2 in blast)
    show "the (im_find2 m (the (im_find1 m i))) = i" if "i \<in> dom (im_find1 m)" for i
      using 1 [OF that] by simp
    show "the (im_find1 m (the (im_find2 m g))) = g" if "g \<in> dom (im_find2 m)" for g
      using 2 [OF that] by simp
  qed
  then have "card (dom (im_find1 m)) = card (dom (im_find2 m))" by (rule bij_betw_same_card)
  then show ?thesis
    using hident.count_card [OF ok(1)] hidval.count_card [OF ok(2)] by (simp add: im_count_def e)
qed

end
