(* ===== verification/Domain.thy ===== *)
theory Domain
  imports W_Poly_Ops Ident_Map
begin

text \<open>
  The abstract state (\<open>PPLDomain\<close> of \<open>include/PPLDomain.h\<close> and
  \<open>poly_PPLDomain.cpp\<close>): a polyhedron over variables, the mapping from identifiers to
  variables, the variables waiting to be projected out, the register of the last comparison
  and the loop bounds found so far. This theory has the state, its constructors and copies,
  and the operations on variables and identifiers. \<open>WVar::_guid_generator\<close>, the global
  source of fresh variable numbers, is passed explicitly and returned by what advances it.
\<close>

subsection \<open>What the state is computed from\<close>

text \<open>Conditions and semantic instructions of OTAWA (\<open>otawa/sem/inst.h\<close>).\<close>

datatype cond = NO_COND | EQ | LT | LE | GE | GT | ANY_COND | NE | ULT | ULE | UGE | UGT | MAX_COND

record segment =
  seg_address :: "32 word"
  seg_size :: "32 word"
  seg_writable :: bool

text \<open>
  The environment of the analysis: the polyhedra library, the inversion of conditions
  (\<open>sem::invert\<close>), the hash function of variable numbers, the content of fresh memory, the
  segments of the program, the lookup of the segment at an address (\<open>findSegmentAt\<close>) and
  the initial values of its memory (\<open>dfa::INITIAL_STATE\<close>, \<open>None\<close> when its \<open>get\<close> throws). None of them is code of this repository.
\<close>

record 'p env =
  e_ppl :: "'p ppl"
  e_invert :: "cond \<Rightarrow> cond"
  e_guid_hash :: "guid \<Rightarrow> hash"
  e_junk :: int
  e_segments :: "segment list"
  e_segment_at :: "32 word \<Rightarrow> segment option"
  e_initial :: "32 word \<Rightarrow> 32 word option"

definition hash_guid :: "'p env \<Rightarrow> guid hkey" where
  "hash_guid E = \<lparr>hk_hash = e_guid_hash E, hk_equals = (=)\<rparr>"

definition hash_int :: "int hkey" where
  "hash_int = \<lparr>hk_hash = word_of_int, hk_equals = (=)\<rparr>"

interpretation hint: hashing hash_int
  by unfold_locales (simp add: hash_int_def)

lemma hash_int_hashing: "hashing hash_int"
  by (rule hint.hashing_axioms)

lemma hash_guid_hashing: "hashing (hash_guid E)"
  by unfold_locales (simp add: hash_guid_def)

text \<open>\<open>get_ui\<close>, \<open>get_si\<close> of a GMP integer: the low 64 bits of the absolute value.\<close>

definition get_ui :: "int \<Rightarrow> int" where
  "get_ui x = \<bar>x\<bar> mod 2 ^ 64"

definition UNREACHABLE :: int where "UNREACHABLE = -1"
definition UNBOUNDED :: int where "UNBOUNDED = -2"

definition STACK_TOP :: int where "STACK_TOP = - 0x60000000"
definition STACK_SIZE :: int where "STACK_SIZE = 0x10000000"

abbreviation V :: "guid \<Rightarrow> wlin" where "V \<equiv> le_var"
abbreviation K :: "int \<Rightarrow> wlin" where "K \<equiv> le_const"

subsection \<open>The state\<close>

record 'p domain =
  d_poly :: "'p wpoly"
  d_idmap :: mapping
  d_victims :: "guid list"
  d_compare_reg :: ident
  d_compare_op :: cond
  d_mem_ref :: int
  d_num_axis :: int
  d_bounds :: "int list"
  d_summary :: "ident list option"

definition dom_bottom :: "'p env \<Rightarrow> 'p domain" where
  "dom_bottom E = \<lparr>d_poly = wp_new (e_ppl E) True, d_idmap = im_new, d_victims = [],
     d_compare_reg = ident_invalid, d_compare_op = EQ, d_mem_ref = 0, d_num_axis = -1,
     d_bounds = [], d_summary = None\<rparr>"

definition dom_top :: "'p env \<Rightarrow> ident list option \<Rightarrow> 'p domain" where
  "dom_top E summary = \<lparr>d_poly = wp_new (e_ppl E) False, d_idmap = im_new, d_victims = [],
     d_compare_reg = ident_invalid, d_compare_op = EQ, d_mem_ref = 0, d_num_axis = 0,
     d_bounds = [], d_summary = summary\<rparr>"

text \<open>
  The copy constructor and the assignment operator: everything is copied, the tables of the
  mapping node by node, and the result is compared with the source.
\<close>

definition dom_copy :: "'p domain \<Rightarrow> 'p domain option" where
  "dom_copy src = do {
     assert_that (im_equal (im_copy (d_idmap src)) (d_idmap src));
     Some (src\<lparr>d_idmap := im_copy (d_idmap src)\<rparr>) }"

definition isBottom :: "'p env \<Rightarrow> 'p domain \<Rightarrow> bool" where
  "isBottom E d \<longleftrightarrow> d_num_axis d = -1 \<or> wp_is_empty (e_ppl E) (d_poly d)"

definition setBottom :: "'p env \<Rightarrow> 'p domain \<Rightarrow> 'p domain" where
  "setBottom E d = dom_bottom E"

definition hasFilter :: "'p domain \<Rightarrow> bool" where
  "hasFilter d \<longleftrightarrow> id_type (d_compare_reg d) \<noteq> ID_INVALID"

definition getVarIDCount :: "'p env \<Rightarrow> 'p domain \<Rightarrow> nat" where
  "getVarIDCount E d = wp_variable_count (e_ppl E) (d_poly d)"

definition getConsCount :: "'p env \<Rightarrow> 'p domain \<Rightarrow> nat option" where
  "getConsCount E d = map_option length (wp_constraints (e_ppl E) (d_poly d))"

text \<open>\<open>getBound\<close> and \<open>setBound\<close>; a vector that grows does not initialise the new cells.\<close>

definition getBound :: "'p domain \<Rightarrow> nat \<Rightarrow> int" where
  "getBound d loop = (if length (d_bounds d) \<le> loop then 0 else d_bounds d ! loop)"

definition setBound :: "'p env \<Rightarrow> nat \<Rightarrow> int \<Rightarrow> 'p domain \<Rightarrow> 'p domain" where
  "setBound E loop b d =
     (let bs = d_bounds d in
      if b = 0 then d
      else if length bs \<le> loop
        then d\<lparr>d_bounds := (bs @ replicate (loop + 1 - length bs) (e_junk E))[loop := b]\<rparr>
      else if bs ! loop \<noteq> UNBOUNDED \<and> (bs ! loop < b \<or> b = UNBOUNDED)
        then d\<lparr>d_bounds := bs[loop := b]\<rparr>
      else d)"

subsection \<open>Constraints and identifiers\<close>

definition doNewConstraint :: "'p env \<Rightarrow> wcons \<Rightarrow> 'p domain \<Rightarrow> 'p domain" where
  "doNewConstraint E c d = d\<lparr>d_poly := wp_add_constraint (e_ppl E) c (d_poly d)\<rparr>"

text \<open>A query on a non-constant object may give the variables it mentions new dimensions.\<close>

definition poly_implies :: "'p env \<Rightarrow> wcons \<Rightarrow> 'p domain \<Rightarrow> bool \<times> 'p domain" where
  "poly_implies E c d =
     (let (b, w) = wp_included (e_ppl E) c (d_poly d) in (b, d\<lparr>d_poly := w\<rparr>))"

definition poly_implies_const :: "'p env \<Rightarrow> 'p domain \<Rightarrow> wcons \<Rightarrow> bool option" where
  "poly_implies_const E d c = wp_included_const (e_ppl E) (d_poly d) c"

definition hasIdent :: "'p domain \<Rightarrow> ident \<Rightarrow> bool" where
  "hasIdent d i = im_has1 (d_idmap d) i"

definition isVarMapped :: "'p domain \<Rightarrow> guid \<Rightarrow> int \<Rightarrow> bool" where
  "isVarMapped d v step = im_has2 (d_idmap d) (idval_t v step)"

definition getIdent :: "'p domain \<Rightarrow> idval \<Rightarrow> ident option" where
  "getIdent d iv = im_find2 (d_idmap d) iv"

text \<open>\<open>getIdent(g, &step)\<close> tries the steps in turn and asserts that one of them is mapped.\<close>

definition getIdent_step :: "'p domain \<Rightarrow> guid \<Rightarrow> (ident \<times> int) option" where
  "getIdent_step d g = do {
     s \<leftarrow> List.find (\<lambda>s. im_has2 (d_idmap d) (idval_t g s)) (map (\<lambda>k. int k - 1) [0..<17]);
     i \<leftarrow> im_find2 (d_idmap d) (idval_t g s);
     Some (i, s) }"

text \<open>\<open>getVar(ident, step)\<close>: an address must be read together with its step.\<close>

definition getVar :: "'p domain \<Rightarrow> ident \<Rightarrow> bool \<Rightarrow> idval option" where
  "getVar d i with_step = do {
     assert_that (id_type i = ID_MEM_ADDR \<longrightarrow> with_step);
     im_find1 (d_idmap d) i }"

definition getVar0 :: "'p domain \<Rightarrow> ident \<Rightarrow> guid option" where
  "getVar0 d i = map_option iv_g (getVar d i False)"

definition varNew :: "ident \<Rightarrow> int \<Rightarrow> bool \<Rightarrow> 'p domain \<Rightarrow> guid \<Rightarrow> (guid \<times> 'p domain \<times> guid) option" where
  "varNew i step allow_replace d gen = do {
     assert_that (if id_type i = ID_MEM_ADDR then step \<noteq> NO_STEP else step = NO_STEP);
     d' \<leftarrow> (case im_find1 (d_idmap d) i of
        None \<Rightarrow> Some d
      | Some iv \<Rightarrow> do {
          assert_that allow_replace;
          assert_that (step = NO_STEP);
          Some (d\<lparr>d_victims := d_victims d @ [iv_g iv]\<rparr>) });
     Some (gen, d'\<lparr>d_idmap := im_add i (idval_t gen step) (d_idmap d')\<rparr>, gen + 1) }"

definition varKill :: "idval \<Rightarrow> 'p domain \<Rightarrow> 'p domain option" where
  "varKill iv d = do {
     m \<leftarrow> im_del2 iv (d_idmap d);
     Some (d\<lparr>d_idmap := m, d_victims := d_victims d @ [iv_g iv]\<rparr>) }"

definition varKillIdent :: "ident \<Rightarrow> 'p domain \<Rightarrow> 'p domain option" where
  "varKillIdent i d = do { iv \<leftarrow> im_find1 (d_idmap d) i; varKill iv d }"

definition varKillVar :: "guid \<Rightarrow> int \<Rightarrow> 'p domain \<Rightarrow> 'p domain option" where
  "varKillVar v step d = varKill (idval_t v step) d"

definition getVarOrNew :: "ident \<Rightarrow> 'p domain \<Rightarrow> guid \<Rightarrow> (guid \<times> 'p domain \<times> guid) option" where
  "getVarOrNew i d gen = do {
     assert_that (id_type i = ID_REG);
     if \<not> hasIdent d i then varNew i NO_STEP False d gen
     else do { v \<leftarrow> getVar0 d i; Some (v, d, gen) } }"

subsection \<open>Folding and expanding variables\<close>

definition doFold :: "'p env \<Rightarrow> guid \<Rightarrow> guid \<Rightarrow> guid \<Rightarrow> 'p domain \<Rightarrow> 'p domain option" where
  "doFold E s v1 v2 d = do {
     let tmp = d_poly d;
     let p = wp_add_constraint (e_ppl E) (w_eq (V s) (V v1)) (d_poly d);
     let tmp = wp_add_constraint (e_ppl E) (w_eq (V s) (V v2)) tmp;
     p' \<leftarrow> wp_hull (e_ppl E) p tmp;
     Some (d\<lparr>d_poly := p'\<rparr>) }"

definition doExpand :: "'p env \<Rightarrow> guid \<Rightarrow> guid \<Rightarrow> 'p domain \<Rightarrow> 'p domain option" where
  "doExpand E s v1 d = do {
     tmp \<leftarrow> wp_map_lambda (e_ppl E)
       (\<lambda>i. Some (if i = s then v1 else if i = v1 then s else i)) (d_poly d);
     p \<leftarrow> wp_intersection (e_ppl E) (d_poly d) tmp;
     Some (d\<lparr>d_poly := p\<rparr>) }"

definition doAvExpand ::
  "'p env \<Rightarrow> guid \<Rightarrow> guid \<Rightarrow> guid \<Rightarrow> guid \<Rightarrow> 'p domain \<Rightarrow> 'p domain option" where
  "doAvExpand E splus sminus vplus vminus d = do {
     tmp \<leftarrow> wp_map_lambda (e_ppl E)
       (\<lambda>i. Some (if i = splus then vplus else if i = vplus then splus
                  else if i = vminus then sminus else if i = sminus then vminus else i)) (d_poly d);
     p \<leftarrow> wp_intersection (e_ppl E) (d_poly d) tmp;
     Some (d\<lparr>d_poly := p\<rparr>) }"

subsection \<open>Renaming and projecting\<close>

text \<open>
  \<open>MapWithHash\<close> and \<open>MapGuid\<close> read the partial function from a hash table; the
  first has \<open>int\<close> keys.
\<close>

definition map_with_hash :: "(int, int) htable \<Rightarrow> guid \<Rightarrow> guid option" where
  "map_with_hash t g = map_option nat (ht_find hash_int t (int g))"

definition map_guid :: "'p env \<Rightarrow> (guid, guid) htable \<Rightarrow> guid \<Rightarrow> guid option" where
  "map_guid E t g = ht_find (hash_guid E) t g"

definition doMapPoly :: "'p env \<Rightarrow> (guid \<Rightarrow> guid option) \<Rightarrow> 'p domain \<Rightarrow> 'p domain option" where
  "doMapPoly E f d =
     (if 0 < wp_variable_count (e_ppl E) (d_poly d)
      then do { p \<leftarrow> wp_map_vars (e_ppl E) f (d_poly d); Some (d\<lparr>d_poly := p\<rparr>) }
      else Some d)"

definition doMapIdents :: "(guid \<Rightarrow> guid option) \<Rightarrow> 'p domain \<Rightarrow> 'p domain" where
  "doMapIdents f d = d\<lparr>d_idmap := im_copy (fold (\<lambda>(i, iv) m.
     case f (iv_g iv) of Some g \<Rightarrow> im_add i (idval_t g (iv_s iv)) m | None \<Rightarrow> m)
     (im_pairs (d_idmap d)) im_new)\<rparr>"

definition doMap :: "'p env \<Rightarrow> (guid \<Rightarrow> guid option) \<Rightarrow> 'p domain \<Rightarrow> 'p domain option" where
  "doMap E f d = do { d' \<leftarrow> doMapPoly E f d; Some (doMapIdents f d') }"

definition doScratch :: "'p env \<Rightarrow> ident \<Rightarrow> 'p domain \<Rightarrow> 'p domain option" where
  "doScratch E i d =
     (if \<not> hasIdent d i then Some d
      else do {
        iv \<leftarrow> getVar d i True;
        p \<leftarrow> wp_unconstrain (e_ppl E) (iv_g iv) (d_poly d);
        Some (d\<lparr>d_poly := p\<rparr>) })"

subsection \<open>Killing variables\<close>

definition doKillTemporaries :: "'p domain \<Rightarrow> 'p domain option" where
  "doKillTemporaries d =
     foldM varKillIdent
       (map fst (filter (\<lambda>(i, iv). iv_s iv = NO_STEP \<and> id_type i = ID_REG \<and> id_num i < 0)
         (im_pairs (d_idmap d)))) d"

text \<open>Registers 0 (result), 13 (SP) and 14 (LR) and the comparison register are kept.\<close>

definition doKillRegisters :: "bool list \<Rightarrow> 'p domain \<Rightarrow> 'p domain option" where
  "doKillRegisters bv d =
     foldM varKillIdent
       (map fst (filter (\<lambda>(i, iv). iv_s iv = NO_STEP \<and> id_type i = ID_REG \<and> 0 \<le> id_num i \<and>
           id_num i < int (length bv) \<and> \<not> bv ! nat (id_num i) \<and> i \<noteq> d_compare_reg d \<and>
           id_num i \<noteq> 13 \<and> id_num i \<noteq> 14 \<and> id_num i \<noteq> 0)
         (im_pairs (d_idmap d)))) d"

definition doFinalizeUpdate :: "'p env \<Rightarrow> 'p domain \<Rightarrow> 'p domain option" where
  "doFinalizeUpdate E d =
     (if isBottom E d then Some (setBottom E d)
      else do {
        p \<leftarrow> foldM (wp_unconstrain (e_ppl E)) (d_victims d) (d_poly d);
        Some (d\<lparr>d_poly := p, d_victims := []\<rparr>) })"

subsection \<open>Loops\<close>

definition onLoopEntry :: "'p env \<Rightarrow> int \<Rightarrow> 'p domain \<Rightarrow> guid \<Rightarrow> ('p domain \<times> guid) option" where
  "onLoopEntry E loop d gen = do {
     s_out \<leftarrow> dom_copy d;
     (v, s_out, gen) \<leftarrow> varNew (Ident loop ID_LOOP) NO_STEP True s_out gen;
     Some (doNewConstraint E (w_eq (V v) (K 0)) s_out, gen) }"

definition onLoopIter :: "'p env \<Rightarrow> int \<Rightarrow> 'p domain \<Rightarrow> guid \<Rightarrow> ('p domain \<times> guid) option" where
  "onLoopIter E loop d gen = do {
     s_out \<leftarrow> dom_copy d;
     let i = Ident loop ID_LOOP;
     assert_that (hasIdent s_out i);
     v_old \<leftarrow> getVar0 s_out i;
     (v_new, s_out, gen) \<leftarrow> varNew i NO_STEP True s_out gen;
     Some (doNewConstraint E (w_eq (V v_new) (le_add (V v_old) (K 1))) s_out, gen) }"

definition onLoopExit :: "'p env \<Rightarrow> int \<Rightarrow> int \<Rightarrow> 'p domain \<Rightarrow> 'p domain option" where
  "onLoopExit E loop bound d = do {
     s_out \<leftarrow> dom_copy d;
     let i = Ident loop ID_LOOP;
     assert_that (hasIdent s_out i);
     v \<leftarrow> getVar0 s_out i;
     let s_out = (if bound \<ge> 0 then doNewConstraint E (w_le (V v) (K bound)) s_out else s_out);
     s_out \<leftarrow> varKillVar v NO_STEP s_out;
     Some (if wp_is_empty (e_ppl E) (d_poly s_out) then dom_bottom E else s_out) }"

end
