(* ===== verification/Topo_Order.thy ===== *)
theory Topo_Order
  imports Work_List Domain
begin

text \<open>
  The order in which the driver processes the blocks (\<open>PolyAnalysis::PseudoTopoOrder\<close> of
  \<open>poly_PolyAnalysis.cpp\<close>): a number for every loop header and every block, and the comparison
  built from them. What OTAWA computes on the blocks and edges of a graph is the record
  \<open>loops\<close>.
\<close>

subsection \<open>The numbering\<close>

record loops =
  li_header :: "nat \<Rightarrow> bool"
  li_enclosing :: "nat \<Rightarrow> nat option"
  li_back :: "nat \<Rightarrow> bool"
  li_dominates :: "nat \<Rightarrow> nat \<Rightarrow> bool"
  li_exit :: "nat \<Rightarrow> nat option"

record topo =
  tp_loop :: "(int, int) htable"
  tp_block :: "(int, int) htable"
  tp_belongs :: "(int, int) htable"
  tp_visited :: "bool list"
  tp_current :: int

text \<open>
  \<open>_topoLoopHelper\<close>: the headers directly inside the loop \<open>cl\<close> (\<open>-1\<close>: outside every loop),
  each with what is inside, then the loop itself. The recursion is bounded by \<open>fuel\<close>.
\<close>

definition directly_in :: "loops \<Rightarrow> int \<Rightarrow> nat \<Rightarrow> bool" where
  "directly_in L cl bb \<longleftrightarrow> li_header L bb \<and>
     (cl = -1 \<and> li_enclosing L bb = None \<or>
      cl \<noteq> -1 \<and> (case li_enclosing L bb of None \<Rightarrow> False | Some h \<Rightarrow> int h = cl))"

primrec topoLoopHelper :: "nat \<Rightarrow> graph \<Rightarrow> loops \<Rightarrow> int \<Rightarrow> topo \<Rightarrow> topo option" where
  "topoLoopHelper 0 g L cl t = None"
| "topoLoopHelper (Suc fuel) g L cl t = do {
     t \<leftarrow> foldM (\<lambda>bb t. if directly_in L cl bb then topoLoopHelper fuel g L (int bb) t else Some t)
       [0..<g_count g] t;
     Some (if cl \<noteq> -1
       then t\<lparr>tp_loop := ht_assign hash_int cl (tp_current t) (tp_loop t), tp_current := tp_current t + 1\<rparr>
       else t) }"

text \<open>\<open>_topoNodeHelper\<close>: the predecessors through forward edges, then the block.\<close>

definition topo_place :: "loops \<Rightarrow> nat \<Rightarrow> topo \<Rightarrow> topo" where
  "topo_place L v t = t\<lparr>
     tp_belongs := (if li_header L v then ht_assign hash_int (int v) (int v) (tp_belongs t)
       else case li_enclosing L v of Some h \<Rightarrow> ht_assign hash_int (int v) (int h) (tp_belongs t)
       | None \<Rightarrow> tp_belongs t),
     tp_block := ht_assign hash_int (int v) (tp_current t) (tp_block t),
     tp_current := tp_current t + 1,
     tp_visited := (tp_visited t)[v := True]\<rparr>"

primrec topoNodeHelper :: "nat \<Rightarrow> graph \<Rightarrow> loops \<Rightarrow> nat \<Rightarrow> topo \<Rightarrow> topo option" where
  "topoNodeHelper 0 g L v t = None"
| "topoNodeHelper (Suc fuel) g L v t =
     (if tp_visited t ! v then Some t
      else do {
        t \<leftarrow> foldM (\<lambda>e t. if \<not> li_back L e then topoNodeHelper fuel g L (sourceOf g e) t else Some t) (preds g v) t;
        Some (topo_place L v t) })"

definition getPseudoTopo :: "graph \<Rightarrow> loops \<Rightarrow> topo option" where
  "getPseudoTopo g L = do {
     t \<leftarrow> topoLoopHelper (g_count g + 1) g L (-1)
       \<lparr>tp_loop = ht_new default_size, tp_block = ht_new default_size, tp_belongs = ht_new default_size,
        tp_visited = replicate (g_count g) False, tp_current = 0\<rparr>;
     foldM (\<lambda>v t. if list_all (li_back L) (succs g v) then topoNodeHelper (g_count g) g L v t else Some t)
       [0..<g_count g] (t\<lparr>tp_current := 0\<rparr>) }"

text \<open>
  \<open>isBefore\<close>. Both comparisons of loop numbers are of the loop of the first block with itself.
\<close>

definition isBefore :: "topo \<Rightarrow> nat \<Rightarrow> nat \<Rightarrow> bool option" where
  "isBefore t b1 b2 =
     (let in1 = ht_hasKey hash_int (tp_belongs t) (int b1); in2 = ht_hasKey hash_int (tp_belongs t) (int b2) in
      if in1 \<and> \<not> in2 then Some True
      else if \<not> in1 \<and> in2 then Some False
      else do {
        r \<leftarrow> (if in1 then do {
            loopId \<leftarrow> ht_at hash_int (tp_belongs t) (int b1);
            o1 \<leftarrow> ht_at hash_int (tp_loop t) loopId;
            o2 \<leftarrow> ht_at hash_int (tp_loop t) loopId;
            Some (if o1 < o2 then Some True else if o1 > o2 then Some False else None) }
          else Some None);
        case r of Some b \<Rightarrow> Some b
        | None \<Rightarrow> do {
            n1 \<leftarrow> ht_at hash_int (tp_block t) (int b1);
            n2 \<leftarrow> ht_at hash_int (tp_block t) (int b2);
            Some (n1 < n2) } })"

subsection \<open>The comparison is a processing order\<close>

text \<open>A block is placed when it has its number and its loop, if any, has its number.\<close>

definition in_loop :: "topo \<Rightarrow> nat \<Rightarrow> bool" where
  "in_loop t v \<longleftrightarrow> ht_hasKey hash_int (tp_belongs t) (int v)"

definition placed :: "topo \<Rightarrow> nat set" where
  "placed t = {v. ht_find hash_int (tp_block t) (int v) \<noteq> None \<and>
     (\<forall>h. ht_find hash_int (tp_belongs t) (int v) = Some h \<longrightarrow> ht_find hash_int (tp_loop t) h \<noteq> None)}"

definition place_of :: "topo \<Rightarrow> nat \<Rightarrow> int" where
  "place_of t v = the (ht_find hash_int (tp_block t) (int v))"

text \<open>On placed blocks: those of loops first, then by number. The loop does not matter.\<close>

lemma isBefore_placed:
  assumes "a \<in> placed t" and "b \<in> placed t"
  shows "isBefore t a b = Some (in_loop t a \<and> \<not> in_loop t b \<or> in_loop t a = in_loop t b \<and> place_of t a < place_of t b)"
  using assms
  by (auto simp: isBefore_def placed_def in_loop_def place_of_def ht_at_def ht_hasKey_def Let_def split: if_splits)

interpretation pto: processing_order "isBefore t" "placed t" for t
  by unfold_locales (auto simp: isBefore_placed)

subsection \<open>Every block is placed\<close>

text \<open>
  What the analyses of OTAWA provide: the blocks can be numbered so that every edge that is
  not a back edge goes up, and every enclosing loop is the loop of a header that is less deep.
\<close>

definition loops_ok :: "graph \<Rightarrow> loops \<Rightarrow> (nat \<Rightarrow> nat) \<Rightarrow> (nat \<Rightarrow> nat) \<Rightarrow> bool" where
  "loops_ok g L rank depth \<longleftrightarrow>
     (\<forall>v < g_count g. rank v < g_count g \<and> depth v < g_count g) \<and>
     (\<forall>e < length (g_edges g). \<not> li_back L e \<longrightarrow> rank (sourceOf g e) < rank (sinkOf g e)) \<and>
     (\<forall>v < g_count g. \<forall>h. li_enclosing L v = Some h \<longrightarrow> h < g_count g \<and> li_header L h \<and> depth h < depth v)"

text \<open>The numbers of loops: every header inside \<open>cl\<close>, at any depth, gets one.\<close>

definition nest :: "graph \<Rightarrow> loops \<Rightarrow> int \<Rightarrow> int \<Rightarrow> bool" where
  "nest g L x y \<longleftrightarrow> (\<exists>b < g_count g. y = int b \<and> directly_in L x b)"

definition loop_keys :: "topo \<Rightarrow> int set" where
  "loop_keys t = dom (ht_find hash_int (tp_loop t))"

lemma loop_helper_keys:
  assumes "topoLoopHelper fuel g L cl t = Some t'" and "ht_wf hash_int (tp_loop t)"
  shows "ht_wf hash_int (tp_loop t')" and "loop_keys t \<subseteq> loop_keys t'" and "cl \<noteq> -1 \<Longrightarrow> cl \<in> loop_keys t'"
    and "(nest g L)\<^sup>+\<^sup>+ cl y \<Longrightarrow> y \<in> loop_keys t'"
    and "tp_block t' = tp_block t \<and> tp_belongs t' = tp_belongs t \<and> tp_visited t' = tp_visited t"
proof -
  let ?same = "\<lambda>t t'. tp_block t' = tp_block t \<and> tp_belongs t' = tp_belongs t \<and> tp_visited t' = tp_visited t"
  have "ht_wf hash_int (tp_loop t') \<and> loop_keys t \<subseteq> loop_keys t' \<and> (cl \<noteq> -1 \<longrightarrow> cl \<in> loop_keys t') \<and>
    (\<forall>y. (nest g L)\<^sup>+\<^sup>+ cl y \<longrightarrow> y \<in> loop_keys t') \<and> ?same t t'"
    using assms
  proof (induction fuel arbitrary: cl t t')
    case (Suc fuel)
    let ?f = "\<lambda>bb t. if directly_in L cl bb then topoLoopHelper fuel g L (int bb) t else Some t"
    have fold: "ht_wf hash_int (tp_loop t1) \<and> loop_keys t0 \<subseteq> loop_keys t1 \<and> ?same t0 t1 \<and>
        (\<forall>b \<in> set bs. directly_in L cl b \<longrightarrow> int b \<in> loop_keys t1 \<and> (\<forall>y. (nest g L)\<^sup>+\<^sup>+ (int b) y \<longrightarrow> y \<in> loop_keys t1))"
      if "foldM ?f bs t0 = Some t1" "ht_wf hash_int (tp_loop t0)" for bs t0 t1
      using that
    proof (induction bs arbitrary: t0)
      case (Cons b bs)
      from Cons.prems(1) obtain t2 where t2: "?f b t0 = Some t2" "foldM ?f bs t2 = Some t1"
        by (cases "?f b t0") simp_all
      show ?case
      proof (cases "directly_in L cl b")
        case True
        then have "topoLoopHelper fuel g L (int b) t0 = Some t2" using t2(1) by simp
        from Suc.IH [OF this Cons.prems(2)] Cons.IH [OF t2(2)] show ?thesis by auto
      next
        case False
        then have "t2 = t0" using t2(1) by simp
        then show ?thesis using Cons.IH [OF t2(2)] Cons.prems(2) False by auto
      qed
    qed simp
    from Suc.prems(1) obtain t1 where t1: "foldM ?f [0..<g_count g] t = Some t1"
      and t': "t' = (if cl \<noteq> -1
        then t1\<lparr>tp_loop := ht_assign hash_int cl (tp_current t1) (tp_loop t1), tp_current := tp_current t1 + 1\<rparr> else t1)"
      by (cases "foldM ?f [0..<g_count g] t") simp_all
    note f = fold [OF t1 Suc.prems(2)]
    have wf: "ht_wf hash_int (tp_loop t')" "loop_keys t1 \<subseteq> loop_keys t'" "cl \<noteq> -1 \<longrightarrow> cl \<in> loop_keys t'" "?same t1 t'"
      using f by (auto simp: t' loop_keys_def hint.assign_put hint.put_wf hint.put_find split: if_splits)
    have "y \<in> loop_keys t1" if "(nest g L)\<^sup>+\<^sup>+ cl y" for y
      using tranclpD [OF that] f by (auto simp: nest_def dest!: rtranclpD)
    then have below: "\<forall>y. (nest g L)\<^sup>+\<^sup>+ cl y \<longrightarrow> y \<in> loop_keys t'" using wf(2) by blast
    have "loop_keys t \<subseteq> loop_keys t'" using f wf(2) by blast
    then show ?case using f wf(1,3,4) below by simp
  qed simp
  then show "ht_wf hash_int (tp_loop t')" "loop_keys t \<subseteq> loop_keys t'" "cl \<noteq> -1 \<Longrightarrow> cl \<in> loop_keys t'"
    "(nest g L)\<^sup>+\<^sup>+ cl y \<Longrightarrow> y \<in> loop_keys t'" "?same t t'" by blast+
qed

lemma loop_helper_total:
  assumes L: "loops_ok g L rank depth"
    and "\<And>b. b < g_count g \<Longrightarrow> directly_in L cl b \<Longrightarrow> g_count g \<le> depth b + fuel"
  shows "topoLoopHelper (Suc fuel) g L cl t \<noteq> None"
  using assms(2)
proof (induction fuel arbitrary: cl t)
  case 0
  have "\<not> directly_in L cl b" if "b < g_count g" for b
    using 0 [OF that] that L by (auto simp: loops_ok_def)
  then have "foldM (\<lambda>bb t. if directly_in L cl bb then topoLoopHelper 0 g L (int bb) t else Some t) [0..<g_count g] t \<noteq> None"
    using foldM_total [of "\<lambda>t. True" t "[0..<g_count g]"
      "\<lambda>bb t. if directly_in L cl bb then topoLoopHelper 0 g L (int bb) t else Some t"] by simp
  then show ?case by auto
next
  case (Suc fuel)
  have "topoLoopHelper (Suc fuel) g L (int b) t \<noteq> None" if b: "b < g_count g" "directly_in L cl b" for b t
  proof (rule Suc.IH)
    fix c assume c: "c < g_count g" "directly_in L (int b) c"
    then have "depth b < depth c" using L by (auto simp: loops_ok_def directly_in_def split: option.splits)
    then show "g_count g \<le> depth c + fuel" using Suc.prems [OF b] by simp
  qed
  then have "foldM (\<lambda>bb t. if directly_in L cl bb then topoLoopHelper (Suc fuel) g L (int bb) t else Some t) [0..<g_count g] t \<noteq> None"
    using foldM_total [of "\<lambda>t. True" t "[0..<g_count g]"
      "\<lambda>bb t. if directly_in L cl bb then topoLoopHelper (Suc fuel) g L (int bb) t else Some t"] by fastforce
  then show ?case by (subst topoLoopHelper.simps(2)) (auto simp del: topoLoopHelper.simps)
qed

lemma headers_nested:
  assumes L: "loops_ok g L rank depth" and "h < g_count g" and "li_header L h"
  shows "(nest g L)\<^sup>+\<^sup>+ (-1) (int h)"
  using assms(2,3)
proof (induction "depth h" arbitrary: h rule: less_induct)
  case less
  show ?case
  proof (cases "li_enclosing L h")
    case None
    then show ?thesis using less.prems by (intro tranclp.r_into_trancl) (auto simp: nest_def directly_in_def)
  next
    case (Some p)
    then have p: "p < g_count g" "li_header L p" "depth p < depth h" using L less.prems by (auto simp: loops_ok_def)
    have "nest g L (int p) (int h)" using Some less.prems by (auto simp: nest_def directly_in_def)
    then show ?thesis using less.hyps [OF p(3,1,2)] by (rule tranclp.trancl_into_trancl [rotated])
  qed
qed

text \<open>
  The invariant of the numbering of blocks: the bits mirror the numbers, the numbers are
  distinct and below the next one, and a numbered block comes after its forward predecessors.
\<close>

definition nodes_ok :: "graph \<Rightarrow> loops \<Rightarrow> topo \<Rightarrow> bool" where
  "nodes_ok g L t \<longleftrightarrow> ht_wf hash_int (tp_block t) \<and> ht_wf hash_int (tp_belongs t) \<and>
     length (tp_visited t) = g_count g \<and>
     (\<forall>v < g_count g. tp_visited t ! v \<longleftrightarrow> ht_find hash_int (tp_block t) (int v) \<noteq> None) \<and>
     (\<forall>v < g_count g. ht_find hash_int (tp_belongs t) (int v) =
       (if tp_visited t ! v then if li_header L v then Some (int v) else map_option int (li_enclosing L v) else None)) \<and>
     (\<forall>v < g_count g. tp_visited t ! v \<longrightarrow> place_of t v < tp_current t) \<and>
     (\<forall>u < g_count g. \<forall>v < g_count g. tp_visited t ! u \<longrightarrow> tp_visited t ! v \<longrightarrow> place_of t u = place_of t v \<longrightarrow> u = v) \<and>
     (\<forall>e < length (g_edges g). \<not> li_back L e \<longrightarrow> tp_visited t ! sinkOf g e \<longrightarrow>
       tp_visited t ! sourceOf g e \<and> place_of t (sourceOf g e) < place_of t (sinkOf g e))"

lemma topo_place_simps:
  assumes "nodes_ok g L t" and "v < g_count g"
  shows "ht_wf hash_int (tp_block (topo_place L v t))" "ht_wf hash_int (tp_belongs (topo_place L v t))"
    "ht_find hash_int (tp_block (topo_place L v t)) = (ht_find hash_int (tp_block t))(int v \<mapsto> tp_current t)"
    "ht_find hash_int (tp_belongs (topo_place L v t)) = (if li_header L v then (ht_find hash_int (tp_belongs t))(int v \<mapsto> int v)
       else case li_enclosing L v of Some h \<Rightarrow> (ht_find hash_int (tp_belongs t))(int v \<mapsto> int h) | None \<Rightarrow> ht_find hash_int (tp_belongs t))"
    "place_of (topo_place L v t) u = (if u = v then tp_current t else place_of t u)"
    "tp_visited (topo_place L v t) = (tp_visited t)[v := True]" "tp_current (topo_place L v t) = tp_current t + 1"
    "tp_loop (topo_place L v t) = tp_loop t"
  using assms
  by (auto simp: nodes_ok_def topo_place_def place_of_def hint.assign_put hint.put_wf hint.put_find split: option.splits)

lemma topo_place_ok:
  assumes t: "nodes_ok g L t" and g: "graph_ok g" and v: "v < g_count g" and new: "\<not> tp_visited t ! v"
    and preds: "\<And>e. e \<in> set (preds g v) \<Longrightarrow> \<not> li_back L e \<Longrightarrow> tp_visited t ! sourceOf g e"
  shows "nodes_ok g L (topo_place L v t)"
proof -
  note s = topo_place_simps [OF t v]
  have len: "length (tp_visited t) = g_count g" using t by (simp add: nodes_ok_def)
  have vis: "tp_visited (topo_place L v t) ! u \<longleftrightarrow> u = v \<or> tp_visited t ! u" if "u < g_count g" for u
    using that len v by (simp add: s nth_list_update)
  have old: "place_of t u < tp_current t" if "u < g_count g" "tp_visited t ! u" for u
    using t that by (simp add: nodes_ok_def)
  have ends: "sourceOf g e < g_count g" "sinkOf g e < g_count g" if "e < length (g_edges g)" for e
    using g that by (auto simp: graph_ok_def)
  have edge: "tp_visited (topo_place L v t) ! sourceOf g e \<and>
      place_of (topo_place L v t) (sourceOf g e) < place_of (topo_place L v t) (sinkOf g e)"
    if e: "e < length (g_edges g)" "\<not> li_back L e" "tp_visited (topo_place L v t) ! sinkOf g e" for e
  proof (cases "sinkOf g e = v")
    case True
    then have "e \<in> set (preds g v)" using e(1) g v by (auto simp: graph_ok_def)
    then have src: "tp_visited t ! sourceOf g e" using preds e(2) by blast
    then have "sourceOf g e \<noteq> v" using new by auto
    then show ?thesis using src True old [OF ends(1) [OF e(1)] src] by (simp add: vis ends [OF e(1)] s(5))
  next
    case False
    then have sink: "tp_visited t ! sinkOf g e" using e(3) vis ends [OF e(1)] by blast
    then have "tp_visited t ! sourceOf g e" "place_of t (sourceOf g e) < place_of t (sinkOf g e)"
      using t e by (auto simp: nodes_ok_def)
    moreover from this have "sourceOf g e \<noteq> v" using new by auto
    ultimately show ?thesis using False by (simp add: vis ends [OF e(1)] s(5))
  qed
  have inj: "u = w" if "u < g_count g" "w < g_count g" "tp_visited (topo_place L v t) ! u" "tp_visited (topo_place L v t) ! w"
    "place_of (topo_place L v t) u = place_of (topo_place L v t) w" for u w
    using that t old [of u] old [of w] by (auto simp: vis s(5) nodes_ok_def split: if_splits)
  have find: "ht_find hash_int (tp_belongs (topo_place L v t)) (int u) =
      (if tp_visited (topo_place L v t) ! u then if li_header L u then Some (int u) else map_option int (li_enclosing L u) else None)"
    if "u < g_count g" for u
    using that t new v by (auto simp: vis s(4) nodes_ok_def split: option.splits)
  have mirror: "tp_visited (topo_place L v t) ! u \<longleftrightarrow> ht_find hash_int (tp_block (topo_place L v t)) (int u) \<noteq> None"
    if "u < g_count g" for u using that t by (auto simp: vis s(3) nodes_ok_def)
  have less: "place_of (topo_place L v t) u < tp_current (topo_place L v t)"
    if "u < g_count g" "tp_visited (topo_place L v t) ! u" for u using that old [of u] by (auto simp: vis s(5,7))
  show ?thesis
    using s(1,2) len mirror find less inj edge unfolding nodes_ok_def by (auto simp: s(6))
qed

lemma node_helper_total:
  assumes L: "loops_ok g L rank depth" and g: "graph_ok g"
    and "nodes_ok g L t" and "v < g_count g" and "rank v < fuel"
  shows "\<exists>t'. topoNodeHelper fuel g L v t = Some t' \<and> nodes_ok g L t' \<and> tp_visited t' ! v \<and>
    (\<forall>u < g_count g. tp_visited t ! u \<longrightarrow> tp_visited t' ! u) \<and>
    (\<forall>u < g_count g. tp_visited t' ! u \<longrightarrow> tp_visited t ! u \<or> rank u \<le> rank v) \<and> tp_loop t' = tp_loop t"
  using assms(3-)
proof (induction fuel arbitrary: v t)
  case (Suc fuel)
  show ?case
  proof (cases "tp_visited t ! v")
    case True
    then show ?thesis using Suc.prems by simp
  next
    case False
    let ?f = "\<lambda>e t. if \<not> li_back L e then topoNodeHelper fuel g L (sourceOf g e) t else Some t"
    let ?new = "\<lambda>t t'. \<forall>u < g_count g. (tp_visited t ! u \<longrightarrow> tp_visited t' ! u) \<and> (tp_visited t' ! u \<longrightarrow> tp_visited t ! u \<or> rank u < rank v)"
    have fold: "\<exists>t'. foldM ?f es t = Some t' \<and> nodes_ok g L t' \<and> (\<forall>e \<in> set es. \<not> li_back L e \<longrightarrow> tp_visited t' ! sourceOf g e) \<and>
        ?new t t' \<and> tp_loop t' = tp_loop t"
      if "nodes_ok g L t" "set es \<subseteq> set (preds g v)" for es t
      using that
    proof (induction es arbitrary: t)
      case (Cons e es)
      have e: "e < length (g_edges g)" "sinkOf g e = v" "sourceOf g e < g_count g"
        using Cons.prems(2) Suc.prems(2) g by (auto simp: graph_ok_def)
      show ?case
      proof (cases "li_back L e")
        case True
        then show ?thesis using Cons.IH [OF Cons.prems(1)] Cons.prems(2) by auto
      next
        case fwd: False
        then have up: "rank (sourceOf g e) < rank v" using L e by (auto simp: loops_ok_def)
        then have "rank (sourceOf g e) < fuel" using Suc.prems(3) by simp
        from Suc.IH [OF Cons.prems(1) e(3) this] obtain t1 where t1: "topoNodeHelper fuel g L (sourceOf g e) t = Some t1"
          "nodes_ok g L t1" "tp_visited t1 ! sourceOf g e" "tp_loop t1 = tp_loop t" and n1: "?new t t1"
          using up by (metis order_le_less_trans)
        from Cons.IH [OF t1(2)] Cons.prems(2) obtain t' where t': "foldM ?f es t1 = Some t'" "nodes_ok g L t'"
          "\<forall>e \<in> set es. \<not> li_back L e \<longrightarrow> tp_visited t' ! sourceOf g e" "tp_loop t' = tp_loop t1" and n2: "?new t1 t'"
          by auto
        have "tp_visited t' ! sourceOf g e" using n2 t1(3) e(3) by blast
        moreover have "?new t t'" using n1 n2 by blast
        ultimately show ?thesis using fwd t1(1,4) t' by auto
      qed
    qed simp
    from fold [OF Suc.prems(1) order_refl] obtain t1 where t1: "foldM ?f (preds g v) t = Some t1" "nodes_ok g L t1"
      "\<forall>e \<in> set (preds g v). \<not> li_back L e \<longrightarrow> tp_visited t1 ! sourceOf g e" "tp_loop t1 = tp_loop t" and n1: "?new t t1"
      by blast
    have new: "\<not> tp_visited t1 ! v" using n1 False Suc.prems(2) by blast
    have ok: "nodes_ok g L (topo_place L v t1)" using topo_place_ok [OF t1(2) g Suc.prems(2) new] t1(3) by blast
    note s = topo_place_simps(6,8) [OF t1(2) Suc.prems(2)]
    have len: "length (tp_visited t1) = g_count g" using t1(2) by (simp add: nodes_ok_def)
    have "\<forall>u < g_count g. (tp_visited t ! u \<longrightarrow> tp_visited (topo_place L v t1) ! u) \<and>
        (tp_visited (topo_place L v t1) ! u \<longrightarrow> tp_visited t ! u \<or> rank u \<le> rank v)"
      using n1 len Suc.prems(2) by (auto simp: s nth_list_update)
    then show ?thesis using False t1(1,4) ok s len Suc.prems(2) by simp
  qed
qed simp

lemma every_block_visited:
  assumes L: "loops_ok g L rank depth" and g: "graph_ok g" and t: "nodes_ok g L t"
    and ends: "\<And>v. v < g_count g \<Longrightarrow> list_all (li_back L) (succs g v) \<Longrightarrow> tp_visited t ! v"
    and v: "v < g_count g"
  shows "tp_visited t ! v"
  using v
proof (induction "g_count g - rank v" arbitrary: v rule: less_induct)
  case less
  show ?case
  proof (cases "list_all (li_back L) (succs g v)")
    case True
    then show ?thesis using ends less.prems by blast
  next
    case False
    then obtain e where "e \<in> set (succs g v)" "\<not> li_back L e" by (auto simp: list_all_iff)
    then have e: "e < length (g_edges g)" "\<not> li_back L e" "sourceOf g e = v" "sinkOf g e < g_count g"
      using g less.prems by (auto simp: graph_ok_def)
    then have "rank v < rank (sinkOf g e)" "rank (sinkOf g e) < g_count g" using L by (auto simp: loops_ok_def)
    then have "tp_visited t ! sinkOf g e" using less.hyps [of "sinkOf g e"] e(4) by simp
    then show ?thesis using t e by (auto simp: nodes_ok_def)
  qed
qed

lemma topo_complete:
  assumes L: "loops_ok g L rank depth" and g: "graph_ok g"
  shows "\<exists>t. getPseudoTopo g L = Some t \<and> {..<g_count g} \<subseteq> placed t \<and>
    (\<forall>v < g_count g. in_loop t v \<longleftrightarrow> li_header L v \<or> li_enclosing L v \<noteq> None) \<and>
    (\<forall>u < g_count g. \<forall>v < g_count g. place_of t u = place_of t v \<longrightarrow> u = v) \<and>
    (\<forall>e < length (g_edges g). \<not> li_back L e \<longrightarrow> place_of t (sourceOf g e) < place_of t (sinkOf g e))"
proof -
  let ?t0 = "\<lparr>tp_loop = ht_new default_size, tp_block = ht_new default_size, tp_belongs = ht_new default_size,
        tp_visited = replicate (g_count g) False, tp_current = 0\<rparr>"
  note new = ht_wf_new [OF default_size_ok, of hash_int] hint.find_new [OF default_size_ok]
  have "topoLoopHelper (Suc (g_count g)) g L (-1) ?t0 \<noteq> None" by (rule loop_helper_total [OF L]) simp
  then obtain t1 where t1: "topoLoopHelper (g_count g + 1) g L (-1) ?t0 = Some t1" by (auto simp del: topoLoopHelper.simps)
  have wf0: "ht_wf hash_int (tp_loop ?t0)" by (simp add: new)
  note k = loop_helper_keys [OF t1 wf0]
  have keys: "int h \<in> loop_keys t1" if "h < g_count g" "li_header L h" for h
    by (rule k(4)) (rule headers_nested [OF L that])
  let ?g = "\<lambda>v t. if list_all (li_back L) (succs g v) then topoNodeHelper (g_count g) g L v t else Some t"
  have ends: "sinkOf g e < g_count g" if "e < length (g_edges g)" for e using g that by (auto simp: graph_ok_def)
  have init: "nodes_ok g L (t1\<lparr>tp_current := 0\<rparr>)" using k(5) ends by (auto simp: nodes_ok_def new)
  have fold: "\<exists>t'. foldM ?g vs t = Some t' \<and> nodes_ok g L t' \<and> tp_loop t' = tp_loop t \<and>
      (\<forall>v \<in> set vs. list_all (li_back L) (succs g v) \<longrightarrow> tp_visited t' ! v) \<and>
      (\<forall>u < g_count g. tp_visited t ! u \<longrightarrow> tp_visited t' ! u)"
    if "nodes_ok g L t" "set vs \<subseteq> {..<g_count g}" for vs t
    using that
  proof (induction vs arbitrary: t)
    case (Cons v vs)
    have v: "v < g_count g" "rank v < g_count g" using Cons.prems(2) L by (auto simp: loops_ok_def)
    have "\<exists>t1. ?g v t = Some t1 \<and> nodes_ok g L t1 \<and> tp_loop t1 = tp_loop t \<and>
      (list_all (li_back L) (succs g v) \<longrightarrow> tp_visited t1 ! v) \<and> (\<forall>u < g_count g. tp_visited t ! u \<longrightarrow> tp_visited t1 ! u)"
      using node_helper_total [OF L g Cons.prems(1) v] Cons.prems(1) by (cases "list_all (li_back L) (succs g v)") auto
    then obtain t1 where t1: "?g v t = Some t1" "nodes_ok g L t1" "tp_loop t1 = tp_loop t"
      "list_all (li_back L) (succs g v) \<longrightarrow> tp_visited t1 ! v" "\<forall>u < g_count g. tp_visited t ! u \<longrightarrow> tp_visited t1 ! u" by blast
    from Cons.IH [OF t1(2)] Cons.prems(2) obtain t' where t': "foldM ?g vs t1 = Some t'" "nodes_ok g L t'" "tp_loop t' = tp_loop t1"
      "\<forall>v \<in> set vs. list_all (li_back L) (succs g v) \<longrightarrow> tp_visited t' ! v" "\<forall>u < g_count g. tp_visited t1 ! u \<longrightarrow> tp_visited t' ! u"
      by auto
    then show ?case using t1 v(1) by auto
  qed simp
  have "set [0..<g_count g] \<subseteq> {..<g_count g}" by auto
  from fold [OF init this] obtain t where t: "foldM ?g [0..<g_count g] (t1\<lparr>tp_current := 0\<rparr>) = Some t" "nodes_ok g L t"
    "tp_loop t = tp_loop t1" "\<forall>v \<in> set [0..<g_count g]. list_all (li_back L) (succs g v) \<longrightarrow> tp_visited t ! v" by auto
  have all: "tp_visited t ! v" if "v < g_count g" for v
    by (rule every_block_visited [OF L g t(2) _ that]) (use t(4) in auto)
  have run: "getPseudoTopo g L = Some t" using t1 t(1) by (simp add: getPseudoTopo_def del: topoLoopHelper.simps)
  have bel: "ht_find hash_int (tp_belongs t) (int v) = (if li_header L v then Some (int v) else map_option int (li_enclosing L v))"
    if "v < g_count g" for v using t(2) all that by (simp add: nodes_ok_def)
  have "v \<in> placed t" if v: "v < g_count g" for v
  proof -
    have "ht_find hash_int (tp_block t) (int v) \<noteq> None" using t(2) all v by (simp add: nodes_ok_def)
    moreover have "ht_find hash_int (tp_loop t) h \<noteq> None" if found: "ht_find hash_int (tp_belongs t) (int v) = Some h" for h
    proof -
      obtain k where k: "h = int k" "k < g_count g" "li_header L k"
        using found bel [OF v] L v by (auto simp: loops_ok_def split: if_splits)
      show ?thesis using keys [OF k(2,3)] k(1) t(3) by (auto simp: loop_keys_def)
    qed
    ultimately show ?thesis by (simp add: placed_def)
  qed
  moreover have "in_loop t v \<longleftrightarrow> li_header L v \<or> li_enclosing L v \<noteq> None" if "v < g_count g" for v
    using bel [OF that] by (simp add: in_loop_def ht_hasKey_def)
  moreover have "\<forall>u < g_count g. \<forall>v < g_count g. place_of t u = place_of t v \<longrightarrow> u = v" using t(2) all by (simp add: nodes_ok_def)
  moreover have "\<forall>e < length (g_edges g). \<not> li_back L e \<longrightarrow> place_of t (sourceOf g e) < place_of t (sinkOf g e)"
    using t(2) all ends by (simp add: nodes_ok_def)
  ultimately show ?thesis using run by auto
qed

text \<open>
  Along a forward edge between blocks both inside loops, or both outside, the source comes
  first. An edge that enters an outermost loop is the other way round.
\<close>

lemma isBefore_forward:
  assumes L: "loops_ok g L rank depth" and g: "graph_ok g" and t: "getPseudoTopo g L = Some t"
    and e: "e < length (g_edges g)" "\<not> li_back L e"
  shows "in_loop t (sourceOf g e) = in_loop t (sinkOf g e) \<Longrightarrow>
      isBefore t (sourceOf g e) (sinkOf g e) = Some True \<and> isBefore t (sinkOf g e) (sourceOf g e) = Some False"
    and "\<not> in_loop t (sourceOf g e) \<Longrightarrow> in_loop t (sinkOf g e) \<Longrightarrow> isBefore t (sinkOf g e) (sourceOf g e) = Some True"
proof -
  have ends: "sourceOf g e < g_count g" "sinkOf g e < g_count g" using g e(1) by (auto simp: graph_ok_def)
  then have p: "sourceOf g e \<in> placed t" "sinkOf g e \<in> placed t" "place_of t (sourceOf g e) < place_of t (sinkOf g e)"
    using topo_complete [OF L g] t e by auto
  show "in_loop t (sourceOf g e) = in_loop t (sinkOf g e) \<Longrightarrow>
      isBefore t (sourceOf g e) (sinkOf g e) = Some True \<and> isBefore t (sinkOf g e) (sourceOf g e) = Some False"
    and "\<not> in_loop t (sourceOf g e) \<Longrightarrow> in_loop t (sinkOf g e) \<Longrightarrow> isBefore t (sinkOf g e) (sourceOf g e) = Some True"
    using p by (simp_all add: isBefore_placed)
qed

end
