(* ===== verification/Cond_Export.thy ===== *)
theory Cond_Export
  imports Std_Map Lin_Expr
begin

text \<open>
  The conditions that the analysis exports (\<open>poly_BranchConditionner.cpp\<close> and the
  rendering inside \<open>onBranch\<close>): the text of a constraint over the parameters of the
  program, the conditions found so far in the order of their branches, the last condition of each
  direction for every loop, and the rows written to the file at the end.
\<close>

subsection \<open>The text of a constraint\<close>

text \<open>Decimal digits of an integer, as \<open>%Zd\<close> and \<open>std::to_string\<close> write them.\<close>

fun decimal_nat :: "nat \<Rightarrow> string" where
  "decimal_nat n =
     (if n < 10 then [char_of (48 + n)] else decimal_nat (n div 10) @ [char_of (48 + n mod 10)])"

definition decimal :: "int \<Rightarrow> string" where
  "decimal k = (if k < 0 then ''-'' @ decimal_nat (nat (- k)) else decimal_nat (nat k))"

text \<open>
  \<open>parse(coef, buf)\<close> takes \<open>sizeof\<close> of the pointer, eight bytes, for the size of the
  buffer: seven characters fit.
\<close>

definition parse :: "int \<Rightarrow> string" where
  "parse k = take 7 (decimal k)"

definition le_sign :: string where
  "le_sign = [CHR 0xE2, CHR 0x89, CHR 0xA4]"

text \<open>One term: the first positive one has a blank in front, later ones a plus.\<close>

definition term_text :: "bool \<Rightarrow> guid \<times> int \<Rightarrow> string" where
  "term_text is_first = (\<lambda>(g, coef).
     (if coef > 0 then (if is_first then '' '' else '' + '') @ (if coef \<noteq> 1 then parse coef @ '' * '' else [])
      else '' - '' @ (if coef \<noteq> -1 then parse (- coef) @ '' * '' else [])) @
     ''b:'' @ decimal_nat g)"

fun terms_text :: "(guid \<times> int) list \<Rightarrow> string" where
  "terms_text [] = []"
| "terms_text (t # ts) = term_text True t @ concat (map (term_text False) ts)"

definition const_text :: "int \<Rightarrow> string" where
  "const_text c = (if c > 0 then '' + '' @ parse c else if c < 0 then '' - '' @ parse (- c) else [])"

definition cons_text :: "guid list \<Rightarrow> wcons \<Rightarrow> string option" where
  "cons_text vars c = do {
     vs \<leftarrow> mapM (\<lambda>v. map_option (Pair v) (wc_coefficient c v)) (filter (wc_has_var c) vars);
     Some (''0 '' @ (case wc_type c of CONS_EQ \<Rightarrow> ''='' | CONS_GE \<Rightarrow> le_sign) @
       terms_text vs @ const_text (wc_inhomogeneous c)) }"

fun join_text :: "string list \<Rightarrow> string \<Rightarrow> string" where
  "join_text [] acc = acc"
| "join_text (s # ss) acc = join_text ss (acc @ (if acc \<noteq> [] then '' & '' else []) @ s)"

definition all_text :: "guid list \<Rightarrow> wcons list \<Rightarrow> string option" where
  "all_text vars cs = do { ss \<leftarrow> mapM (cons_text vars) cs; Some (join_text ss []) }"

subsection \<open>Conditions in order\<close>

text \<open>
  A block is the address of its branch, \<open>None\<close> for the null block of the placeholder that
  stands for a loop.
\<close>

record conditional =
  cd_block :: "int option"
  cd_taken :: bool
  cd_text :: string

record ordered_conditional =
  oc_loop :: int
  oc_cond :: conditional

definition oc_placeholder :: "int \<Rightarrow> ordered_conditional" where
  "oc_placeholder loop = \<lparr>oc_loop = loop, oc_cond = \<lparr>cd_block = None, cd_taken = False, cd_text = []\<rparr>\<rparr>"

type_synonym ordered_elements = "(nat, ordered_conditional) omap"

definition addElement :: "ordered_conditional \<Rightarrow> ordered_elements \<Rightarrow> ordered_elements" where
  "addElement oc order = om_emplace (length order) oc order"

type_synonym loop_conditionals = "(int, (bool, conditional) omap) omap"

text \<open>
  The attributes that the analysis keeps on the root graph: the variables of the arguments, the
  loop the analysis is in (-1 outside), the order of export and the conditions of the loops.
\<close>

record branch_ctx =
  bx_used :: "(int, guid) omap"
  bx_loop :: int
  bx_order :: ordered_elements
  bx_loops :: loop_conditionals

definition bx_init :: branch_ctx where
  "bx_init = \<lparr>bx_used = [], bx_loop = -1, bx_order = [], bx_loops = []\<rparr>"

text \<open>Recording the condition of a branch, at the end of \<open>onBranch\<close>.\<close>

definition record_condition :: "conditional \<Rightarrow> branch_ctx \<Rightarrow> branch_ctx" where
  "record_condition c ctx =
     (if bx_loop ctx = -1
      then ctx\<lparr>bx_order := addElement \<lparr>oc_loop = bx_loop ctx, oc_cond = c\<rparr> (bx_order ctx)\<rparr>
      else
        (let known = map_of (bx_loops ctx) (bx_loop ctx);
             conds = (case known of Some m \<Rightarrow> m | None \<Rightarrow> []);
             order = (if known = None then addElement (oc_placeholder (bx_loop ctx)) (bx_order ctx)
                      else bx_order ctx);
             conds = om_emplace (cd_taken c) c (om_erase (cd_taken c) conds);
             loops = om_emplace (bx_loop ctx) conds (om_erase (bx_loop ctx) (bx_loops ctx))
         in ctx\<lparr>bx_order := order, bx_loops := loops\<rparr>))"

subsection \<open>Export\<close>

text \<open>A row of the file: address, direction, text. A null block cannot be dereferenced.\<close>

type_synonym row = "int \<times> bool \<times> string"

definition exportToFile :: "conditional \<Rightarrow> row list \<Rightarrow> row list option" where
  "exportToFile c rows = do { a \<leftarrow> cd_block c; Some (rows @ [(a, cd_taken c, cd_text c)]) }"

definition export_element ::
  "ordered_elements \<Rightarrow> loop_conditionals \<Rightarrow> nat \<Rightarrow> row list \<Rightarrow> row list option" where
  "export_element order loops k rows = do {
     w \<leftarrow> map_of order k;
     if oc_loop w = -1 then exportToFile (oc_cond w) rows
     else do {
       branching \<leftarrow> map_of loops (oc_loop w);
       foldM exportToFile (map snd branching) rows } }"

definition exportOrderedConstraints ::
  "ordered_elements \<Rightarrow> loop_conditionals \<Rightarrow> row list \<Rightarrow> row list option" where
  "exportOrderedConstraints order loops rows =
     foldM (export_element order loops) [0..<length order] rows"

text \<open>The file is emptied at the start of an analysis; its heading line is not a row.\<close>

definition resetFile :: "row list" where
  "resetFile = []"

subsection \<open>Reading the numbers back\<close>

definition read_nat :: "string \<Rightarrow> nat" where
  "read_nat s = fold (\<lambda>c n. 10 * n + (of_char c - 48)) s 0"

lemma read_snoc: "read_nat (s @ [c]) = 10 * read_nat s + (of_char c - 48)"
  by (simp add: read_nat_def)

declare decimal_nat.simps [simp del]

lemma read_decimal: "read_nat (decimal_nat n) = n"
proof (induction n rule: decimal_nat.induct)
  case (1 n)
  then show ?case
    by (subst decimal_nat.simps) (auto simp: read_snoc, simp add: read_nat_def)
qed

lemma decimal_length: "length (decimal_nat n) \<le> Suc k \<longleftrightarrow> n < 10 ^ Suc k"
proof (induction k arbitrary: n)
  case 0
  then show ?case by (subst decimal_nat.simps) (auto simp: decimal_nat.simps [of "n div 10"])
next
  case (Suc k)
  show ?case
  proof (cases "n < 10")
    case True
    then have "n < 10 ^ Suc (Suc k)" using less_le_trans [of n 10 "10 ^ Suc (Suc k)"] by simp
    then show ?thesis using True by (subst decimal_nat.simps) simp
  next
    case False
    then have "length (decimal_nat n) \<le> Suc (Suc k) \<longleftrightarrow> n div 10 < 10 ^ Suc k"
      using Suc [of "n div 10"] by (subst decimal_nat.simps) simp
    also have "\<dots> \<longleftrightarrow> n < 10 ^ Suc (Suc k)" by (simp add: div_less_iff_less_mult mult.commute)
    finally show ?thesis .
  qed
qed

lemma parse_exact:
  assumes "0 \<le> k" and "k < 10 ^ 7"
  shows "int (read_nat (parse k)) = k"
proof -
  have "nat k < 10 ^ Suc 6" using assms by simp
  then have "length (decimal_nat (nat k)) \<le> 7" using decimal_length [of "nat k" 6] by simp
  then show ?thesis using assms by (simp add: parse_def decimal_def read_decimal)
qed

text \<open>A longer number loses its last digit, again and again, until seven are left.\<close>

lemma parse_truncates:
  assumes "10 ^ 7 \<le> k"
  shows "parse k = parse (k div 10)" and "int (read_nat (parse k)) < k"
proof -
  have step: "parse j = parse (j div 10)" if "10 ^ 7 \<le> j" for j
  proof -
    have "\<not> nat (j div 10) < 10 ^ Suc 5" using that by simp
    then have "7 \<le> length (decimal_nat (nat (j div 10)))"
      using decimal_length [of "nat (j div 10)" 5] by simp
    moreover have "decimal_nat (nat j) = decimal_nat (nat (j div 10)) @ [char_of (48 + nat j mod 10)]"
      using that nat_less_iff [of j 10] by (subst decimal_nat.simps) (simp add: nat_div_distrib)
    ultimately show ?thesis using that by (simp add: parse_def decimal_def)
  qed
  have "int (read_nat (parse j)) \<le> j" if "0 \<le> j" for j
    using that
  proof (induction "nat j" arbitrary: j rule: less_induct)
    case less
    show ?case
    proof (cases "j < 10 ^ 7")
      case True
      then show ?thesis using parse_exact less.prems by simp
    next
      case False
      then have "int (read_nat (parse (j div 10))) \<le> j div 10" by (intro less.hyps) auto
      then show ?thesis using step [of j] False by simp
    qed
  qed
  moreover have "0 \<le> k div 10" "k div 10 < k" using assms by auto
  ultimately show "parse k = parse (k div 10)" "int (read_nat (parse k)) < k"
    using step [OF assms] by fastforce+
qed

subsection \<open>The order of export\<close>

definition loop_ok :: "(bool, conditional) omap \<Rightarrow> bool" where
  "loop_ok m \<longleftrightarrow> om_ok m \<and> (\<forall>b c. map_of m b = Some c \<longrightarrow> cd_block c \<noteq> None \<and> cd_taken c = b)"

definition loops_listed :: "branch_ctx \<Rightarrow> int list" where
  "loops_listed ctx = filter (\<lambda>l. l \<noteq> -1) (map (oc_loop \<circ> snd) (bx_order ctx))"

definition ctx_ok :: "branch_ctx \<Rightarrow> bool" where
  "ctx_ok ctx \<longleftrightarrow> om_ok (bx_loops ctx) \<and> map fst (bx_order ctx) = [0..<length (bx_order ctx)] \<and>
     (\<forall>l m. map_of (bx_loops ctx) l = Some m \<longrightarrow> l \<noteq> -1 \<and> loop_ok m) \<and>
     (\<forall>(k, w) \<in> set (bx_order ctx). oc_loop w = -1 \<longrightarrow> cd_block (oc_cond w) \<noteq> None) \<and>
     distinct (loops_listed ctx) \<and> set (loops_listed ctx) = dom (map_of (bx_loops ctx))"

lemma ctx_init_ok: "ctx_ok bx_init"
  by (simp add: ctx_ok_def bx_init_def loops_listed_def)

lemma om_set_last:
  "(\<And>x. x \<in> set (map fst m) \<Longrightarrow> x < k) \<Longrightarrow> om_set k v m = m @ [(k, v)]"
  by (induction k v m rule: om_set.induct) fastforce+

lemma addElement_append:
  assumes "map fst order = [0..<length order]"
  shows "addElement w order = order @ [(length order, w)]"
proof -
  have "length order \<notin> set (map fst order)" using assms by simp
  then have "map_of order (length order) = None" by (simp add: map_of_eq_None_iff)
  then show ?thesis
    using assms om_set_last [of order "length order" w] by (simp add: addElement_def om_emplace_def)
qed

lemma loop_ok_update:
  assumes "loop_ok m" and "cd_block c \<noteq> None"
  shows "loop_ok (om_emplace (cd_taken c) c (om_erase (cd_taken c) m))"
    and "map_of (om_emplace (cd_taken c) c (om_erase (cd_taken c) m)) = (map_of m)(cd_taken c \<mapsto> c)"
proof -
  have ok: "om_ok (om_erase (cd_taken c) m)" using assms(1) by (simp add: loop_ok_def om.del_ok)
  show map: "map_of (om_emplace (cd_taken c) c (om_erase (cd_taken c) m)) = (map_of m)(cd_taken c \<mapsto> c)"
    by (simp add: map_of_om_emplace [OF ok] map_of_om_erase)
  show "loop_ok (om_emplace (cd_taken c) c (om_erase (cd_taken c) m))"
    using assms om_emplace_ok [OF ok] unfolding loop_ok_def map by auto
qed

lemma record_condition_ok:
  assumes ok: "ctx_ok ctx" and c: "cd_block c \<noteq> None"
  shows "ctx_ok (record_condition c ctx)"
    and "bx_loop ctx = -1 \<Longrightarrow> bx_loops (record_condition c ctx) = bx_loops ctx \<and>
      map snd (bx_order (record_condition c ctx)) = map snd (bx_order ctx) @ [\<lparr>oc_loop = -1, oc_cond = c\<rparr>]"
    and "bx_loop ctx \<noteq> -1 \<Longrightarrow> \<exists>m. map_of (bx_loops (record_condition c ctx)) =
        (map_of (bx_loops ctx))(bx_loop ctx \<mapsto> m) \<and>
      map_of m = (case map_of (bx_loops ctx) (bx_loop ctx) of None \<Rightarrow> Map.empty | Some m0 \<Rightarrow> map_of m0)
        (cd_taken c \<mapsto> c)"
proof -
  note app = addElement_append [of "bx_order ctx"]
  have ord: "map fst (bx_order ctx) = [0..<length (bx_order ctx)]" using ok by (simp add: ctx_ok_def)
  show "bx_loop ctx = -1 \<Longrightarrow> bx_loops (record_condition c ctx) = bx_loops ctx \<and>
      map snd (bx_order (record_condition c ctx)) = map snd (bx_order ctx) @ [\<lparr>oc_loop = -1, oc_cond = c\<rparr>]"
    by (simp add: record_condition_def app ord)
  let ?known = "map_of (bx_loops ctx) (bx_loop ctx)"
  define m0 where "m0 = (case ?known of Some m \<Rightarrow> m | None \<Rightarrow> [])"
  define m where "m = om_emplace (cd_taken c) c (om_erase (cd_taken c) m0)"
  define loops where "loops = om_emplace (bx_loop ctx) m (om_erase (bx_loop ctx) (bx_loops ctx))"
  have m0: "loop_ok m0" using ok by (auto simp: m0_def ctx_ok_def loop_ok_def split: option.split)
  note m = loop_ok_update [OF m0 c, folded m_def]
  have er: "om_ok (om_erase (bx_loop ctx) (bx_loops ctx))" using ok by (simp add: ctx_ok_def om.del_ok)
  have loops: "om_ok loops" "map_of loops = (map_of (bx_loops ctx))(bx_loop ctx \<mapsto> m)"
    using om_emplace_ok [OF er] by (simp_all add: loops_def map_of_om_emplace [OF er] map_of_om_erase)
  have rec: "record_condition c ctx = ctx\<lparr>bx_order := (if ?known = None
      then bx_order ctx @ [(length (bx_order ctx), oc_placeholder (bx_loop ctx))] else bx_order ctx),
      bx_loops := loops\<rparr>" if "bx_loop ctx \<noteq> -1"
    using that by (simp add: record_condition_def app ord m_def m0_def loops_def Let_def)
  show "bx_loop ctx \<noteq> -1 \<Longrightarrow> \<exists>m. map_of (bx_loops (record_condition c ctx)) =
        (map_of (bx_loops ctx))(bx_loop ctx \<mapsto> m) \<and>
      map_of m = (case map_of (bx_loops ctx) (bx_loop ctx) of None \<Rightarrow> Map.empty | Some m0 \<Rightarrow> map_of m0)
        (cd_taken c \<mapsto> c)"
    using rec loops(2) m(2) by (intro exI [of _ m]) (auto simp: m0_def split: option.split)
  show "ctx_ok (record_condition c ctx)"
  proof (cases "bx_loop ctx = -1")
    case True
    then show ?thesis
      using ok c ord by (auto simp: ctx_ok_def record_condition_def app loops_listed_def)
  next
    case False
    have listed: "loops_listed (record_condition c ctx) =
        loops_listed ctx @ (if ?known = None then [bx_loop ctx] else [])"
      using False by (simp add: rec loops_listed_def oc_placeholder_def)
    have d: "distinct (loops_listed ctx)" "set (loops_listed ctx) = dom (map_of (bx_loops ctx))"
      using ok by (simp_all add: ctx_ok_def)
    have "distinct (loops_listed (record_condition c ctx))" using d by (auto simp: listed)
    moreover have "set (loops_listed (record_condition c ctx)) = dom (map_of loops)"
      using d by (auto simp: listed loops(2))
    ultimately show ?thesis
      using ok False m(1) loops ord unfolding ctx_ok_def
      by (auto simp: rec oc_placeholder_def)
  qed
qed

definition row_of :: "conditional \<Rightarrow> row" where
  "row_of c = (the (cd_block c), cd_taken c, cd_text c)"

definition element_rows :: "loop_conditionals \<Rightarrow> ordered_conditional \<Rightarrow> row list" where
  "element_rows loops w =
     (if oc_loop w = -1 then [row_of (oc_cond w)]
      else map (row_of \<circ> snd) (the (map_of loops (oc_loop w))))"

lemma exportToFile_rows:
  "(\<And>c. c \<in> set cs \<Longrightarrow> cd_block c \<noteq> None) \<Longrightarrow> foldM exportToFile cs rows = Some (rows @ map row_of cs)"
proof (induction cs arbitrary: rows)
  case (Cons c cs)
  obtain a where "cd_block c = Some a" using Cons.prems [of c] by auto
  with Cons.IH [of "rows @ [row_of c]"] Cons.prems show ?case
    by (simp add: exportToFile_def row_of_def)
qed simp

text \<open>The export never fails on a well-formed context; each element gives its rows in order.\<close>

lemma export_rows:
  assumes ok: "ctx_ok ctx"
  shows "exportOrderedConstraints (bx_order ctx) (bx_loops ctx) rows =
    Some (rows @ concat (map (element_rows (bx_loops ctx) \<circ> snd) (bx_order ctx)))"
proof -
  have ord: "map fst (bx_order ctx) = [0..<length (bx_order ctx)]" using ok by (simp add: ctx_ok_def)
  have dist: "distinct (map fst (bx_order ctx))" by (simp add: ord)
  have one: "export_element (bx_order ctx) (bx_loops ctx) k f = Some (f @ element_rows (bx_loops ctx) w)"
    if "(k, w) \<in> set (bx_order ctx)" for k w f
  proof -
    have w: "map_of (bx_order ctx) k = Some w" using that dist by simp
    show ?thesis
    proof (cases "oc_loop w = -1")
      case True
      then have "cd_block (oc_cond w) \<noteq> None" using ok that by (auto simp: ctx_ok_def)
      then show ?thesis
        using True w by (auto simp: export_element_def element_rows_def exportToFile_def row_of_def)
    next
      case False
      then have "oc_loop w \<in> set (loops_listed ctx)" using that by (force simp: loops_listed_def)
      then obtain m where m: "map_of (bx_loops ctx) (oc_loop w) = Some m" using ok by (auto simp: ctx_ok_def)
      then have "loop_ok m" using ok by (auto simp: ctx_ok_def)
      then have "cd_block c \<noteq> None" if "c \<in> set (map snd m)" for c
        using that om_ok_distinct [of m] map_of_eq_Some_iff [of m] by (auto simp: loop_ok_def)
      then show ?thesis
        using False w m exportToFile_rows [of "map snd m" f]
        by (simp add: export_element_def element_rows_def)
    qed
  qed
  have "foldM (export_element (bx_order ctx) (bx_loops ctx)) (map fst ps) f =
      Some (f @ concat (map (element_rows (bx_loops ctx) \<circ> snd) ps))"
    if "set ps \<subseteq> set (bx_order ctx)" for ps f
    using that one by (induction ps arbitrary: f) fastforce+
  from this [of "bx_order ctx" rows] show ?thesis
    by (simp add: exportOrderedConstraints_def ord)
qed

end
