(* ===== verification/Domain_Sem.thy ===== *)
theory Domain_Sem
  imports Domain
begin

text \<open>
  What an abstract state stands for: the states of the program, as functions from identifiers
  to values, that some valuation of the polyhedron explains (\<open>models\<close>, \<open>dom_sem\<close>).
  \<open>dom_ok\<close> is the invariant of the state: the mapping is a bijection, the polyhedron is
  well formed, every variable number in use is below the generator, and only addresses carry
  steps. The operations keep the invariant, and the update of one identifier is exact.
\<close>

definition models :: "'p env \<Rightarrow> 'p domain \<Rightarrow> valuation \<Rightarrow> (ident \<Rightarrow> rat) \<Rightarrow> bool" where
  "models E d v \<rho> \<longleftrightarrow> v \<in> wsem (e_ppl E) (d_poly d) \<and>
     (\<forall>i iv. im_find1 (d_idmap d) i = Some iv \<longrightarrow> \<rho> i = v (iv_g iv))"

definition dom_sem :: "'p env \<Rightarrow> 'p domain \<Rightarrow> (ident \<Rightarrow> rat) set" where
  "dom_sem E d = {\<rho>. \<exists>v. models E d v \<rho>}"

definition dom_ok :: "'p env \<Rightarrow> guid \<Rightarrow> 'p domain \<Rightarrow> bool" where
  "dom_ok E gen d \<longleftrightarrow> im_ok (d_idmap d) \<and> wp_ok (e_ppl E) (d_poly d) \<and>
     wp_dom (d_poly d) \<subseteq> {..<gen} \<and> set (d_victims d) \<subseteq> {..<gen} \<and>
     (\<forall>i iv. im_find1 (d_idmap d) i = Some iv \<longrightarrow>
        iv_g iv < gen \<and> (iv_s iv = NO_STEP \<longleftrightarrow> id_type i \<noteq> ID_MEM_ADDR)) \<and>
     (d_num_axis d = -1 \<longrightarrow> wsem (e_ppl E) (d_poly d) = {})"

text \<open>
  The hypotheses on the environment: the library obeys its laws, and inverting a condition
  negates it. \<open>cond_sat\<close> gives the meaning of a condition on the difference of the two
  compared values.
\<close>

fun cond_sat :: "cond \<Rightarrow> rat \<Rightarrow> bool" where
  "cond_sat EQ x = (x = 0)"
| "cond_sat NE x = (x \<noteq> 0)"
| "cond_sat LT x = (x < 0)"
| "cond_sat ULT x = (x < 0)"
| "cond_sat LE x = (x \<le> 0)"
| "cond_sat ULE x = (x \<le> 0)"
| "cond_sat GE x = (x \<ge> 0)"
| "cond_sat UGE x = (x \<ge> 0)"
| "cond_sat GT x = (x > 0)"
| "cond_sat UGT x = (x > 0)"
| "cond_sat c x = True"

definition is_relation :: "cond \<Rightarrow> bool" where
  "is_relation c \<longleftrightarrow> c \<in> {EQ, LT, LE, GE, GT, NE, ULT, ULE, UGE, UGT}"

locale poly_env =
  fixes E :: "'p env"
  assumes laws: "ppl_laws (e_ppl E)"
    and invert: "is_relation c \<Longrightarrow> is_relation (e_invert E c) \<and> (cond_sat (e_invert E c) x \<longleftrightarrow> \<not> cond_sat c x)"

sublocale poly_env \<subseteq> ppl_laws "e_ppl E"
  by (rule laws)

subsection \<open>The invariant\<close>

lemma dom_okD:
  assumes "dom_ok E gen d"
  shows "im_ok (d_idmap d)" "wp_ok (e_ppl E) (d_poly d)"
    "g \<in> wp_dom (d_poly d) \<Longrightarrow> g < gen" "g \<in> set (d_victims d) \<Longrightarrow> g < gen"
    "im_find1 (d_idmap d) i = Some iv \<Longrightarrow> iv_g iv < gen"
    "im_find1 (d_idmap d) i = Some iv \<Longrightarrow> iv_s iv = NO_STEP \<longleftrightarrow> id_type i \<noteq> ID_MEM_ADDR"
  using assms by (auto simp: dom_ok_def)

lemma dom_ok_mono: "dom_ok E gen d \<Longrightarrow> gen \<le> gen' \<Longrightarrow> dom_ok E gen' d"
  by (fastforce simp: dom_ok_def)

lemma models_dom_sem: "models E d v \<rho> \<Longrightarrow> \<rho> \<in> dom_sem E d"
  by (auto simp: dom_sem_def)

lemma dom_copy_ok:
  assumes "dom_ok E gen d"
  obtains d' where "dom_copy d = Some d'" and "dom_ok E gen d'"
    and "im_find1 (d_idmap d') = im_find1 (d_idmap d)" and "d_poly d' = d_poly d"
    and "d_victims d' = d_victims d" and "d_num_axis d' = d_num_axis d"
    and "d_compare_reg d' = d_compare_reg d" and "d_compare_op d' = d_compare_op d"
    and "d_bounds d' = d_bounds d" and "d_mem_ref d' = d_mem_ref d"
proof -
  let ?d = "d\<lparr>d_idmap := im_copy (d_idmap d)\<rparr>"
  have m: "im_ok (d_idmap d)" by (rule dom_okD [OF assms])
  have "dom_copy d = Some ?d"
    using im_copy_ok [OF m] im_equal_iff [OF im_copy_ok(1) [OF m] m] by (simp add: dom_copy_def)
  moreover have "dom_ok E gen ?d" using assms im_copy_ok [OF m] by (simp add: dom_ok_def)
  ultimately show thesis using that im_copy_ok [OF m] by simp
qed

lemma models_cong:
  assumes "im_find1 (d_idmap d') = im_find1 (d_idmap d)" and "d_poly d' = d_poly d"
  shows "models E d' = models E d"
  using assms by (simp add: models_def fun_eq_iff)

lemma varNew_ok:
  assumes ok: "dom_ok E gen d" and t: "if id_type i = ID_MEM_ADDR then step \<noteq> NO_STEP else step = NO_STEP"
    and r: "hasIdent d i \<longrightarrow> r \<and> step = NO_STEP"
  obtains d' where "varNew i step r d gen = Some (gen, d', gen + 1)" and "dom_ok E (gen + 1) d'"
    and "im_find1 (d_idmap d') = (im_find1 (d_idmap d))(i \<mapsto> idval_t gen step)"
    and "d_poly d' = d_poly d" and "d_num_axis d' = d_num_axis d"
    and "d_compare_reg d' = d_compare_reg d" and "d_compare_op d' = d_compare_op d"
    and "d_bounds d' = d_bounds d"
proof -
  define d1 where "d1 = (case im_find1 (d_idmap d) i of None \<Rightarrow> d
      | Some iv \<Rightarrow> d\<lparr>d_victims := d_victims d @ [iv_g iv]\<rparr>)"
  let ?d = "d1\<lparr>d_idmap := im_add i (idval_t gen step) (d_idmap d1)\<rparr>"
  have m: "im_ok (d_idmap d)" by (rule dom_okD [OF ok])
  have d1: "d_idmap d1 = d_idmap d" "d_poly d1 = d_poly d" "d_num_axis d1 = d_num_axis d"
    "set (d_victims d1) \<subseteq> {..<gen}" "d_compare_reg d1 = d_compare_reg d"
    "d_compare_op d1 = d_compare_op d" "d_bounds d1 = d_bounds d"
    using ok dom_okD(5) [OF ok] by (auto simp: d1_def dom_ok_def split: option.split)
  have fresh: "im_find1 (d_idmap d) j \<noteq> Some (idval_t gen step)" for j
    using dom_okD(5) [OF ok, of j "idval_t gen step"] by auto
  then have f: "im_find1 (d_idmap ?d) = (im_find1 (d_idmap d))(i \<mapsto> idval_t gen step)"
    using im_add_finds(2) [OF m, of i "idval_t gen step"] by (auto simp: d1)
  have "varNew i step r d gen = Some (gen, ?d, gen + 1)"
    using t r by (auto simp: varNew_def d1_def hasIdent_def im_has1_def im_find1_def ht_hasKey_def
        ht_at_def split: option.split)
  moreover have "dom_ok E (gen + 1) ?d"
  proof -
    have "wp_dom (d_poly ?d) \<subseteq> {..<gen + 1}" "set (d_victims ?d) \<subseteq> {..<gen + 1}"
      using ok d1 by (auto simp: dom_ok_def less_SucI)
    moreover have "iv_g iv < gen + 1 \<and> (iv_s iv = NO_STEP \<longleftrightarrow> id_type j \<noteq> ID_MEM_ADDR)"
      if "im_find1 (d_idmap ?d) j = Some iv" for j iv
      using that t dom_okD(5,6) [OF ok, of j iv] unfolding f by (auto split: if_splits)
    ultimately show ?thesis
      using im_add_finds(1) [OF m] ok d1 by (simp add: dom_ok_def)
  qed
  ultimately show thesis using that f d1 by simp
qed

lemma getVar0_ok:
  "im_find1 (d_idmap d) i = Some iv \<Longrightarrow> id_type i \<noteq> ID_MEM_ADDR \<Longrightarrow> getVar0 d i = Some (iv_g iv)"
  by (simp add: getVar0_def getVar_def)

lemma hasIdent_iff: "hasIdent d i \<longleftrightarrow> (\<exists>iv. im_find1 (d_idmap d) i = Some iv)"
  by (auto simp: hasIdent_def im_has1_def im_find1_def ht_hasKey_def ht_at_def)

lemma varKill_ok:
  assumes ok: "dom_ok E gen d" and f: "im_find1 (d_idmap d) i = Some iv"
  obtains d' where "varKill iv d = Some d'" and "varKillIdent i d = Some d'" and "dom_ok E gen d'"
    and "im_find1 (d_idmap d') = (im_find1 (d_idmap d))(i := None)"
    and "d_poly d' = d_poly d" and "d_num_axis d' = d_num_axis d" and "d_bounds d' = d_bounds d"
proof -
  have m: "im_ok (d_idmap d)" by (rule dom_okD [OF ok])
  obtain m' where m': "im_del2 iv (d_idmap d) = Some m'" "im_ok m'"
    "\<And>j. im_find1 m' j = (if j = i then None else im_find1 (d_idmap d) j)"
    using im_del_finds [OF m f] by metis
  let ?d = "d\<lparr>d_idmap := m', d_victims := d_victims d @ [iv_g iv]\<rparr>"
  have "varKill iv d = Some ?d" "varKillIdent i d = Some ?d"
    using m'(1) f by (simp_all add: varKill_def varKillIdent_def)
  moreover have "dom_ok E gen ?d"
    using ok m'(2,3) dom_okD(5) [OF ok f] by (auto simp: dom_ok_def split: if_splits)
  ultimately show thesis using that [of ?d] m'(3) by (simp add: fun_eq_iff)
qed

context poly_env
begin

lemma constraint_ok:
  assumes "dom_ok E gen d" and "wc_vars c \<subseteq> {..<gen}"
  shows "dom_ok E gen (doNewConstraint E c d)"
    and "models E (doNewConstraint E c d) v \<rho> \<longleftrightarrow> models E d v \<rho> \<and> wc_sat v c"
    and "im_find1 (d_idmap (doNewConstraint E c d)) = im_find1 (d_idmap d)"
    and "d_num_axis (doNewConstraint E c d) = d_num_axis d"
    and "d_bounds (doNewConstraint E c d) = d_bounds d"
proof -
  note a = add_constraint [OF dom_okD(2) [OF assms(1)], of c]
  show "dom_ok E gen (doNewConstraint E c d)" using assms a by (auto simp: dom_ok_def doNewConstraint_def)
  show "models E (doNewConstraint E c d) v \<rho> \<longleftrightarrow> models E d v \<rho> \<and> wc_sat v c"
    using a(2) by (auto simp: models_def doNewConstraint_def)
qed (simp_all add: doNewConstraint_def)

lemma bottom_ok [simp]: "dom_ok E gen (dom_bottom E)" and bottom_sem [simp]: "dom_sem E (dom_bottom E) = {}"
proof -
  have "wp_dom (wp_new (e_ppl E) True) = {}" by (simp add: wp_dom_def wp_new_def)
  then show "dom_ok E gen (dom_bottom E)" by (simp add: dom_ok_def dom_bottom_def)
  show "dom_sem E (dom_bottom E) = {}" by (simp add: dom_sem_def models_def dom_bottom_def)
qed

lemma doMapPoly_ok:
  assumes w: "wp_ok (e_ppl E) (d_poly d)" and inj: "inj_on f {g \<in> wp_dom (d_poly d). f g \<noteq> None}"
  obtains p where "doMapPoly E f d = Some (d\<lparr>d_poly := p\<rparr>)" and "wp_ok (e_ppl E) p"
    and "wp_dom p = {h. \<exists>g \<in> wp_dom (d_poly d). f g = Some h}"
    and "\<forall>v v'. v \<in> wsem (e_ppl E) (d_poly d) \<longrightarrow>
      (\<forall>g \<in> wp_dom (d_poly d). \<forall>h. f g = Some h \<longrightarrow> v' h = v g) \<longrightarrow> v' \<in> wsem (e_ppl E) p"
proof (cases "0 < wp_variable_count (e_ppl E) (d_poly d)")
  case True
  show thesis
  proof (rule map_vars [OF w inj])
    fix w'
    assume w': "wp_map_vars (e_ppl E) f (d_poly d) = Some w'" "wp_ok (e_ppl E) w'"
      and dm: "\<And>j. j \<in> wp_dom w' \<longleftrightarrow> (\<exists>g \<in> wp_dom (d_poly d). f g = Some j)"
      and fwd: "\<And>v v'. v \<in> wsem (e_ppl E) (d_poly d) \<Longrightarrow>
        (\<And>g j. g \<in> wp_dom (d_poly d) \<Longrightarrow> f g = Some j \<Longrightarrow> v' j = v g) \<Longrightarrow> v' \<in> wsem (e_ppl E) w'"
    show thesis
      by (rule that [of w']) (use True w' dm fwd in \<open>auto simp: doMapPoly_def\<close>)
  qed
next
  case False
  then have "ran (map_of (wp_adapter (d_poly d))) = {}"
    using w by (simp add: wp_variable_count_def wp_ok_def ad_ok_def)
  then have dm: "wp_dom (d_poly d) = {}" unfolding wp_dom_def ran_def dom_def by blast
  have "v' \<in> wsem (e_ppl E) (d_poly d)" if "v \<in> wsem (e_ppl E) (d_poly d)" for v v'
    using wsem_cong [of "d_poly d" v v'] dm that by simp
  with dm show thesis
    by (intro that [of "d_poly d"]) (use False w in \<open>simp_all add: doMapPoly_def\<close>)
qed

lemma finalize_ok:
  assumes ok: "dom_ok E gen d"
  obtains d' where "doFinalizeUpdate E d = Some d'" and "dom_ok E gen d'"
    and "\<And>v \<rho>. models E d v \<rho> \<Longrightarrow> models E d' v \<rho>"
    and "\<not> isBottom E d \<Longrightarrow> wp_dom (d_poly d') = wp_dom (d_poly d) - set (d_victims d)"
    and "\<not> isBottom E d \<Longrightarrow> im_find1 (d_idmap d') = im_find1 (d_idmap d)"
    and "\<not> isBottom E d \<Longrightarrow> d_num_axis d' = d_num_axis d"
    and "\<not> isBottom E d \<Longrightarrow> d_victims d' = []"
    and "isBottom E d \<Longrightarrow> d' = dom_bottom E"
proof (cases "isBottom E d")
  case True
  have "wsem (e_ppl E) (d_poly d) = {}"
    using True ok empty_sound by (auto simp: isBottom_def dom_ok_def)
  then have "\<not> models E d v \<rho>" for v \<rho> by (simp add: models_def)
  then show thesis using that [of "dom_bottom E"] True by (simp add: doFinalizeUpdate_def setBottom_def)
next
  case False
  have "\<exists>p. foldM (wp_unconstrain (e_ppl E)) vs w = Some p \<and> wp_ok (e_ppl E) p \<and>
      wp_dom p = wp_dom w - set vs \<and> wsem (e_ppl E) w \<subseteq> wsem (e_ppl E) p"
    if "wp_ok (e_ppl E) w" for vs w
    using that
  proof (induction vs arbitrary: w)
    case (Cons g vs)
    obtain w' where w': "wp_unconstrain (e_ppl E) g w = Some w'" "wp_ok (e_ppl E) w'"
      "wp_dom w' = wp_dom w - {g}" "\<And>v a. v \<in> wsem (e_ppl E) w \<Longrightarrow> v(g := a) \<in> wsem (e_ppl E) w'"
      using unconstrain [OF Cons.prems] by metis
    have "wsem (e_ppl E) w \<subseteq> wsem (e_ppl E) w'"
    proof
      fix v
      assume "v \<in> wsem (e_ppl E) w"
      from w'(4) [OF this, of "v g"] show "v \<in> wsem (e_ppl E) w'" by simp
    qed
    moreover obtain p where "foldM (wp_unconstrain (e_ppl E)) vs w' = Some p" "wp_ok (e_ppl E) p"
      "wp_dom p = wp_dom w' - set vs" "wsem (e_ppl E) w' \<subseteq> wsem (e_ppl E) p"
      using Cons.IH [OF w'(2)] by blast
    ultimately show ?case using w'(1,3) by (intro exI [of _ p]) auto
  qed simp
  from this [OF dom_okD(2) [OF ok], of "d_victims d"] obtain p where p:
    "foldM (wp_unconstrain (e_ppl E)) (d_victims d) (d_poly d) = Some p" "wp_ok (e_ppl E) p"
    "wp_dom p = wp_dom (d_poly d) - set (d_victims d)" "wsem (e_ppl E) (d_poly d) \<subseteq> wsem (e_ppl E) p" by blast
  let ?d = "d\<lparr>d_poly := p, d_victims := []\<rparr>"
  have "dom_ok E gen ?d" using ok p False by (auto simp: dom_ok_def isBottom_def)
  moreover have "models E d v \<rho> \<Longrightarrow> models E ?d v \<rho>" for v \<rho> using p(4) by (auto simp: models_def)
  moreover have "doFinalizeUpdate E d = Some ?d" using p(1) False by (simp add: doFinalizeUpdate_def)
  ultimately show thesis using that [of ?d] False p(3) by simp
qed

text \<open>The assignment of a new value to an identifier, exactly.\<close>

lemma assign_exact:
  assumes ok: "dom_ok E gen d"
    and d1: "dom_ok E (gen + 1) d1"
      "im_find1 (d_idmap d1) = (im_find1 (d_idmap d))(i \<mapsto> idval_t gen step)" "d_poly d1 = d_poly d"
    and c: "wc_vars c \<subseteq> {..<gen + 1}" "\<And>v. wc_sat v c \<longleftrightarrow> R v (v gen)"
    and R: "\<And>v v' x. (\<And>g. g < gen \<Longrightarrow> v g = v' g) \<Longrightarrow> R v x = R v' x"
  shows "dom_sem E (doNewConstraint E c d1) = {\<rho>(i := x) | \<rho> v x. models E d v \<rho> \<and> R v x}"
proof (rule set_eqI)
  fix \<rho>'
  have fresh: "gen \<notin> wp_dom (d_poly d)" using dom_okD(3) [OF ok, of gen] by auto
  have sem: "\<rho>' \<in> dom_sem E (doNewConstraint E c d1) \<longleftrightarrow> (\<exists>v. models E d1 v \<rho>' \<and> R v (v gen))"
    using constraint_ok(2) [OF d1(1) c(1)] c(2) by (simp add: dom_sem_def)
  show "\<rho>' \<in> dom_sem E (doNewConstraint E c d1) \<longleftrightarrow> \<rho>' \<in> {\<rho>(i := x) | \<rho> v x. models E d v \<rho> \<and> R v x}"
  proof
    assume "\<rho>' \<in> dom_sem E (doNewConstraint E c d1)"
    then obtain v where v: "models E d1 v \<rho>'" "R v (v gen)" using sem by blast
    define \<rho> where "\<rho> = \<rho>'(i := (case im_find1 (d_idmap d) i of Some iv \<Rightarrow> v (iv_g iv) | None \<Rightarrow> \<rho>' i))"
    have "models E d v \<rho>"
      using v(1) d1(2,3) by (auto simp: models_def \<rho>_def split: if_splits)
    moreover have "\<rho>' i = v gen" using v(1) d1(2) by (auto simp: models_def)
    then have "\<rho>' = \<rho>(i := v gen)" by (simp add: \<rho>_def fun_eq_iff)
    ultimately show "\<rho>' \<in> {\<rho>(i := x) | \<rho> v x. models E d v \<rho> \<and> R v x}" using v(2) by blast
  next
    assume "\<rho>' \<in> {\<rho>(i := x) | \<rho> v x. models E d v \<rho> \<and> R v x}"
    then obtain \<rho> v x where *: "\<rho>' = \<rho>(i := x)" "models E d v \<rho>" "R v x" by blast
    have lt: "iv_g iv \<noteq> gen" if "im_find1 (d_idmap d) j = Some iv" for j iv
      using dom_okD(5) [OF ok that] by simp
    have "models E d1 (v(gen := x)) \<rho>'"
      using *(2) d1(2,3) wsem_upd [OF fresh, of v x] lt by (auto simp: models_def *(1) split: if_splits)
    moreover have "R (v(gen := x)) x" using R [of v "v(gen := x)" x] *(3) by simp
    ultimately have "models E d1 (v(gen := x)) \<rho>' \<and> R (v(gen := x)) ((v(gen := x)) gen)" by simp
    then show "\<rho>' \<in> dom_sem E (doNewConstraint E c d1)" using sem by blast
  qed
qed

lemma models_value: "models E d v \<rho> \<Longrightarrow> im_find1 (d_idmap d) i = Some iv \<Longrightarrow> v (iv_g iv) = \<rho> i"
  by (simp add: models_def)

lemma assign_value:
  assumes ok: "dom_ok E gen d"
    and d1: "dom_ok E (gen + 1) d1"
      "im_find1 (d_idmap d1) = (im_find1 (d_idmap d))(i \<mapsto> idval_t gen step)" "d_poly d1 = d_poly d"
    and c: "wc_vars c \<subseteq> {..<gen + 1}" "\<And>v. wc_sat v c \<longleftrightarrow> v gen = F v"
    and F: "\<And>v v'. (\<And>g. g < gen \<Longrightarrow> v g = v' g) \<Longrightarrow> F v = F v'"
    and G: "\<And>v \<rho>. models E d v \<rho> \<Longrightarrow> F v = G \<rho>"
  shows "dom_sem E (doNewConstraint E c d1) = (\<lambda>\<rho>. \<rho>(i := G \<rho>)) ` dom_sem E d"
proof -
  have "dom_sem E (doNewConstraint E c d1) = {\<rho>(i := x) | \<rho> v x. models E d v \<rho> \<and> x = F v}"
  proof (rule assign_exact [OF ok d1 c(1), where R = "\<lambda>v x. x = F v"])
    show "wc_sat v c \<longleftrightarrow> v gen = F v" for v by (rule c(2))
    show "(x = F v) = (x = F v')" if "\<And>g. g < gen \<Longrightarrow> v g = v' g" for v v' x
      using F [OF that] by simp
  qed
  also have "\<dots> = (\<lambda>\<rho>. \<rho>(i := G \<rho>)) ` dom_sem E d"
  proof (intro set_eqI iffI)
    fix \<rho>'
    assume "\<rho>' \<in> {\<rho>(i := x) | \<rho> v x. models E d v \<rho> \<and> x = F v}"
    then obtain \<rho> v where r: "\<rho>' = \<rho>(i := F v)" "models E d v \<rho>" by blast
    then show "\<rho>' \<in> (\<lambda>\<rho>. \<rho>(i := G \<rho>)) ` dom_sem E d"
      using G [OF r(2)] models_dom_sem [OF r(2)] by (intro image_eqI [of _ _ \<rho>]) simp_all
  next
    fix \<rho>'
    assume "\<rho>' \<in> (\<lambda>\<rho>. \<rho>(i := G \<rho>)) ` dom_sem E d"
    then obtain \<rho> v where r: "\<rho>' = \<rho>(i := G \<rho>)" "models E d v \<rho>" by (auto simp: dom_sem_def)
    then show "\<rho>' \<in> {\<rho>(i := x) | \<rho> v x. models E d v \<rho> \<and> x = F v}"
      using G [OF r(2)] by (intro CollectI exI [of _ \<rho>] exI [of _ v]) simp
  qed
  finally show ?thesis .
qed

subsection \<open>Loops\<close>

lemma loop_entry:
  assumes ok: "dom_ok E gen d"
  obtains d' where "onLoopEntry E loop d gen = Some (d', gen + 1)" and "dom_ok E (gen + 1) d'"
    and "dom_sem E d' = (\<lambda>\<rho>. \<rho>(Ident loop ID_LOOP := 0)) ` dom_sem E d"
proof -
  let ?i = "Ident loop ID_LOOP" and ?c = "w_eq (V gen) (K 0)"
  obtain d0 where d0: "dom_copy d = Some d0" "dom_ok E gen d0"
    "im_find1 (d_idmap d0) = im_find1 (d_idmap d)" "d_poly d0 = d_poly d"
    using dom_copy_ok [OF ok] by metis
  obtain d1 where d1: "varNew ?i NO_STEP True d0 gen = Some (gen, d1, gen + 1)" "dom_ok E (gen + 1) d1"
    "im_find1 (d_idmap d1) = (im_find1 (d_idmap d))(?i \<mapsto> idval_t gen NO_STEP)" "d_poly d1 = d_poly d"
    using varNew_ok [OF d0(2), of ?i NO_STEP True] d0(3,4) by auto
  have vars: "wc_vars ?c \<subseteq> {..<gen + 1}" using wc_vars_ops(1) [of "V gen" "K 0"] by auto
  have "dom_sem E (doNewConstraint E ?c d1) = (\<lambda>\<rho>. \<rho>(?i := 0)) ` dom_sem E d"
    by (rule assign_value [OF ok d1(2-4) vars, where F = "\<lambda>v. 0"]) simp_all
  then show thesis using that d0(1) d1(1) constraint_ok(1) [OF d1(2) vars]
    by (simp add: onLoopEntry_def)
qed

lemma loop_iter:
  assumes ok: "dom_ok E gen d" and h: "hasIdent d (Ident loop ID_LOOP)"
  obtains d' where "onLoopIter E loop d gen = Some (d', gen + 1)" and "dom_ok E (gen + 1) d'"
    and "dom_sem E d' = (\<lambda>\<rho>. \<rho>(Ident loop ID_LOOP := \<rho> (Ident loop ID_LOOP) + 1)) ` dom_sem E d"
proof -
  let ?i = "Ident loop ID_LOOP"
  obtain iv where iv: "im_find1 (d_idmap d) ?i = Some iv" using h by (auto simp: hasIdent_iff)
  have lt: "iv_g iv < gen" by (rule dom_okD(5) [OF ok iv])
  let ?c = "w_eq (V gen) (le_add (V (iv_g iv)) (K 1))"
  obtain d0 where d0: "dom_copy d = Some d0" "dom_ok E gen d0"
    "im_find1 (d_idmap d0) = im_find1 (d_idmap d)" "d_poly d0 = d_poly d"
    using dom_copy_ok [OF ok] by metis
  obtain d1 where d1: "varNew ?i NO_STEP True d0 gen = Some (gen, d1, gen + 1)" "dom_ok E (gen + 1) d1"
    "im_find1 (d_idmap d1) = (im_find1 (d_idmap d))(?i \<mapsto> idval_t gen NO_STEP)" "d_poly d1 = d_poly d"
    using varNew_ok [OF d0(2), of ?i NO_STEP True] d0(3,4) by auto
  have vars: "wc_vars ?c \<subseteq> {..<gen + 1}"
    using wc_vars_ops(1) [of "V gen" "le_add (V (iv_g iv)) (K 1)"]
      le_add_coefs(4) [of "V (iv_g iv)" "K 1"] lt by auto
  have "dom_sem E (doNewConstraint E ?c d1) = (\<lambda>\<rho>. \<rho>(?i := \<rho> ?i + 1)) ` dom_sem E d"
    by (rule assign_value [OF ok d1(2-4) vars, where F = "\<lambda>v. v (iv_g iv) + 1"])
      (use lt models_value [OF _ iv] in auto)
  then show thesis using that d0 d1(1) constraint_ok(1) [OF d1(2) vars] iv h
    by (simp add: onLoopIter_def hasIdent_iff getVar0_ok)
qed

lemma loop_exit:
  assumes ok: "dom_ok E gen d" and h: "hasIdent d (Ident loop ID_LOOP)"
  obtains d' where "onLoopExit E loop bound d = Some d'" and "dom_ok E gen d'"
    and "\<And>\<rho>. \<rho> \<in> dom_sem E d \<Longrightarrow> 0 \<le> bound \<longrightarrow> \<rho> (Ident loop ID_LOOP) \<le> of_int bound \<Longrightarrow> \<rho> \<in> dom_sem E d'"
    and "\<not> hasIdent d' (Ident loop ID_LOOP)"
proof -
  let ?i = "Ident loop ID_LOOP"
  obtain d0 where d0: "dom_copy d = Some d0" "dom_ok E gen d0"
    "im_find1 (d_idmap d0) = im_find1 (d_idmap d)" "d_poly d0 = d_poly d"
    using dom_copy_ok [OF ok] by metis
  obtain iv where iv: "im_find1 (d_idmap d0) ?i = Some iv" using h d0(3) by (auto simp: hasIdent_iff)
  have lt: "iv_g iv < gen" and ns: "iv_s iv = NO_STEP" using dom_okD(5,6) [OF d0(2) iv] by auto
  let ?c = "w_le (V (iv_g iv)) (K bound)"
  define d1 where "d1 = (if bound \<ge> 0 then doNewConstraint E ?c d0 else d0)"
  have vars: "wc_vars ?c \<subseteq> {..<gen}" using wc_vars_ops(3) [of "V (iv_g iv)" "K bound"] lt by auto
  note con = constraint_ok [OF d0(2) vars]
  have d1: "dom_ok E gen d1" "im_find1 (d_idmap d1) = im_find1 (d_idmap d0)"
    using con d0 by (simp_all add: d1_def)
  have m1: "models E d1 v \<rho>" if "models E d v \<rho>" "0 \<le> bound \<longrightarrow> \<rho> ?i \<le> of_int bound" for v \<rho>
  proof -
    have "models E d0 v \<rho>" using that(1) models_cong [OF d0(3,4)] by simp
    moreover from this have "v (iv_g iv) = \<rho> ?i" by (rule models_value [OF _ iv])
    ultimately show ?thesis using con(2) that(2) by (simp add: d1_def)
  qed
  obtain d2 where d2: "varKill iv d1 = Some d2" "dom_ok E gen d2"
    "im_find1 (d_idmap d2) = (im_find1 (d_idmap d1))(?i := None)" "d_poly d2 = d_poly d1"
    using varKill_ok [OF d1(1), of ?i iv] iv d1(2) by metis
  have m2: "models E d2 v \<rho>" if "models E d1 v \<rho>" for v \<rho>
    using that d2(3,4) by (auto simp: models_def split: if_splits)
  have "iv = idval_t (iv_g iv) NO_STEP" using ns by (cases iv) simp
  then have kill: "varKillVar (iv_g iv) NO_STEP d1 = Some d2" using d2(1) by (simp add: varKillVar_def)
  let ?d = "if wp_is_empty (e_ppl E) (d_poly d2) then dom_bottom E else d2"
  have "\<rho> \<in> dom_sem E ?d" if r: "\<rho> \<in> dom_sem E d" "0 \<le> bound \<longrightarrow> \<rho> ?i \<le> of_int bound" for \<rho>
  proof -
    obtain v where "models E d v \<rho>" using r(1) by (auto simp: dom_sem_def)
    then have "models E d2 v \<rho>" using m1 r(2) m2 by blast
    moreover from this have "\<not> wp_is_empty (e_ppl E) (d_poly d2)" using empty_sound by (auto simp: models_def)
    ultimately show ?thesis by (auto simp: dom_sem_def)
  qed
  moreover have "onLoopExit E loop bound d = Some ?d"
    using d0(1) iv kill by (simp add: onLoopExit_def hasIdent_iff getVar0_ok d1_def Let_def)
  moreover have "\<not> hasIdent ?d ?i" using d2(3) by (simp add: hasIdent_iff dom_bottom_def)
  moreover have "dom_ok E gen ?d" using d2(2) by simp
  ultimately show thesis using that by blast
qed

end

end
