(* ===== verification/Domain_Queries.thy ===== *)
theory Domain_Queries
  imports Domain_Sem "HOL-Library.Signed_Division"
begin

text \<open>
  The questions the analysis asks of a state: ranges and constants, aliasing, positions in
  the stack and in the segments, the distance of two addresses modulo the step of an array,
  and the loop bound. Division and remainder truncate, as in C; a query on a constant
  polyhedron throws (\<open>None\<close>) when it mentions a variable that has no dimension.
\<close>

text \<open>Conversions of GMP integers to \<open>long\<close> and of \<open>long\<close> to \<open>int\<close>.\<close>

definition get_si :: "int \<Rightarrow> int" where
  "get_si x = sgn x * (\<bar>x\<bar> mod 2 ^ 63)"

definition to_int32 :: "int \<Rightarrow> int" where
  "to_int32 x = sint (word_of_int x :: 32 word)"

definition to_int64 :: "int \<Rightarrow> int" where
  "to_int64 x = sint (word_of_int x :: 64 word)"

subsection \<open>Ranges\<close>

text \<open>Bounds as (numerator, denominator), lower then upper; 0/0 where there is none.\<close>

definition getRange :: "'p env \<Rightarrow> 'p domain \<Rightarrow> guid \<Rightarrow> int \<times> int \<times> int \<times> int" where
  "getRange E d v =
     (let (sup_n, sup_d) = (case wp_maximize (e_ppl E) (d_poly d) (V v) of
            Some (n, k, b) \<Rightarrow> (n, k) | None \<Rightarrow> (0, 0));
          (inf_n, inf_d) = (case wp_minimize (e_ppl E) (d_poly d) (V v) of
            Some (n, k, b) \<Rightarrow> (n, k) | None \<Rightarrow> (0, 0))
      in (inf_n, inf_d, sup_n, sup_d))"

definition getRangeIdent :: "'p env \<Rightarrow> 'p domain \<Rightarrow> ident \<Rightarrow> (int \<times> int \<times> int \<times> int) option" where
  "getRangeIdent E d i = do { iv \<leftarrow> getVar d i True; Some (getRange E d (iv_g iv)) }"

definition getConstant :: "'p env \<Rightarrow> 'p domain \<Rightarrow> guid \<Rightarrow> (int \<times> int) option" where
  "getConstant E d v =
     (let (inf_n, inf_d, sup_n, sup_d) = getRange E d v
      in if sup_d = inf_d \<and> sup_n = inf_n \<and> sup_d \<noteq> 0 then Some (sup_n, sup_d) else None)"

text \<open>The outer option is the failed assertion of \<open>getVar\<close>.\<close>

definition getConstantIdent :: "'p env \<Rightarrow> 'p domain \<Rightarrow> ident \<Rightarrow> (int \<times> int) option option" where
  "getConstantIdent E d i = do { iv \<leftarrow> getVar d i True; Some (getConstant E d (iv_g iv)) }"

definition getLoopBound :: "'p env \<Rightarrow> 'p domain \<Rightarrow> int \<Rightarrow> int option" where
  "getLoopBound E d loop =
     (if isBottom E d then Some UNREACHABLE
      else do {
        (inf_n, inf_d, sup_n, sup_d) \<leftarrow> getRangeIdent E d (Ident loop ID_LOOP);
        Some (if get_ui sup_d \<noteq> 0 then to_int64 (get_ui sup_n div get_ui sup_d) else UNBOUNDED) })"

subsection \<open>Aliasing\<close>

definition mayAlias :: "'p env \<Rightarrow> 'p domain \<Rightarrow> guid \<Rightarrow> guid \<Rightarrow> bool option" where
  "mayAlias E d v1 v2 =
     map_option Not (wp_disjoint_const (e_ppl E) (d_poly d) (w_eq (V v1) (V v2)))"

definition mayRange :: "'p env \<Rightarrow> 'p domain \<Rightarrow> guid \<Rightarrow> guid \<Rightarrow> guid \<Rightarrow> int \<Rightarrow> bool option" where
  "mayRange E d base count target step =
     (if \<not> wp_isTracked (d_poly d) base \<or> \<not> wp_isTracked (d_poly d) target \<or>
         \<not> wp_isTracked (d_poly d) count then Some False
      else if step = STEP_BOT then mayAlias E d base target
      else do {
        below \<leftarrow> poly_implies_const E d (w_ge (le_sub (V base) (K 1)) (V target));
        if below then Some False
        else do {
          above \<leftarrow> poly_implies_const E d
            (w_le (le_add (V base) (le_scale step (V count))) (V target));
          Some (\<not> above) } })"

definition mustAlias :: "'p env \<Rightarrow> 'p domain \<Rightarrow> guid \<Rightarrow> guid \<Rightarrow> int \<Rightarrow> bool option" where
  "mustAlias E d v1 v2 offset =
     (if \<not> wp_isTracked (d_poly d) v1 \<or> \<not> wp_isTracked (d_poly d) v2 then Some False
      else poly_implies_const E d (w_eq (V v1) (le_add (V v2) (K offset))))"

definition shouldFold ::
  "'p env \<Rightarrow> guid \<Rightarrow> int \<Rightarrow> guid \<Rightarrow> guid \<Rightarrow> 'p domain \<Rightarrow> bool \<times> 'p domain" where
  "shouldFold E base step count newVar d =
     (let (straight, d) = poly_implies E
            (w_eq (le_add (V base) (le_scale step (V count))) (V newVar)) d;
          (reverse, d) = poly_implies E (w_eq (le_add (V newVar) (K step)) (V base)) d
      in (straight \<or> reverse, d))"

subsection \<open>Positions in memory\<close>

definition REG_SP :: ident where "REG_SP = Ident 13 ID_REG"
definition REG_LR :: ident where "REG_LR = Ident 14 ID_REG"

definition isInStack :: "'p env \<Rightarrow> 'p domain \<Rightarrow> guid \<Rightarrow> bool option" where
  "isInStack E d v = do {
     sp \<leftarrow> getVar0 d REG_SP;
     ssp \<leftarrow> getVar0 d (Ident ID_START_SP ID_SPECIAL);
     a \<leftarrow> poly_implies_const E d (w_gt (V v) (le_sub (V sp) (K 5)));
     if a then poly_implies_const E d (w_lt (V v) (V ssp)) else Some False }"

definition mayBeInStack :: "'p env \<Rightarrow> 'p domain \<Rightarrow> guid \<Rightarrow> bool option" where
  "mayBeInStack E d v = do {
     sp \<leftarrow> getVar0 d REG_SP;
     ssp \<leftarrow> getVar0 d (Ident ID_START_SP ID_SPECIAL);
     a \<leftarrow> poly_implies_const E d (w_lt (V v) (le_sub (V sp) (K 4)));
     ab \<leftarrow> (if a then poly_implies_const E d (w_ge (V v) (K (STACK_TOP - STACK_SIZE))) else Some False);
     if ab then Some False
     else do {
       above \<leftarrow> poly_implies_const E d (w_gt (V v) (V ssp));
       Some (\<not> above) } }"

definition seg_first :: "segment \<Rightarrow> int" where "seg_first s = sint (seg_address s)"
definition seg_last :: "segment \<Rightarrow> int" where "seg_last s = sint (seg_address s) + sint (seg_size s)"

definition mustBeInSegment :: "'p env \<Rightarrow> 'p domain \<Rightarrow> guid \<Rightarrow> segment \<Rightarrow> bool option" where
  "mustBeInSegment E d v s = do {
     a \<leftarrow> poly_implies_const E d (w_ge (V v) (K (seg_first s)));
     if a then poly_implies_const E d (w_lt (V v) (K (seg_last s))) else Some False }"

datatype segment_case = CASE_SAFE | CASE_UNSAFE | CASE_UNKNOWN

fun check_segments :: "'p env \<Rightarrow> 'p domain \<Rightarrow> guid \<Rightarrow> segment list \<Rightarrow> int \<Rightarrow> segment_case option" where
  "check_segments E d v [] endAdress = Some CASE_UNKNOWN"
| "check_segments E d v (s # ss) endAdress = do {
     a \<leftarrow> poly_implies_const E d (w_gt (V v) (K endAdress));
     between \<leftarrow> (if a then poly_implies_const E d (w_lt (V v) (K (seg_first s))) else Some False);
     if between then Some CASE_UNSAFE
     else do {
       inside \<leftarrow> mustBeInSegment E d v s;
       if inside then Some (if seg_writable s then CASE_SAFE else CASE_UNSAFE)
       else check_segments E d v ss (seg_last s) } }"

definition segmentChecking :: "'p env \<Rightarrow> 'p domain \<Rightarrow> guid \<Rightarrow> segment_case option" where
  "segmentChecking E d v = check_segments E d v (e_segments E) 0"

subsection \<open>Distances modulo a step\<close>

definition coef_nz :: "wcons \<Rightarrow> guid \<Rightarrow> bool" where
  "coef_nz c v \<longleftrightarrow> wc_has_var c v \<and> wc_coefficient c v \<noteq> Some 0"

definition coef_at :: "wcons \<Rightarrow> guid \<Rightarrow> int" where
  "coef_at c v = (case wc_coefficient c v of Some k \<Rightarrow> k | None \<Rightarrow> 0)"

fun delta_cons :: "guid \<Rightarrow> guid \<Rightarrow> guid \<Rightarrow> int \<Rightarrow> wcons list \<Rightarrow> int option" where
  "delta_cons v v1 v2 step [] = None"
| "delta_cons v v1 v2 step (c # cs) =
     (if is_equality c \<and> coef_nz c v \<and> coef_nz c v1 \<and> coef_nz c v2 \<and>
         coef_at c v sdiv coef_at c v1 = step \<and> coef_at c v sdiv coef_at c v2 = - step
      then Some (to_int32 (get_si (wc_inhomogeneous c)))
      else if is_equality c \<and> \<not> coef_nz c v \<and> coef_nz c v1 \<and> coef_nz c v2 \<and>
         coef_at c v2 sdiv coef_at c v1 = -1
      then Some (to_int32 (if get_si (coef_at c v2) < 0 then get_si (wc_inhomogeneous c)
                           else - get_si (wc_inhomogeneous c)))
      else delta_cons v v1 v2 step cs)"

fun delta_vars :: "'p env \<Rightarrow> 'p domain \<Rightarrow> guid \<Rightarrow> guid \<Rightarrow> int \<Rightarrow> guid list \<Rightarrow> int option" where
  "delta_vars E d v1 v2 step [] = Some (-1)"
| "delta_vars E d v1 v2 step (v # vs) =
     (if v = v1 \<or> v = v2 then delta_vars E d v1 v2 step vs
      else do {
        temp \<leftarrow> wp_filter_lambda (e_ppl E) (\<lambda>g. g = v \<or> g = v1 \<or> g = v2) (d_poly d);
        cs \<leftarrow> wp_constraints (e_ppl E) temp;
        case delta_cons v v1 v2 step cs of
          Some k \<Rightarrow> Some k
        | None \<Rightarrow> delta_vars E d v1 v2 step vs })"

definition delta :: "'p env \<Rightarrow> 'p domain \<Rightarrow> guid \<Rightarrow> guid \<Rightarrow> int \<Rightarrow> int option" where
  "delta E d v1 v2 step =
     (if step = 1 then Some 0
      else do {
        k \<leftarrow> delta_vars E d v1 v2 step (wp_vars (d_poly d));
        Some (if k = -1 \<or> step = 0 then k else k smod step) })"

text \<open>The extended Euclidean algorithm; \<open>inverse\<close> is taken modulo \<open>a\<close>.\<close>

function euclid_loop :: "int \<Rightarrow> int \<Rightarrow> int \<Rightarrow> int \<Rightarrow> int \<times> int" where
  "euclid_loop old_rest rest old_bezout bezout =
     (if rest = 0 then (old_rest, old_bezout)
      else let quotient = old_rest sdiv rest in
        euclid_loop rest (old_rest - quotient * rest) bezout (old_bezout - quotient * bezout))"
  by auto
termination
proof (relation "measure (\<lambda>(a, b, c, d). nat \<bar>b\<bar>)")
  fix old_rest rest old_bezout bezout quotient :: int
  assume "rest \<noteq> 0" and q: "quotient = old_rest sdiv rest"
  have "old_rest - quotient * rest = old_rest smod rest"
    using sdiv_mult_smod_eq [of old_rest rest] q by (simp add: algebra_simps)
  moreover have "\<bar>old_rest smod rest\<bar> < \<bar>rest\<bar>"
    using \<open>rest \<noteq> 0\<close> by (auto simp: signed_modulo_int_def abs_mult abs_sgn_eq)
  ultimately show "((rest, old_rest - quotient * rest, bezout, old_bezout - quotient * bezout),
      old_rest, rest, old_bezout, bezout) \<in> measure (\<lambda>(a, b, c, d). nat \<bar>b\<bar>)"
    by simp
qed simp

declare euclid_loop.simps [simp del]

text \<open>The result is the pair of \<open>gcd\<close> and \<open>inverse\<close>; the remainder by zero traps.\<close>

definition euclid :: "int \<Rightarrow> int \<Rightarrow> (int \<times> int) option" where
  "euclid a b =
     (let (g, z) = euclid_loop a b 0 1 in if a = 0 then None else Some (g, z smod a))"

definition lca :: "'p env \<Rightarrow> 'p domain \<Rightarrow> guid \<Rightarrow> int \<Rightarrow> guid \<Rightarrow> guid \<Rightarrow> int \<Rightarrow> guid \<Rightarrow> int option" where
  "lca E d b1 s1 n1 b2 s2 n2 = do {
     below \<leftarrow> poly_implies_const E d (w_le (V b1) (V b2));
     if \<not> below then Some (-1)
     else do {
       v \<leftarrow> delta E d b1 b2 s1;
       if v < 0 then Some (-1)
       else do {
         (g, dummy) \<leftarrow> euclid s1 s2;
         if v smod g \<noteq> 0 then Some (-1)
         else do {
           let s2p = s2 sdiv g;
           let s1p = s1 sdiv g;
           (dummy2, inverse) \<leftarrow> euclid s1p s2p;
           assert_that (s1p \<noteq> 0 \<and> s2 \<noteq> 0);
           Some (((- v * inverse) smod s1p) smod s2) } } } }"

definition mustSupseteq ::
  "'p env \<Rightarrow> 'p domain \<Rightarrow> guid \<Rightarrow> int \<Rightarrow> guid \<Rightarrow> guid \<Rightarrow> int \<Rightarrow> wlin \<Rightarrow> bool option" where
  "mustSupseteq E d b1 s1 n1 b2 s2 n2 =
     (if s1 = NO_STEP then
        (if s2 \<noteq> NO_STEP then Some False
         else let tmp = wp_add_constraint (e_ppl E) (w_eq (V b1) (V b2)) (d_poly d);
                  tmp = wp_add_constraint (e_ppl E) (w_eq (V n1) (K 1)) tmp;
                  tmp = wp_add_constraint (e_ppl E) (w_eq n2 (K 1)) tmp
              in wp_equals (e_ppl E) tmp (d_poly d))
      else if s2 = NO_STEP then do {
        a \<leftarrow> poly_implies_const E d (w_le (V b1) (V b2));
        b \<leftarrow> (if a then poly_implies_const E d
            (w_ge (le_add (V b1) (le_scale s1 (le_sub (V n1) (K 1))))
                  (le_add (V b2) (le_scale s2 (le_sub n2 (K 1))))) else Some False);
        if b then do { k \<leftarrow> delta E d b1 b2 s1; Some (k = 0) } else Some False }
      else None)"

subsection \<open>Variables and constraints of a polyhedron\<close>

definition collectPolyVars :: "'p env \<Rightarrow> 'p wpoly \<Rightarrow> oset option" where
  "collectPolyVars E w = do {
     cs \<leftarrow> wp_constraints (e_ppl E) w;
     Some (fold (\<lambda>c r. fold (\<lambda>g r. if coef_at c g \<noteq> 0 then os_insert g r else r) (wc_terms c) r) cs []) }"

definition report_constraints ::
  "'p env \<Rightarrow> 'p wpoly \<Rightarrow> guid \<Rightarrow> bool \<Rightarrow> 'p wpoly \<Rightarrow> 'p wpoly option" where
  "report_constraints E source v only_eq dest = do {
     cs \<leftarrow> wp_constraints (e_ppl E) source;
     Some (fold (\<lambda>c dest. if coef_nz c v \<and> (is_equality c \<or> \<not> only_eq)
       then wp_add_constraint (e_ppl E) c dest else dest) cs dest) }"

subsection \<open>The answers are right\<close>

context poly_env
begin

lemma range_sound:
  assumes ok: "wp_ok (e_ppl E) (d_poly d)" and r: "getRange E d g = (inf_n, inf_d, sup_n, sup_d)"
    and v: "v \<in> wsem (e_ppl E) (d_poly d)"
  shows "inf_d \<noteq> 0 \<Longrightarrow> 0 < inf_d \<and> of_int inf_n \<le> v g * of_int inf_d"
    and "sup_d \<noteq> 0 \<Longrightarrow> 0 < sup_d \<and> v g * of_int sup_d \<le> of_int sup_n"
proof -
  show "inf_d \<noteq> 0 \<Longrightarrow> 0 < inf_d \<and> of_int inf_n \<le> v g * of_int inf_d"
    using minimize_bound [OF ok _ v, of "V g"] r
    by (auto simp: getRange_def Let_def split: option.splits prod.splits)
  show "sup_d \<noteq> 0 \<Longrightarrow> 0 < sup_d \<and> v g * of_int sup_d \<le> of_int sup_n"
    using maximize_bound [OF ok _ v, of "V g"] r
    by (auto simp: getRange_def Let_def split: option.splits prod.splits)
qed

lemma constant_sound:
  assumes ok: "wp_ok (e_ppl E) (d_poly d)" and c: "getConstant E d g = Some (n, k)"
    and v: "v \<in> wsem (e_ppl E) (d_poly d)"
  shows "0 < k" and "v g * of_int k = of_int n"
proof -
  obtain inf_n inf_d sup_n sup_d where r: "getRange E d g = (inf_n, inf_d, sup_n, sup_d)" by (cases "getRange E d g")
  with c have e: "inf_n = n" "inf_d = k" "sup_n = n" "sup_d = k" "k \<noteq> 0"
    by (auto simp: getConstant_def split: if_splits)
  note s = range_sound [OF ok r v]
  show "0 < k" "v g * of_int k = of_int n" using s e by force+
qed

lemma implies_const_sound:
  assumes "wp_ok (e_ppl E) (d_poly d)" and "poly_implies_const E d c = Some True"
    and "v \<in> wsem (e_ppl E) (d_poly d)"
  shows "wc_sat v c"
  using assms included_const by (simp add: poly_implies_const_def)

lemma must_alias_sound:
  assumes ok: "wp_ok (e_ppl E) (d_poly d)" and m: "mustAlias E d g h k = Some True"
    and v: "v \<in> wsem (e_ppl E) (d_poly d)"
  shows "v g = v h + of_int k"
proof -
  have "poly_implies_const E d (w_eq (V g) (le_add (V h) (K k))) = Some True"
    using m by (auto simp: mustAlias_def split: if_splits)
  from implies_const_sound [OF ok this v] show ?thesis by simp
qed

lemma may_alias_sound:
  assumes ok: "wp_ok (e_ppl E) (d_poly d)" and m: "mayAlias E d g h = Some False"
    and v: "v \<in> wsem (e_ppl E) (d_poly d)"
  shows "v g \<noteq> v h"
  using disjoint_const [OF ok _ v, of "w_eq (V g) (V h)"] m by (auto simp: mayAlias_def)

lemma in_segment_sound:
  assumes ok: "wp_ok (e_ppl E) (d_poly d)" and m: "mustBeInSegment E d g s = Some True"
    and v: "v \<in> wsem (e_ppl E) (d_poly d)"
  shows "of_int (seg_first s) \<le> v g" and "v g < of_int (seg_last s)"
proof -
  have a: "poly_implies_const E d (w_ge (V g) (K (seg_first s))) = Some True"
    and b: "poly_implies_const E d (w_lt (V g) (K (seg_last s))) = Some True"
    using m by (auto simp: mustBeInSegment_def bindE split: if_splits)
  show "of_int (seg_first s) \<le> v g" using implies_const_sound [OF ok a v] by simp
  show "v g < of_int (seg_last s)" using implies_const_sound [OF ok b v] by simp
qed

lemma check_segments_safe:
  assumes ok: "wp_ok (e_ppl E) (d_poly d)" and c: "check_segments E d g ss k = Some CASE_SAFE"
    and v: "v \<in> wsem (e_ppl E) (d_poly d)"
  shows "\<exists>s \<in> set ss. seg_writable s \<and> of_int (seg_first s) \<le> v g \<and> v g < of_int (seg_last s)"
  using c
proof (induction ss arbitrary: k)
  case (Cons s ss)
  then obtain inside where i: "mustBeInSegment E d g s = Some inside"
    "if inside then seg_writable s else check_segments E d g ss (seg_last s) = Some CASE_SAFE"
    by (auto simp: bindE split: if_splits)
  then show ?case using in_segment_sound [OF ok _ v, of g s] Cons.IH by (cases inside) auto
qed simp

end

text \<open>The Euclidean algorithm computes the gcd and a modular inverse.\<close>

lemma euclid_loop_gcd:
  assumes "euclid_loop r s x y = (g, z)"
  shows "\<bar>g\<bar> = gcd r s"
    and "a dvd r - x * b \<Longrightarrow> a dvd s - y * b \<Longrightarrow> a dvd g - z * b"
proof -
  have "\<bar>g\<bar> = gcd r s \<and> (a dvd r - x * b \<longrightarrow> a dvd s - y * b \<longrightarrow> a dvd g - z * b)"
    using assms
  proof (induction r s x y rule: euclid_loop.induct)
    case (1 r s x y)
    show ?case
    proof (cases "s = 0")
      case True
      then show ?thesis using "1.prems" by (simp add: euclid_loop.simps)
    next
      case False
      let ?q = "r sdiv s"
      have e: "euclid_loop s (r - ?q * s) y (x - ?q * y) = (g, z)"
        using "1.prems" False by (subst (asm) euclid_loop.simps) (simp add: Let_def)
      have "r - ?q * s = (- ?q) * s + r" by simp
      then have "gcd s (r - ?q * s) = gcd r s" by (simp only: gcd_add_mult gcd.commute [of s r])
      moreover have "a dvd (r - ?q * s) - (x - ?q * y) * b" if "a dvd r - x * b" "a dvd s - y * b"
      proof -
        have "(r - ?q * s) - (x - ?q * y) * b = (r - x * b) - ?q * (s - y * b)" by (simp add: algebra_simps)
        then show ?thesis using that by (simp only: dvd_diff dvd_mult)
      qed
      ultimately show ?thesis using "1.IH" [OF False refl e] by simp
    qed
  qed
  then show "\<bar>g\<bar> = gcd r s" "a dvd r - x * b \<Longrightarrow> a dvd s - y * b \<Longrightarrow> a dvd g - z * b" by blast+
qed

lemma euclid_correct:
  assumes "a \<noteq> 0"
  obtains g z where "euclid a b = Some (g, z)" and "\<bar>g\<bar> = gcd a b" and "a dvd g - z * b"
proof -
  obtain g z where e: "euclid_loop a b 0 1 = (g, z)" by (cases "euclid_loop a b 0 1")
  have "a dvd g - z * b" using euclid_loop_gcd(2) [OF e, of a b] by simp
  moreover have "a dvd z - z smod a"
    using sdiv_mult_smod_eq [of z a] by (metis add_diff_cancel_right' dvd_triv_right)
  ultimately have "a dvd (g - z * b) + (z - z smod a) * b" by (intro dvd_add dvd_mult2)
  moreover have "(g - z * b) + (z - z smod a) * b = g - (z smod a) * b" by (simp add: algebra_simps)
  ultimately have "a dvd g - (z smod a) * b" by simp
  then show thesis using that e euclid_loop_gcd(1) [OF e] assms by (simp add: euclid_def)
qed

end
