(* ===== verification/Domain_Memory.thy ===== *)
theory Domain_Memory
  imports Domain_Queries
begin

text \<open>
  The memory of the abstract state (\<open>poly_PPLDomain.cpp\<close>). An abstract location is a
  number \<open>k\<close> with identifiers of the types address, value (or the pair of avatars
  \<open>plus\<close>/\<open>minus\<close> that bound it) and count: the cells \<open>base\<close>,
  \<open>base + step\<close>, \<dots> up to \<open>count\<close> of them. Locations are replaced under a fresh number
  when they are written.
\<close>

subsection \<open>Creating locations\<close>

definition varCreatePtr :: "'p domain \<Rightarrow> ident \<times> ident \<times> 'p domain" where
  "varCreatePtr d =
     (Ident (d_mem_ref d) ID_MEM_ADDR, Ident (d_mem_ref d) ID_MEM_VAL,
      d\<lparr>d_mem_ref := d_mem_ref d + 1\<rparr>)"

definition varCreateClp :: "'p domain \<Rightarrow> ident \<times> ident \<times> ident \<times> 'p domain" where
  "varCreateClp d =
     (Ident (d_mem_ref d) ID_MEM_ADDR, Ident (d_mem_ref d) ID_MEM_VAL,
      Ident (d_mem_ref d) ID_MEM_COUNT, d\<lparr>d_mem_ref := d_mem_ref d + 1\<rparr>)"

definition varCreateAvClp :: "'p domain \<Rightarrow> ident \<times> ident \<times> ident \<times> ident \<times> 'p domain" where
  "varCreateAvClp d =
     (Ident (d_mem_ref d) ID_MEM_ADDR, Ident (d_mem_ref d) ID_MEM_VAL_PLUS,
      Ident (d_mem_ref d) ID_MEM_VAL_MINUS, Ident (d_mem_ref d) ID_MEM_COUNT,
      d\<lparr>d_mem_ref := d_mem_ref d + 1\<rparr>)"

definition memSingleCreate ::
  "'p env \<Rightarrow> wlin \<Rightarrow> wlin \<Rightarrow> 'p domain \<Rightarrow> guid \<Rightarrow> (guid \<times> 'p domain \<times> guid) option" where
  "memSingleCreate E address valueSource d gen = do {
     let (idNewAddress, idNewValue, d) = varCreatePtr d;
     (newAddress, d, gen) \<leftarrow> varNew idNewAddress 0 False d gen;
     let d = doNewConstraint E (w_eq (V newAddress) address) d;
     (newValue, d, gen) \<leftarrow> varNew idNewValue NO_STEP False d gen;
     let d = doNewConstraint E (w_eq (V newValue) valueSource) d;
     Some (newAddress, d, gen) }"

definition memTabCreate ::
  "'p env \<Rightarrow> wlin \<Rightarrow> wlin \<Rightarrow> int \<Rightarrow> wlin \<Rightarrow> bool \<Rightarrow> 'p domain \<Rightarrow> guid \<Rightarrow>
   (guid \<times> 'p domain \<times> guid) option" where
  "memTabCreate E address valueSource step count unconstrained d gen = do {
     let (idNewAddress, idNewValue, idNewCount, d) = varCreateClp d;
     (newAddress, d, gen) \<leftarrow> varNew idNewAddress step False d gen;
     let d = doNewConstraint E (w_eq (V newAddress) address) d;
     (newValue, d, gen) \<leftarrow> varNew idNewValue NO_STEP False d gen;
     let d = (if \<not> unconstrained then doNewConstraint E (w_eq (V newValue) valueSource) d else d);
     (newCount, d, gen) \<leftarrow> varNew idNewCount NO_STEP False d gen;
     let d = doNewConstraint E (w_eq (V newCount) count) d;
     Some (newAddress, d, gen) }"

subsection \<open>Replacing and merging values\<close>

text \<open>
  \<open>memTabReplace\<close>. The source keeps a reference to the identifier of the address while
  \<open>varKill(address)\<close> frees the node it points into, and reads it afterwards; the model reads
  the value it had.
\<close>

definition memTabReplace ::
  "'p env \<Rightarrow> idval \<Rightarrow> guid \<Rightarrow> guid \<Rightarrow> 'p domain \<Rightarrow> guid \<Rightarrow> (guid \<times> 'p domain \<times> guid) option" where
  "memTabReplace E address valueSource count d gen = do {
     idOldAddress \<leftarrow> getIdent d address;
     let (idNewAddress, idNewValue, idNewCount, d) = varCreateClp d;
     (newAddress, d, gen) \<leftarrow> varNew idNewAddress (iv_s address) False d gen;
     let d = doNewConstraint E (w_eq (V (iv_g address)) (V newAddress)) d;
     (newValue, d, gen) \<leftarrow> varNew idNewValue NO_STEP False d gen;
     let d = doNewConstraint E (w_eq (V newValue) (V valueSource)) d;
     (newCount, d, gen) \<leftarrow> varNew idNewCount NO_STEP False d gen;
     let d = doNewConstraint E (w_eq (V newCount) (V count)) d;
     d \<leftarrow> varKill address d;
     d \<leftarrow> varKillVar count NO_STEP d;
     let k = id_num idOldAddress;
     d \<leftarrow> (if hasIdent d (Ident k ID_MEM_VAL) then do {
             oldValue \<leftarrow> getVar0 d (Ident k ID_MEM_VAL);
             varKillVar oldValue NO_STEP d }
           else do {
             oldValPlus \<leftarrow> getVar0 d (Ident k ID_MEM_VAL_PLUS);
             oldValMinus \<leftarrow> getVar0 d (Ident k ID_MEM_VAL_MINUS);
             d \<leftarrow> varKillVar oldValPlus NO_STEP d;
             varKillVar oldValMinus NO_STEP d });
     Some (newAddress, d, gen) }"

definition memReplace ::
  "'p env \<Rightarrow> idval \<Rightarrow> guid \<Rightarrow> 'p domain \<Rightarrow> guid \<Rightarrow> (guid \<times> 'p domain \<times> guid) option" where
  "memReplace E address valueSource d gen = do {
     idOldAddress \<leftarrow> getIdent d address;
     oldValue \<leftarrow> getVar0 d (Ident (id_num idOldAddress) ID_MEM_VAL);
     let (idNewAddress, idNewValue, d) = varCreatePtr d;
     (newAddress, d, gen) \<leftarrow> varNew idNewAddress (iv_s address) False d gen;
     let d = doNewConstraint E (w_eq (V (iv_g address)) (V newAddress)) d;
     (newValue, d, gen) \<leftarrow> varNew idNewValue NO_STEP False d gen;
     let d = doNewConstraint E (w_eq (V newValue) (V valueSource)) d;
     d \<leftarrow> varKillVar oldValue NO_STEP d;
     d \<leftarrow> varKill address d;
     Some (newAddress, d, gen) }"

text \<open>
  \<open>memMerge\<close>: the location may or may not be the one written. Both outcomes are built with
  the same fresh variables (the generator is set back by three in between) and joined.
\<close>

definition memMerge_value ::
  "'p env \<Rightarrow> idval \<Rightarrow> guid \<Rightarrow> guid \<Rightarrow> guid \<Rightarrow> 'p domain \<Rightarrow> guid \<Rightarrow> (guid \<times> 'p domain \<times> guid) option" where
  "memMerge_value E base newValue oldValue count d gen = do {
     tempState \<leftarrow> dom_copy d;
     (newAddr1, tempState, gen) \<leftarrow> memTabReplace E base newValue count tempState gen;
     let gen = gen - 3;
     (newAddr2, d, gen) \<leftarrow> memTabReplace E base oldValue count d gen;
     assert_that (im_equal (d_idmap d) (d_idmap tempState));
     assert_that (newAddr1 = newAddr2);
     p \<leftarrow> wp_hull (e_ppl E) (d_poly d) (d_poly tempState);
     Some (newAddr1, d\<lparr>d_poly := p\<rparr>, gen) }"

definition memMerge_avatar ::
  "'p env \<Rightarrow> ident \<Rightarrow> idval \<Rightarrow> guid \<Rightarrow> guid \<Rightarrow> 'p domain \<Rightarrow> guid \<Rightarrow> (guid \<times> 'p domain \<times> guid) option" where
  "memMerge_avatar E idOldBase base newValue count d gen = do {
     let k = id_num idOldBase;
     oldValPlus \<leftarrow> getVar0 d (Ident k ID_MEM_VAL_PLUS);
     oldValMinus \<leftarrow> getVar0 d (Ident k ID_MEM_VAL_MINUS);
     tempState \<leftarrow> dom_copy d;
     let (idNewBase, idNewValPlus, idNewValMinus, idNewCount, d) = varCreateAvClp d;
     (newBase, d, gen) \<leftarrow> varNew idNewBase (iv_s base) False d gen;
     let tempState = doNewConstraint E (w_eq (V newBase) (V (iv_g base))) tempState;
     let d = doNewConstraint E (w_eq (V newBase) (V (iv_g base))) d;
     (newValPlus, d, gen) \<leftarrow> varNew idNewValPlus NO_STEP False d gen;
     let tempState = doNewConstraint E (w_eq (V newValPlus) (V oldValPlus)) tempState;
     let d = doNewConstraint E (w_ge (V newValPlus) (V newValue)) d;
     (newValMinus, d, gen) \<leftarrow> varNew idNewValMinus NO_STEP False d gen;
     let tempState = doNewConstraint E (w_eq (V newValMinus) (V oldValMinus)) tempState;
     let d = doNewConstraint E (w_le (V newValMinus) (V newValue)) d;
     (newCount, d, gen) \<leftarrow> varNew idNewCount NO_STEP False d gen;
     let tempState = doNewConstraint E (w_eq (V newCount) (V count)) tempState;
     let d = doNewConstraint E (w_eq (V newCount) (V count)) d;
     p \<leftarrow> wp_hull (e_ppl E) (d_poly d) (d_poly tempState);
     let d = d\<lparr>d_poly := p\<rparr>;
     d \<leftarrow> varKillIdent (Ident k ID_MEM_VAL_PLUS) d;
     d \<leftarrow> varKillIdent (Ident k ID_MEM_VAL_MINUS) d;
     d \<leftarrow> varKillIdent idOldBase d;
     d \<leftarrow> varKillIdent (Ident k ID_MEM_COUNT) d;
     d \<leftarrow> doFinalizeUpdate E d;
     Some (newBase, d, gen) }"

definition memMerge ::
  "'p env \<Rightarrow> idval \<Rightarrow> guid \<Rightarrow> 'p domain \<Rightarrow> guid \<Rightarrow> (guid \<times> 'p domain \<times> guid) option" where
  "memMerge E base newValue d gen = do {
     idOldBase \<leftarrow> getIdent d base;
     count \<leftarrow> getVar0 d (Ident (id_num idOldBase) ID_MEM_COUNT);
     if hasIdent d (Ident (id_num idOldBase) ID_MEM_VAL) then do {
       oldValue \<leftarrow> getVar0 d (Ident (id_num idOldBase) ID_MEM_VAL);
       memMerge_value E base newValue oldValue count d gen }
     else memMerge_avatar E idOldBase base newValue count d gen }"

definition clpFold ::
  "'p env \<Rightarrow> guid \<Rightarrow> int \<Rightarrow> guid \<Rightarrow> int \<Rightarrow> guid \<Rightarrow> guid \<Rightarrow> 'p domain \<Rightarrow> guid \<Rightarrow> ('p domain \<times> guid) option" where
  "clpFold E base1 step1 base2 step2 baseMerged countMerged d gen = do {
     idBase1 \<leftarrow> getIdent d (idval_t base1 step1);
     idBase2 \<leftarrow> getIdent d (idval_t base2 step2);
     val1 \<leftarrow> getVar0 d (Ident (id_num idBase1) ID_MEM_VAL);
     val2 \<leftarrow> getVar0 d (Ident (id_num idBase2) ID_MEM_VAL);
     let summarized = gen;
     d \<leftarrow> doFold E summarized val1 val2 d;
     (a, d, gen) \<leftarrow> memTabCreate E (V baseMerged) (V summarized) step1 (V countMerged) False d (gen + 1);
     Some (d, gen) }"

subsection \<open>Initial values\<close>

text \<open>\<open>memGetInitial\<close>: the constant address and the initial value there, if any.\<close>

definition memGetInitial ::
  "'p env \<Rightarrow> ident \<Rightarrow> bool \<Rightarrow> 'p domain \<Rightarrow> (32 word \<times> 32 word) option option" where
  "memGetInitial E i force d = do {
     c \<leftarrow> getConstantIdent E d i;
     Some (case c of
       None \<Rightarrow> None
     | Some (num, den) \<Rightarrow>
         (let address = word_of_int (get_ui num div get_ui den);
              iswriteable = (case e_segment_at E address of Some s \<Rightarrow> seg_writable s | None \<Rightarrow> False)
          in if d_summary d \<noteq> None \<and> \<not> force \<and> iswriteable then None
             else map_option (\<lambda>value. (address, value)) (e_initial E address))) }"

subsection \<open>Avatars\<close>

text \<open>
  \<open>_doAvatarSplit\<close>: \<open>vminus\<close> becomes a lower and the new \<open>vplus\<close> an upper bound.
  \<open>avatar_terms\<close> builds the two expressions of one constraint.
\<close>

definition avatar_terms :: "guid \<Rightarrow> guid \<Rightarrow> wcons \<Rightarrow> wlin \<times> wlin" where
  "avatar_terms vminus vplus c =
     (let (le, le2) = fold (\<lambda>g (le, le2).
            let k = coef_at c g in
            if k = 0 then (le, le2)
            else if g = vminus then
              (if k > 0 then (le_add le (le_scale k (V vplus)), le_add le2 (le_scale k (V g)))
               else (le_add le (le_scale k (V g)), le_add le2 (le_scale k (V vplus))))
            else (le_add le (le_scale k (V g)), le_add le2 (le_scale k (V g)))) (wc_terms c) (K 0, K 0)
      in (le_add le (K (wc_inhomogeneous c)), le_add le2 (K (wc_inhomogeneous c))))"

definition avatar_constraint :: "'p env \<Rightarrow> guid \<Rightarrow> guid \<Rightarrow> wcons \<Rightarrow> 'p wpoly \<Rightarrow> 'p wpoly" where
  "avatar_constraint E vminus vplus c result =
     (if coef_nz c vminus then
        (let (le, le2) = avatar_terms vminus vplus c;
             result = wp_add_constraint (e_ppl E) (w_ge le (K 0)) result
         in if is_equality c then wp_add_constraint (e_ppl E) (w_le le2 (K 0)) result else result)
      else wp_add_constraint (e_ppl E) c result)"

definition doAvatarSplit :: "'p env \<Rightarrow> guid \<Rightarrow> 'p domain \<Rightarrow> guid \<Rightarrow> (guid \<times> 'p domain \<times> guid) option" where
  "doAvatarSplit E vminus d gen = do {
     let vplus = gen;
     cs \<leftarrow> wp_constraints (e_ppl E) (d_poly d);
     let result = fold (avatar_constraint E vminus vplus) cs (wp_new (e_ppl E) False);
     Some (vplus, d\<lparr>d_poly := result\<rparr>, gen + 1) }"

definition mem_idents :: "int \<Rightarrow> ident list" where
  "mem_idents k = [Ident k ID_MEM_ADDR, Ident k ID_MEM_VAL_PLUS, Ident k ID_MEM_VAL_MINUS, Ident k ID_MEM_COUNT]"

definition doRemoveAllAvatars :: "'p domain \<Rightarrow> 'p domain option" where
  "doRemoveAllAvatars d =
     foldM varKillIdent (concat (map (\<lambda>(i, iv).
       if id_type i = ID_MEM_ADDR \<and> \<not> hasIdent d (Ident (id_num i) ID_MEM_VAL)
       then mem_idents (id_num i) else []) (im_pairs (d_idmap d)))) d"

text \<open>One turn of the loop of \<open>doRemoveUselessAvatars\<close>; the identifiers to kill are collected.\<close>

definition useless_avatar ::
  "'p env \<Rightarrow> ident \<Rightarrow> 'p domain \<times> ident list \<Rightarrow> ('p domain \<times> ident list) option" where
  "useless_avatar E i = (\<lambda>(d, toKill).
     let k = id_num i in
     if id_type i = ID_MEM_ADDR \<and> \<not> hasIdent d (Ident k ID_MEM_VAL) then do {
       count \<leftarrow> getVar0 d (Ident k ID_MEM_COUNT);
       let (positive, d) = poly_implies E (w_gt (V count) (K 0)) d;
       if positive then do {
         valPlus \<leftarrow> getVar0 d (Ident k ID_MEM_VAL_PLUS);
         valMinus \<leftarrow> getVar0 d (Ident k ID_MEM_VAL_MINUS);
         let d = doNewConstraint E (w_eq (V valPlus) (V valMinus)) d;
         m \<leftarrow> im_del1 (Ident k ID_MEM_VAL_PLUS) (d_idmap d);
         Some (d\<lparr>d_idmap := im_add (Ident k ID_MEM_VAL) (idval_t valPlus NO_STEP) m\<rparr>,
           toKill @ [Ident k ID_MEM_VAL_MINUS]) }
       else
         let (zero, d) = poly_implies E (w_eq (V count) (K 0)) d in
         Some (d, if zero then toKill @ mem_idents k else toKill) }
     else Some (d, toKill))"

definition doRemoveUselessAvatars :: "'p env \<Rightarrow> 'p domain \<Rightarrow> 'p domain option" where
  "doRemoveUselessAvatars E d = do {
     (d, toKill) \<leftarrow> foldM (useless_avatar E) (map fst (im_pairs (d_idmap d))) (d, []);
     foldM varKillIdent toKill d }"

text \<open>\<open>listMemoryVariables\<close> counts the identifiers and aborts when one is unaccounted for.\<close>

record mem_count =
  n_av :: nat
  n_sing :: nat
  n_tab :: nat
  n_reg :: nat
  n_spe :: nat
  n_loop :: nat
  n_total :: nat

definition count_ident :: "'p env \<Rightarrow> ident \<Rightarrow> 'p domain \<times> mem_count \<Rightarrow> ('p domain \<times> mem_count) option" where
  "count_ident E i = (\<lambda>(d, c). do {
     let c = c\<lparr>n_total := n_total c + 1\<rparr>;
     (d, c) \<leftarrow> (if id_type i = ID_MEM_ADDR then do {
         count \<leftarrow> getVar0 d (Ident (id_num i) ID_MEM_COUNT);
         if \<not> hasIdent d (Ident (id_num i) ID_MEM_VAL) then Some (d, c\<lparr>n_av := n_av c + 1\<rparr>)
         else
           let (one, d) = poly_implies E (w_eq (V count) (K 1)) d in
           Some (d, if one then c\<lparr>n_sing := n_sing c + 1\<rparr> else c\<lparr>n_tab := n_tab c + 1\<rparr>) }
       else Some (d, c));
     let c = (if id_type i = ID_REG then c\<lparr>n_reg := n_reg c + 1\<rparr> else c);
     let c = (if id_type i = ID_SPECIAL then c\<lparr>n_spe := n_spe c + 1\<rparr> else c);
     let c = (if id_type i = ID_LOOP then c\<lparr>n_loop := n_loop c + 1\<rparr> else c);
     Some (d, c) })"

definition listMemoryVariables :: "'p env \<Rightarrow> 'p domain \<Rightarrow> 'p domain option" where
  "listMemoryVariables E d = do {
     d \<leftarrow> doRemoveUselessAvatars E d;
     d \<leftarrow> doFinalizeUpdate E d;
     (d, c) \<leftarrow> foldM (count_ident E) (map fst (im_pairs (d_idmap d)))
       (d, \<lparr>n_av = 0, n_sing = 0, n_tab = 0, n_reg = 0, n_spe = 0, n_loop = 0, n_total = 0\<rparr>);
     assert_that (n_av c * 4 + (n_sing c + n_tab c) * 3 + n_reg c + n_loop c + n_spe c = n_total c);
     Some d }"

subsection \<open>Calls\<close>

text \<open>
  The saved link register of call depth \<open>k\<close> is the special identifier \<open>ID_START_LR + k\<close>.
  The search for the first free one looks at one candidate more than there are identifiers.
\<close>

definition slr_free :: "'p domain \<Rightarrow> int option" where
  "slr_free d = List.find (\<lambda>k. \<not> hasIdent d (Ident k ID_SPECIAL))
     (map (\<lambda>k. ID_START_LR + int k) [0..<Suc (length (im_pairs (d_idmap d)))])"

definition doEnterFunction :: "'p env \<Rightarrow> 'p domain \<Rightarrow> guid \<Rightarrow> ('p domain \<times> guid) option" where
  "doEnterFunction E d gen = do {
     let gen = gen + 1;
     depth \<leftarrow> slr_free d;
     (slr, d, gen) \<leftarrow> varNew (Ident depth ID_SPECIAL) NO_STEP True d gen;
     (lr, d, gen) \<leftarrow> getVarOrNew REG_LR d gen;
     Some (doNewConstraint E (w_eq (V slr) (V lr)) d, gen) }"

definition out_of_scope ::
  "'p env \<Rightarrow> ident \<times> idval \<Rightarrow> 'p domain \<times> ident list \<Rightarrow> ('p domain \<times> ident list) option" where
  "out_of_scope E = (\<lambda>(i, iv) (d, toDel).
     if id_type i = ID_MEM_ADDR then do {
       sp \<leftarrow> getVar0 d REG_SP;
       let (below, d) = poly_implies E (w_lt (V (iv_g iv)) (V sp)) d;
       let (dead, d) = (if below
         then poly_implies E (w_ge (V (iv_g iv)) (K (STACK_TOP - STACK_SIZE))) d else (False, d));
       let k = id_num i;
       Some (d, if dead then toDel @ [i] @
           (if hasIdent d (Ident k ID_MEM_VAL) then [Ident k ID_MEM_VAL]
            else [Ident k ID_MEM_VAL_PLUS, Ident k ID_MEM_VAL_MINUS]) @
           (if hasIdent d (Ident k ID_MEM_COUNT) then [Ident k ID_MEM_COUNT] else [])
         else toDel) }
     else Some (d, toDel))"

text \<open>\<open>doLeaveFunction\<close> also reports whether the return address is provably the saved one.\<close>

definition doLeaveFunction :: "'p env \<Rightarrow> 'p domain \<Rightarrow> (bool \<times> 'p domain) option" where
  "doLeaveFunction E d = do {
     depth \<leftarrow> slr_free d;
     let id_slr = Ident (depth - 1) ID_SPECIAL;
     slr \<leftarrow> getVar0 d id_slr;
     lr \<leftarrow> getVar0 d REG_LR;
     safe \<leftarrow> mustAlias E d slr lr 0;
     d \<leftarrow> varKillIdent id_slr d;
     (d, toDel) \<leftarrow> foldM (out_of_scope E) (im_pairs (d_idmap d)) (d, []);
     d \<leftarrow> foldM varKillIdent toDel d;
     Some (safe, d) }"

end
