(* ===== verification/Sem_Inst.thy ===== *)
theory Sem_Inst
  imports Domain_Memory
begin

text \<open>
  The transfer function of semantic instructions (\<open>PPLDomain::onSemInst\<close> and
  \<open>_doBinaryOp\<close>). The cases STORE and LOAD are split into their loops: \<open>store_classify\<close>
  finds the location that is certainly written and those that may be, \<open>store_fold\<close> tries to
  append a new location to an array, \<open>load_one\<close> treats one location that holds the loaded
  cell.
\<close>

subsection \<open>Instructions\<close>

datatype opcode =
    NOP | BRANCH | TRAP | CONT | IF | LOAD | STORE | SCRATCH | SET | SETI | SETP | CMP | CMPU | ADD | SUB
  | SHL | SHR | ASR | NEG | NOT | AND_OP | OR_OP | XOR_OP | MUL | MULU | DIV_OP | DIVU | MOD_OP | MODU
  | SPEC | MULH | ASSUME | FORK

text \<open>\<open>cst\<close> shares its storage with \<open>a\<close> and \<open>b\<close>; an instruction reads one or the other.\<close>

record sem_inst =
  si_op :: opcode
  si_d :: int
  si_a :: int
  si_b :: int
  si_cst :: "32 word"

definition cond_of_int :: "int \<Rightarrow> cond" where
  "cond_of_int k =
     (case map_of [(0, NO_COND), (1, EQ), (2, LT), (3, LE), (4, GE), (5, GT), (8, ANY_COND), (9, NE),
        (10, ULT), (11, ULE), (12, UGE), (13, UGT)] k of Some c \<Rightarrow> c | None \<Rightarrow> MAX_COND)"

abbreviation Reg :: "int \<Rightarrow> ident" where "Reg r \<equiv> Ident r ID_REG"

subsection \<open>Binary operations\<close>

text \<open>\<open>1 << n\<close> on \<open>int\<close>; a count of 32 or more is undefined, and the model stops.\<close>

definition shift_one :: "int \<Rightarrow> int option" where
  "shift_one n = (if n < 32 then Some (sint (push_bit (nat n) 1 :: 32 word)) else None)"

definition doBinaryOp ::
  "'p env \<Rightarrow> opcode \<Rightarrow> guid \<Rightarrow> guid \<Rightarrow> guid \<Rightarrow> 'p domain \<Rightarrow> 'p domain option" where
  "doBinaryOp E op v vs1 vs2 d =
     (if op = ADD then Some (doNewConstraint E (w_eq (V v) (le_add (V vs1) (V vs2))) d)
      else if op = SHL then
        (case getConstant E d vs2 of
           Some (n, k) \<Rightarrow>
             if k = 1 then do { m \<leftarrow> shift_one (get_ui n);
               Some (doNewConstraint E (w_eq (V v) (le_scale m (V vs1))) d) }
             else Some (doNewConstraint E (w_ge (V v) (V vs1)) d)
         | None \<Rightarrow> Some (doNewConstraint E (w_ge (V v) (V vs1)) d))
      else if op \<in> {CMP, CMPU, SUB} then
        Some (doNewConstraint E (w_eq (V v) (le_sub (V vs1) (V vs2))) d)
      else if op \<in> {SHR, ASR} then
        (case getConstant E d vs2 of
           Some (n, k) \<Rightarrow>
             if k = 1 then do { m \<leftarrow> shift_one (get_ui n);
               Some (doNewConstraint E (w_eq (V vs1) (le_scale m (V v))) d) }
             else Some (doNewConstraint E (w_ge (V vs1) (V v)) d)
         | None \<Rightarrow> Some (doNewConstraint E (w_ge (V vs1) (V v)) d))
      else if op \<in> {MUL, MULH} then
        (case getConstant E d vs1 of
           Some (n, k) \<Rightarrow> Some (doNewConstraint E (w_eq (le_scale k (V v)) (le_scale n (V vs2))) d)
         | None \<Rightarrow>
             (case getConstant E d vs2 of
                Some (n, k) \<Rightarrow> Some (doNewConstraint E (w_eq (le_scale k (V v)) (le_scale n (V vs1))) d)
              | None \<Rightarrow> Some d))
      else Some d)"

text \<open>The common part of the binary operations: an undefined operand leaves the state alone.\<close>

definition sem_binary :: "'p env \<Rightarrow> sem_inst \<Rightarrow> 'p domain \<Rightarrow> guid \<Rightarrow> ('p domain \<times> guid) option" where
  "sem_binary E si s_out gen =
     (if \<not> hasIdent s_out (Reg (si_a si)) \<or> \<not> hasIdent s_out (Reg (si_b si)) then Some (s_out, gen)
      else do {
        vs1 \<leftarrow> getVar0 s_out (Reg (si_a si));
        vs2 \<leftarrow> getVar0 s_out (Reg (si_b si));
        (v, s_out, gen) \<leftarrow> varNew (Reg (si_d si)) NO_STEP True s_out gen;
        s_out \<leftarrow> doBinaryOp E (si_op si) v vs1 vs2 s_out;
        Some (s_out, gen) })"

definition sem_seti :: "'p env \<Rightarrow> sem_inst \<Rightarrow> 'p domain \<Rightarrow> guid \<Rightarrow> ('p domain \<times> guid) option" where
  "sem_seti E si s_out gen = do {
     (v, s_out, gen) \<leftarrow> varNew (Reg (si_d si)) NO_STEP True s_out gen;
     Some (doNewConstraint E (w_eq (V v) (K (sint (si_cst si)))) s_out, gen) }"

definition sem_set :: "'p env \<Rightarrow> sem_inst \<Rightarrow> 'p domain \<Rightarrow> guid \<Rightarrow> ('p domain \<times> guid) option" where
  "sem_set E si s_out gen =
     (if \<not> hasIdent s_out (Reg (si_a si)) then Some (s_out, gen)
      else do {
        vs \<leftarrow> getVar0 s_out (Reg (si_a si));
        (v, s_out, gen) \<leftarrow> varNew (Reg (si_d si)) NO_STEP True s_out gen;
        Some (doNewConstraint E (w_eq (V v) (V vs)) s_out, gen) })"

subsection \<open>Stores\<close>

definition DEBUG_REG_COMMAND :: int where "DEBUG_REG_COMMAND = 0x42"
definition DEBUG_REG_ASSERT :: int where "DEBUG_REG_ASSERT = 0x43"

text \<open>
  The reserved addresses: \<open>Some True\<close> when the store is a debug command that ends the case,
  \<open>None\<close> when an assertion of the analysed program is not proved. \<open>d\<close> is the state
  before the instruction.
\<close>

definition store_debug :: "'p env \<Rightarrow> 'p domain \<Rightarrow> ident \<Rightarrow> ident \<Rightarrow> guid \<Rightarrow> bool option" where
  "store_debug E d idStoreAddr idStoreValue storeValue = do {
     c \<leftarrow> getConstantIdent E d idStoreAddr;
     case c of
       None \<Rightarrow> Some False
     | Some (num, den) \<Rightarrow>
         (let address = get_ui num div get_ui den in
          if address = DEBUG_REG_COMMAND then do {
            c2 \<leftarrow> getConstantIdent E d idStoreValue; Some True }
          else if address = DEBUG_REG_ASSERT then do {
            ok \<leftarrow> poly_implies_const E d (w_eq (V storeValue) (K 0));
            assert_that ok;
            Some True }
          else Some False) }"

text \<open>One identifier of the mapping: is it the location written, or may it overlap it?\<close>

definition store_one ::
  "'p env \<Rightarrow> 'p domain \<Rightarrow> 'p domain \<Rightarrow> guid \<Rightarrow> ident \<times> idval \<Rightarrow> ident option \<times> ident list \<Rightarrow>
   (ident option \<times> ident list) option" where
  "store_one E d s_out storeAddr = (\<lambda>(i, iv) (equiv, overlaps).
     if id_type i = ID_MEM_ADDR then do {
       must \<leftarrow> mustAlias E s_out (iv_g iv) storeAddr 0;
       if must \<and> iv_s iv = 0 then do {
         assert_that (equiv = None);
         Some (Some i, overlaps) }
       else do {
         count \<leftarrow> getVar0 d (Ident (id_num i) ID_MEM_COUNT);
         may \<leftarrow> mayRange E s_out (iv_g iv) count storeAddr (iv_s iv);
         if may then do {
           k \<leftarrow> delta E d (iv_g iv) storeAddr (iv_s iv);
           Some (equiv, if k \<le> 0 then overlaps @ [i] else overlaps) }
         else Some (equiv, overlaps) } }
     else Some (equiv, overlaps))"

definition store_classify ::
  "'p env \<Rightarrow> 'p domain \<Rightarrow> 'p domain \<Rightarrow> guid \<Rightarrow> (ident option \<times> ident list) option" where
  "store_classify E d s_out storeAddr =
     foldM (store_one E d s_out storeAddr) (im_pairs (d_idmap s_out)) (None, [])"

definition store_merge ::
  "'p env \<Rightarrow> guid \<Rightarrow> ident \<Rightarrow> 'p domain \<times> guid \<Rightarrow> ('p domain \<times> guid) option" where
  "store_merge E storeValue i = (\<lambda>(s_out, gen). do {
     iv \<leftarrow> getVar s_out i True;
     assert_that (id_type i = ID_MEM_ADDR \<and> iv_s iv > -1);
     (a, s_out, gen) \<leftarrow> memMerge E iv storeValue s_out gen;
     Some (s_out, gen) })"

text \<open>The step of an array guessed from the distance of two addresses.\<close>

definition guess_step :: "'p env \<Rightarrow> guid \<Rightarrow> guid \<Rightarrow> int \<Rightarrow> 'p domain \<Rightarrow> int" where
  "guess_step E newAddr tabAddr step s_out =
     (if step = STEP_BOT then
        (case wp_maximize (e_ppl E) (d_poly s_out) (le_sub (V newAddr) (V tabAddr)) of
           Some (num, den, b) \<Rightarrow>
             (let tmp = to_int32 (get_si num sdiv get_si den) in
              if num \<noteq> 0 \<and> den \<noteq> 0 \<and> tmp > 0 then tmp else step)
         | None \<Rightarrow> step)
      else step)"

text \<open>Appending the new location \<open>idAddrNew\<close> to the array \<open>i\<close> at \<open>tabAddr\<close>.\<close>

definition fold_into ::
  "'p env \<Rightarrow> ident \<Rightarrow> ident \<Rightarrow> guid \<Rightarrow> int \<Rightarrow> guid \<Rightarrow> 'p domain \<Rightarrow> guid \<Rightarrow> ('p domain \<times> guid) option" where
  "fold_into E idAddrNew i tabAddr step count s_out gen = do {
     let k = id_num i;
     let n = id_num idAddrNew;
     newVal \<leftarrow> getVar0 s_out (Ident n ID_MEM_VAL);
     oldValPlus \<leftarrow> getVar0 s_out (Ident k ID_MEM_VAL_PLUS);
     oldValMinus \<leftarrow> getVar0 s_out (Ident k ID_MEM_VAL_MINUS);
     (a, s_out, gen) \<leftarrow> memTabCreate E (V tabAddr) (K 0) step (le_add (V count) (K 1)) True s_out gen;
     foldedVal \<leftarrow> getVar0 s_out (Ident (d_mem_ref s_out - 1) ID_MEM_VAL);
     let empty_case = d_poly s_out;
     let s_out = doNewConstraint E (w_eq (V oldValPlus) (V oldValMinus)) s_out;
     s_out \<leftarrow> doFold E foldedVal newVal oldValPlus s_out;
     let empty_case = wp_add_constraint (e_ppl E) (w_eq (V foldedVal) (V newVal)) empty_case;
     let s_out = doNewConstraint E (w_gt (V count) (K 0)) s_out;
     let empty_case = wp_add_constraint (e_ppl E) (w_eq (V count) (K 0)) empty_case;
     p \<leftarrow> wp_hull (e_ppl E) (d_poly s_out) empty_case;
     let s_out = s_out\<lparr>d_poly := p\<rparr>;
     s_out \<leftarrow> foldM varKillIdent
       [i, Ident k ID_MEM_COUNT, Ident k ID_MEM_VAL_PLUS, Ident k ID_MEM_VAL_MINUS,
        idAddrNew, Ident n ID_MEM_VAL, Ident n ID_MEM_COUNT] s_out;
     s_out \<leftarrow> doFinalizeUpdate E s_out;
     Some (s_out, gen) }"

fun store_fold ::
  "'p env \<Rightarrow> ident \<Rightarrow> guid \<Rightarrow> (ident \<times> idval) list \<Rightarrow> 'p domain \<Rightarrow> guid \<Rightarrow> ('p domain \<times> guid) option" where
  "store_fold E idAddrNew newAddr [] s_out gen = Some (s_out, gen)"
| "store_fold E idAddrNew newAddr ((i, iv) # ps) s_out gen =
     (if id_type i \<noteq> ID_MEM_ADDR then store_fold E idAddrNew newAddr ps s_out gen
      else if i = idAddrNew then Some (s_out, gen)
      else do {
        tab \<leftarrow> getVar s_out i True;
        count \<leftarrow> getVar0 s_out (Ident (id_num i) ID_MEM_COUNT);
        let step = guess_step E newAddr (iv_g tab) (iv_s tab) s_out;
        let (append, s_out) = (if step \<noteq> STEP_BOT
          then shouldFold E (iv_g tab) step count newAddr s_out else (False, s_out));
        if append \<and> hasIdent s_out (Ident (id_num i) ID_MEM_VAL_PLUS)
        then fold_into E idAddrNew i (iv_g tab) step count s_out gen
        else store_fold E idAddrNew newAddr ps s_out gen })"

text \<open>
  STORE. \<open>_isArrayStore\<close> answers true without looking at its arguments, so the search for an
  array to extend always follows the creation of a location.
\<close>

definition sem_store :: "'p env \<Rightarrow> sem_inst \<Rightarrow> 'p domain \<Rightarrow> 'p domain \<Rightarrow> guid \<Rightarrow> ('p domain \<times> guid) option" where
  "sem_store E si d s_out gen = do {
     (storeAddr, s_out, gen) \<leftarrow> getVarOrNew (Reg (si_a si)) s_out gen;
     (storeValue, s_out, gen) \<leftarrow> getVarOrNew (Reg (si_d si)) s_out gen;
     debug \<leftarrow> store_debug E d (Reg (si_a si)) (Reg (si_d si)) storeValue;
     if debug then Some (s_out, gen)
     else do {
       (equiv, overlaps) \<leftarrow> store_classify E d s_out storeAddr;
       (s_out, gen) \<leftarrow> foldM (store_merge E storeValue) overlaps (s_out, gen);
       case equiv of
         Some i \<Rightarrow> do {
           iv \<leftarrow> getVar s_out i True;
           assert_that (id_type i = ID_MEM_ADDR \<and> iv_s iv > -1);
           count \<leftarrow> getVar0 d (Ident (id_num i) ID_MEM_COUNT);
           (a, s_out, gen) \<leftarrow> memTabReplace E iv storeValue count s_out gen;
           Some (s_out, gen) }
       | None \<Rightarrow> do {
           (a, s_out, gen) \<leftarrow> memTabCreate E (V storeAddr) (V storeValue) STEP_BOT (K 1) False s_out gen;
           let idAddrNew = Ident (d_mem_ref s_out - 1) ID_MEM_ADDR;
           newAddr \<leftarrow> getVar s_out idAddrNew True;
           store_fold E idAddrNew (iv_g newAddr) (im_pairs (d_idmap s_out)) s_out gen } } }"

subsection \<open>Loads\<close>

definition load_value ::
  "'p env \<Rightarrow> int \<Rightarrow> bool \<Rightarrow> guid \<Rightarrow> 'p domain \<Rightarrow> guid \<Rightarrow> ('p domain \<times> guid) option" where
  "load_value E k exact loadReg s_out gen =
     (if hasIdent s_out (Ident k ID_MEM_VAL) then do {
        existing \<leftarrow> getVar0 s_out (Ident k ID_MEM_VAL);
        if exact then Some (doNewConstraint E (w_eq (V loadReg) (V existing)) s_out, gen)
        else do {
          let expanded = gen;
          s_out \<leftarrow> doExpand E existing expanded s_out;
          let s_out = s_out\<lparr>d_victims := d_victims s_out @ [expanded]\<rparr>;
          Some (doNewConstraint E (w_eq (V loadReg) (V expanded)) s_out, gen + 1) } }
      else do {
        plus \<leftarrow> getVar0 s_out (Ident k ID_MEM_VAL_PLUS);
        minus \<leftarrow> getVar0 s_out (Ident k ID_MEM_VAL_MINUS);
        let expandedPlus = gen;
        let expandedMinus = gen + 1;
        s_out \<leftarrow> doAvExpand E plus minus expandedPlus expandedMinus s_out;
        let s_out = doNewConstraint E (w_eq (V loadReg) (V expandedPlus)) s_out;
        let s_out = doNewConstraint E (w_eq (V loadReg) (V expandedMinus)) s_out;
        Some (s_out\<lparr>d_victims := d_victims s_out @ [expandedPlus, expandedMinus]\<rparr>, gen + 2) })"

definition load_one ::
  "'p env \<Rightarrow> 'p domain \<Rightarrow> guid \<Rightarrow> guid \<Rightarrow> ident \<times> idval \<Rightarrow> 'p domain \<times> bool \<times> guid \<Rightarrow>
   ('p domain \<times> bool \<times> guid) option" where
  "load_one E d loadAddr loadReg = (\<lambda>(i, iv) (s_out, found, gen).
     if id_type i = ID_MEM_ADDR then do {
       base \<leftarrow> getVar d i True;
       count \<leftarrow> getVar0 d (Ident (id_num i) ID_MEM_COUNT);
       let step = iv_s base;
       let gen = gen + 1;
       mustalias \<leftarrow> mustAlias E d loadAddr (iv_g iv) 0;
       supseteq \<leftarrow> (if step \<noteq> NO_STEP \<and> step \<noteq> STEP_BOT
         then mustSupseteq E d (iv_g base) step count loadAddr NO_STEP (K 1) else Some False);
       if mustalias \<or> supseteq then do {
         assert_that (step = NO_STEP \<or> step = STEP_BOT \<or> \<not> mustalias \<or> supseteq);
         (s_out, gen) \<leftarrow> load_value E (id_num i) (mustalias \<and> step = STEP_BOT) loadReg s_out gen;
         Some (s_out, True, gen) }
       else Some (s_out, found, gen) }
     else Some (s_out, found, gen))"

definition sem_load :: "'p env \<Rightarrow> sem_inst \<Rightarrow> 'p domain \<Rightarrow> 'p domain \<Rightarrow> guid \<Rightarrow> ('p domain \<times> guid) option" where
  "sem_load E si d s_out gen = do {
     loadAddr \<leftarrow> getVar0 s_out (Reg (si_a si));
     (loadReg, s_out, gen) \<leftarrow> varNew (Reg (si_d si)) NO_STEP True s_out gen;
     (s_out, found, gen) \<leftarrow> foldM (load_one E d loadAddr loadReg) (im_pairs (d_idmap s_out)) (s_out, False, gen);
     if found then Some (s_out, gen)
     else do {
       ini \<leftarrow> memGetInitial E (Reg (si_a si)) False s_out;
       case ini of
         Some (address, value) \<Rightarrow> do {
           (s_out, gen) \<leftarrow> (if (case e_segment_at E address of Some s \<Rightarrow> seg_writable s | None \<Rightarrow> False)
             then do {
               (a, s_out, gen) \<leftarrow> memTabCreate E (V loadAddr) (V loadReg) STEP_BOT (K 1) False s_out gen;
               Some (s_out, gen) }
             else Some (s_out, gen));
           Some (doNewConstraint E (w_eq (V loadReg) (K (sint value))) s_out, gen) }
       | None \<Rightarrow> do {
           (a, s_out, gen) \<leftarrow> memTabCreate E (V loadAddr) (V loadReg) STEP_BOT (K 1) False s_out gen;
           Some (s_out, gen) } } }"

subsection \<open>The transfer function\<close>

definition sem_if :: "sem_inst \<Rightarrow> 'p domain \<Rightarrow> 'p domain option" where
  "sem_if si s_out =
     (if hasIdent s_out (Reg (si_a si)) then do {
        assert_that (si_b si = 1);
        Some (s_out\<lparr>d_compare_reg := Reg (si_a si), d_compare_op := cond_of_int (si_d si)\<rparr>) }
      else Some s_out)"

definition binary_ops :: "opcode list" where
  "binary_ops = [SHL, SUB, ASR, MUL, MULH, ADD, SHR, AND_OP, OR_OP, XOR_OP, CMP, CMPU]"

definition onSemInst :: "'p env \<Rightarrow> sem_inst \<Rightarrow> 'p domain \<Rightarrow> guid \<Rightarrow> ('p domain \<times> guid) option" where
  "onSemInst E si d gen = do {
     s_out \<leftarrow> dom_copy d;
     assert_that (\<not> hasFilter d \<or> si_op si = BRANCH);
     if si_op si \<in> {NOP, TRAP, CONT, BRANCH, SETP, NOT} then Some (s_out, gen)
     else if si_op si = SCRATCH then do {
       s_out \<leftarrow> doScratch E (Reg (si_d si)) s_out;
       Some (s_out, gen) }
     else if si_op si = SETI then sem_seti E si s_out gen
     else if si_op si = SET then sem_set E si s_out gen
     else if si_op si \<in> set binary_ops then sem_binary E si s_out gen
     else if si_op si = STORE then sem_store E si d s_out gen
     else if si_op si = LOAD then sem_load E si d s_out gen
     else if si_op si = IF then do {
       s_out \<leftarrow> sem_if si s_out;
       Some (s_out, gen) }
     else None }"

end
