(* ===== verification/Sem_Inst_Sound.thy ===== *)
theory Sem_Inst_Sound
  imports Sem_Inst
begin

text \<open>
  What the instructions do to the set of states. Writing a constant, copying, adding,
  subtracting and comparing registers are exact: the abstract result stands for the images
  of the states the argument stands for, no more and no fewer. Multiplication is exact when an
  operand is a known constant and forgets the destination otherwise.
\<close>

text \<open>The values that registers take, as unbounded numbers (the analysis ignores wrap-around).\<close>

definition reg_value :: "sem_inst \<Rightarrow> (ident \<Rightarrow> rat) \<Rightarrow> rat" where
  "reg_value si \<rho> =
     (let a = \<rho> (Reg (si_a si)); b = \<rho> (Reg (si_b si)) in
      if si_op si = SETI then of_int (sint (si_cst si))
      else if si_op si = SET then a
      else if si_op si = ADD then a + b
      else if si_op si \<in> {SUB, CMP, CMPU} then a - b
      else a * b)"

definition reg_exec :: "sem_inst \<Rightarrow> (ident \<Rightarrow> rat) \<Rightarrow> ident \<Rightarrow> rat" where
  "reg_exec si \<rho> = \<rho>(Reg (si_d si) := reg_value si \<rho>)"

definition operands :: "sem_inst \<Rightarrow> ident list" where
  "operands si = (if si_op si = SETI then [] else if si_op si = SET then [Reg (si_a si)]
     else [Reg (si_a si), Reg (si_b si)])"

text \<open>Straight-line code, instruction by instruction.\<close>

fun sem_insts :: "'p env \<Rightarrow> sem_inst list \<Rightarrow> 'p domain \<Rightarrow> guid \<Rightarrow> ('p domain \<times> guid) option" where
  "sem_insts E [] d gen = Some (d, gen)"
| "sem_insts E (si # is) d gen = do { (d, gen) \<leftarrow> onSemInst E si d gen; sem_insts E is d gen }"

fun regs_exec :: "sem_inst list \<Rightarrow> (ident \<Rightarrow> rat) \<Rightarrow> ident \<Rightarrow> rat" where
  "regs_exec [] \<rho> = \<rho>"
| "regs_exec (si # is) \<rho> = regs_exec is (reg_exec si \<rho>)"

fun reads_defined :: "sem_inst list \<Rightarrow> ident set \<Rightarrow> bool" where
  "reads_defined [] D = True"
| "reads_defined (si # is) D = (set (operands si) \<subseteq> D \<and> reads_defined is (insert (Reg (si_d si)) D))"

context poly_env
begin

lemma write_value:
  assumes ok: "dom_ok E gen d" and d1: "dom_ok E (gen + 1) d1"
    "im_find1 (d_idmap d1) = (im_find1 (d_idmap d))(i \<mapsto> idval_t gen NO_STEP)" "d_poly d1 = d_poly d"
    and c: "wc_vars c \<subseteq> insert gen G" "\<And>v. wc_sat v c \<longleftrightarrow> v gen = F v"
    and G: "G \<subseteq> {..<gen}" and F: "\<And>v v'. (\<And>g. g \<in> G \<Longrightarrow> v g = v' g) \<Longrightarrow> F v = F v'"
    and val: "\<And>v \<rho>. models E d v \<rho> \<Longrightarrow> F v = H \<rho>"
  shows "dom_ok E (gen + 1) (doNewConstraint E c d1)"
    and "dom_sem E (doNewConstraint E c d1) = (\<lambda>\<rho>. \<rho>(i := H \<rho>)) ` dom_sem E d"
proof -
  have vars: "wc_vars c \<subseteq> {..<gen + 1}" using c(1) G by auto
  show "dom_ok E (gen + 1) (doNewConstraint E c d1)" by (rule constraint_ok(1) [OF d1(1) vars])
  show "dom_sem E (doNewConstraint E c d1) = (\<lambda>\<rho>. \<rho>(i := H \<rho>)) ` dom_sem E d"
  proof (rule assign_value [OF ok d1 vars c(2)])
    show "F v = F v'" if "\<And>g. g < gen \<Longrightarrow> v g = v' g" for v v'
      using F [of v v'] that G by auto
  qed (rule val)
qed

text \<open>The state in which the destination register has its new variable.\<close>

lemma fresh_dest:
  assumes ok: "dom_ok E gen d"
  obtains d0 d1 where "dom_copy d = Some d0" and "dom_ok E gen d0"
    and "im_find1 (d_idmap d0) = im_find1 (d_idmap d)" and "d_poly d0 = d_poly d"
    and "varNew (Reg r) NO_STEP True d0 gen = Some (gen, d1, gen + 1)" and "dom_ok E (gen + 1) d1"
    and "im_find1 (d_idmap d1) = (im_find1 (d_idmap d))(Reg r \<mapsto> idval_t gen NO_STEP)"
    and "d_poly d1 = d_poly d" and "hasFilter d1 = hasFilter d"
proof -
  obtain d0 where d0: "dom_copy d = Some d0" "dom_ok E gen d0"
    "im_find1 (d_idmap d0) = im_find1 (d_idmap d)" "d_poly d0 = d_poly d"
    and f: "d_compare_reg d0 = d_compare_reg d"
    using dom_copy_ok [OF ok] by metis
  obtain d1 where d1: "varNew (Reg r) NO_STEP True d0 gen = Some (gen, d1, gen + 1)" "dom_ok E (gen + 1) d1"
    "im_find1 (d_idmap d1) = (im_find1 (d_idmap d))(Reg r \<mapsto> idval_t gen NO_STEP)" "d_poly d1 = d_poly d"
    "d_compare_reg d1 = d_compare_reg d"
    using varNew_ok [OF d0(2), of "Reg r" NO_STEP True] d0(3,4) f by auto
  show thesis by (rule that [OF d0 d1(1-4)]) (simp add: hasFilter_def d1(5))
qed

lemma getRange_cong: "d_poly d = d_poly d' \<Longrightarrow> getConstant E d = getConstant E d'"
  by (simp add: getConstant_def getRange_def fun_eq_iff)

lemma le_vars_scale: "le_ok a \<Longrightarrow> le_vars (le_scale k a) \<subseteq> le_vars a"
  by (rule le_scale_coefs(4))

lemma le_vars_add: "le_ok a \<Longrightarrow> le_ok b \<Longrightarrow> le_vars (le_add a b) \<subseteq> le_vars a \<union> le_vars b"
  by (rule le_add_coefs(4))

lemma w_eq_vars:
  "le_ok a \<Longrightarrow> le_ok b \<Longrightarrow> le_vars a \<subseteq> A \<Longrightarrow> le_vars b \<subseteq> A \<Longrightarrow> wc_vars (w_eq a b) \<subseteq> A"
  using wc_vars_ops(1) [of a b] by blast

text \<open>A register whose product with another is known because one of them is a constant.\<close>

lemma mul_const_eq:
  assumes "0 < k" and "x * of_int k = of_int n"
  shows "of_int k * y = of_int n * z \<longleftrightarrow> y = x * (z :: rat)"
proof -
  have "of_int k * y = of_int n * z \<longleftrightarrow> of_int k * y = of_int k * (x * z)"
    using assms(2) by (simp add: mult.assoc [symmetric] mult.commute)
  then show ?thesis using assms(1) by simp
qed

lemma register_exact:
  assumes ok: "dom_ok E gen d" and nf: "\<not> hasFilter d"
    and op: "si_op si \<in> {SETI, SET, ADD, SUB, CMP, CMPU}"
    and opnds: "\<And>i. i \<in> set (operands si) \<Longrightarrow> hasIdent d i"
  obtains d' where "onSemInst E si d gen = Some (d', gen + 1)" and "dom_ok E (gen + 1) d'"
    and "dom_sem E d' = reg_exec si ` dom_sem E d" and "\<not> hasFilter d'"
    and "\<And>i. hasIdent d' i \<longleftrightarrow> i = Reg (si_d si) \<or> hasIdent d i"
proof -
  let ?i = "Reg (si_d si)"
  obtain d0 d1 where d0: "dom_copy d = Some d0" "dom_ok E gen d0"
    "im_find1 (d_idmap d0) = im_find1 (d_idmap d)" "d_poly d0 = d_poly d"
    and d1: "varNew ?i NO_STEP True d0 gen = Some (gen, d1, gen + 1)" "dom_ok E (gen + 1) d1"
      "im_find1 (d_idmap d1) = (im_find1 (d_idmap d))(?i \<mapsto> idval_t gen NO_STEP)" "d_poly d1 = d_poly d" "hasFilter d1 = hasFilter d"
    using fresh_dest [OF ok] by metis
  note wr = write_value [OF ok d1(2-4)]
  have kept: "\<not> hasFilter (doNewConstraint E c d1)"
    "\<And>i. hasIdent (doNewConstraint E c d1) i \<longleftrightarrow> i = ?i \<or> hasIdent d i" for c
    using nf d1(3,5) by (auto simp: hasFilter_def doNewConstraint_def hasIdent_iff)
  have exec: "(\<lambda>\<rho>. \<rho>(?i := reg_value si \<rho>)) = reg_exec si" by (simp add: reg_exec_def fun_eq_iff)
  show thesis
  proof (cases "si_op si = SETI")
    case True
    let ?c = "w_eq (V gen) (K (sint (si_cst si)))"
    have vars: "wc_vars ?c \<subseteq> insert gen {}" by (rule w_eq_vars) auto
    have "dom_ok E (gen + 1) (doNewConstraint E ?c d1) \<and>
        dom_sem E (doNewConstraint E ?c d1) = (\<lambda>\<rho>. \<rho>(?i := reg_value si \<rho>)) ` dom_sem E d"
      using wr [OF vars, of "\<lambda>v. of_int (sint (si_cst si))" "reg_value si"] True
      by (simp add: reg_value_def)
    note res = this [unfolded exec]
    have "onSemInst E si d gen = Some (doNewConstraint E ?c d1, gen + 1)"
      using True nf d0(1) d1(1) by (simp add: onSemInst_def sem_seti_def)
    from that [OF this _ _ kept] res show thesis by blast
  next
    case nseti: False
    have "hasIdent d (Reg (si_a si))" using opnds nseti by (simp add: operands_def split: if_splits)
    then obtain iva where iva: "im_find1 (d_idmap d) (Reg (si_a si)) = Some iva" by (auto simp: hasIdent_iff)
    let ?a = "iv_g iva"
    have a: "?a < gen" "getVar0 d0 (Reg (si_a si)) = Some ?a"
      using dom_okD(5) [OF ok iva] iva d0(3) by (simp_all add: getVar0_ok)
    show thesis
    proof (cases "si_op si = SET")
      case True
      let ?c = "w_eq (V gen) (V ?a)"
      have vars: "wc_vars ?c \<subseteq> insert gen {?a}" by (rule w_eq_vars) auto
      have "dom_ok E (gen + 1) (doNewConstraint E ?c d1) \<and>
          dom_sem E (doNewConstraint E ?c d1) = (\<lambda>\<rho>. \<rho>(?i := reg_value si \<rho>)) ` dom_sem E d"
        using wr [OF vars, of "\<lambda>v. v ?a" "reg_value si"] True a models_value [OF _ iva]
        by (simp add: reg_value_def)
      note res = this [unfolded exec]
      have "onSemInst E si d gen = Some (doNewConstraint E ?c d1, gen + 1)"
        using True nf d0(1) d1(1) a iva by (simp add: onSemInst_def sem_set_def hasIdent_iff d0(3))
      from that [OF this _ _ kept] res show thesis by blast
    next
      case nset: False
      have "hasIdent d (Reg (si_b si))" using opnds nseti nset by (simp add: operands_def)
      then obtain ivb where ivb: "im_find1 (d_idmap d) (Reg (si_b si)) = Some ivb" by (auto simp: hasIdent_iff)
      let ?b = "iv_g ivb"
      have b: "?b < gen" "getVar0 d0 (Reg (si_b si)) = Some ?b"
        using dom_okD(5) [OF ok ivb] ivb d0(3) by (simp_all add: getVar0_ok)
      let ?e = "if si_op si = ADD then le_add (V ?a) (V ?b) else le_sub (V ?a) (V ?b)"
      let ?c = "w_eq (V gen) ?e"
      have "le_vars ?e \<subseteq> {?a, ?b}" using le_vars_add [of "V ?a" "V ?b"] le_vars_sub [of "V ?a" "V ?b"] by auto
      then have vars: "wc_vars ?c \<subseteq> insert gen {?a, ?b}" by (intro w_eq_vars) auto
      define F where "F v = (if si_op si = ADD then v ?a + v ?b else v ?a - v ?b)" for v :: "nat \<Rightarrow> rat"
      have sat: "wc_sat v ?c \<longleftrightarrow> v gen = F v" for v by (simp add: F_def)
      have val: "F v = reg_value si \<rho>" if "models E d v \<rho>" for v \<rho>
        using models_value [OF that iva] models_value [OF that ivb] op nseti nset
        by (cases "si_op si = ADD") (auto simp: reg_value_def F_def)
      have cong: "F v = F v'" if "\<And>g. g \<in> {?a, ?b} \<Longrightarrow> v g = v' g" for v v'
        using that by (simp add: F_def)
      have G: "{?a, ?b} \<subseteq> {..<gen}" using a b by simp
      have res: "dom_ok E (gen + 1) (doNewConstraint E ?c d1)"
          "dom_sem E (doNewConstraint E ?c d1) = (\<lambda>\<rho>. \<rho>(?i := reg_value si \<rho>)) ` dom_sem E d"
        using write_value [where F = F and H = "reg_value si", OF ok d1(2-4) vars sat G cong val] by simp_all
      have "doBinaryOp E (si_op si) gen ?a ?b d1 = Some (doNewConstraint E ?c d1)"
        using op nseti nset by (auto simp: doBinaryOp_def)
      then have "onSemInst E si d gen = Some (doNewConstraint E ?c d1, gen + 1)"
        using op nseti nset nf d0(1) d1(1) a b iva ivb
        by (auto simp: onSemInst_def sem_binary_def binary_ops_def hasIdent_iff d0(3))
      from that [OF this _ _ kept] res [unfolded exec] show thesis by simp
    qed
  qed
qed

text \<open>A fresh destination without a constraint forgets the register and nothing else.\<close>

lemma havoc:
  assumes ok: "dom_ok E gen d"
    and d1: "im_find1 (d_idmap d1) = (im_find1 (d_idmap d))(i \<mapsto> idval_t gen step)" "d_poly d1 = d_poly d"
  shows "dom_sem E d1 = {\<rho>(i := x) | \<rho> x. \<rho> \<in> dom_sem E d}"
proof (intro set_eqI iffI)
  fix \<rho>'
  assume "\<rho>' \<in> dom_sem E d1"
  then obtain v where v: "models E d1 v \<rho>'" by (auto simp: dom_sem_def)
  define \<rho> where "\<rho> = \<rho>'(i := (case im_find1 (d_idmap d) i of Some iv \<Rightarrow> v (iv_g iv) | None \<Rightarrow> 0))"
  have "models E d v \<rho>" using v d1 by (auto simp: models_def \<rho>_def split: if_splits)
  moreover have "\<rho>' = \<rho>(i := \<rho>' i)" by (simp add: \<rho>_def)
  ultimately show "\<rho>' \<in> {\<rho>(i := x) | \<rho> x. \<rho> \<in> dom_sem E d}" using models_dom_sem by blast
next
  fix \<rho>'
  assume "\<rho>' \<in> {\<rho>(i := x) | \<rho> x. \<rho> \<in> dom_sem E d}"
  then obtain \<rho> v x where r: "\<rho>' = \<rho>(i := x)" "models E d v \<rho>" by (auto simp: dom_sem_def)
  have fresh: "gen \<notin> wp_dom (d_poly d)" using dom_okD(3) [OF ok, of gen] by auto
  have "iv_g iv \<noteq> gen" if "im_find1 (d_idmap d) j = Some iv" for j iv
    using dom_okD(5) [OF ok that] by simp
  then have "models E d1 (v(gen := x)) \<rho>'"
    using r(2) d1 wsem_upd [OF fresh, of v x] by (auto simp: models_def r(1) split: if_splits)
  then show "\<rho>' \<in> dom_sem E d1" by (rule models_dom_sem)
qed

text \<open>
  Multiplication and the bitwise operations never lose a state: whatever value the operation
  gives (the product for MUL), the result is covered.
\<close>

lemma other_binary_sound:
  assumes ok: "dom_ok E gen d" and nf: "\<not> hasFilter d"
    and op: "si_op si \<in> {MUL, AND_OP, OR_OP, XOR_OP}"
    and opnds: "hasIdent d (Reg (si_a si))" "hasIdent d (Reg (si_b si))"
  obtains d' where "onSemInst E si d gen = Some (d', gen + 1)" and "dom_ok E (gen + 1) d'"
    and "\<And>\<rho> x. \<rho> \<in> dom_sem E d \<Longrightarrow> si_op si = MUL \<longrightarrow> x = \<rho> (Reg (si_a si)) * \<rho> (Reg (si_b si)) \<Longrightarrow>
      \<rho>(Reg (si_d si) := x) \<in> dom_sem E d'"
proof -
  note found = that
  let ?i = "Reg (si_d si)"
  obtain d0 d1 where d0: "dom_copy d = Some d0" "dom_ok E gen d0"
    "im_find1 (d_idmap d0) = im_find1 (d_idmap d)" "d_poly d0 = d_poly d"
    and d1: "varNew ?i NO_STEP True d0 gen = Some (gen, d1, gen + 1)" "dom_ok E (gen + 1) d1"
      "im_find1 (d_idmap d1) = (im_find1 (d_idmap d))(?i \<mapsto> idval_t gen NO_STEP)" "d_poly d1 = d_poly d" "hasFilter d1 = hasFilter d"
    using fresh_dest [OF ok] by metis
  obtain iva ivb where iva: "im_find1 (d_idmap d) (Reg (si_a si)) = Some iva"
    and ivb: "im_find1 (d_idmap d) (Reg (si_b si)) = Some ivb" using opnds by (auto simp: hasIdent_iff)
  let ?a = "iv_g iva" and ?b = "iv_g ivb"
  have ab: "?a < gen" "?b < gen" "getVar0 d0 (Reg (si_a si)) = Some ?a" "getVar0 d0 (Reg (si_b si)) = Some ?b"
    using dom_okD(5) [OF ok iva] dom_okD(5) [OF ok ivb] iva ivb d0(3) by (simp_all add: getVar0_ok)
  have run: "onSemInst E si d gen = map_option (\<lambda>d'. (d', gen + 1)) (doBinaryOp E (si_op si) gen ?a ?b d1)"
    using op nf d0(1) d1(1) ab iva ivb
    by (cases "doBinaryOp E (si_op si) gen ?a ?b d1")
      (auto simp: onSemInst_def sem_binary_def binary_ops_def hasIdent_iff d0(3))
  have hv: "\<rho>(?i := x) \<in> dom_sem E d1" if "\<rho> \<in> dom_sem E d" for \<rho> x
    using havoc [OF ok d1(3,4)] that by blast
  have const: thesis if e: "si_op si = MUL" "getConstant E d g = Some (n, k)"
    "doBinaryOp E (si_op si) gen ?a ?b d1 = Some (doNewConstraint E (w_eq (le_scale k (V gen)) (le_scale n (V h))) d1)"
    and gh: "{g, h} = {?a, ?b}" "h < gen"
    and val: "\<And>v :: nat \<Rightarrow> rat. v g * v h = v ?a * v ?b" for g h n k
  proof -
    let ?c = "w_eq (le_scale k (V gen)) (le_scale n (V h))"
    have vars: "wc_vars ?c \<subseteq> {..<gen + 1}"
      using le_vars_scale [of "V gen" k] le_vars_scale [of "V h" n] gh(2) by (intro w_eq_vars) auto
    note con = constraint_ok [OF d1(2) vars]
    have "\<rho>(?i := \<rho> (Reg (si_a si)) * \<rho> (Reg (si_b si))) \<in> dom_sem E (doNewConstraint E ?c d1)"
      if r: "\<rho> \<in> dom_sem E d" for \<rho>
    proof -
      obtain v where v: "models E d v \<rho>" using r by (auto simp: dom_sem_def)
      let ?x = "v ?a * v ?b"
      have cst: "0 < k" "v g * of_int k = of_int n"
        using constant_sound [OF dom_okD(2) [OF ok] e(2)] v by (auto simp: models_def)
      have fresh: "gen \<notin> wp_dom (d_poly d)" using dom_okD(3) [OF ok, of gen] by auto
      have ne: "iv_g iv \<noteq> gen" if "im_find1 (d_idmap d) j = Some iv" for j iv
        using dom_okD(5) [OF ok that] by simp
      have "models E d1 (v(gen := ?x)) (\<rho>(?i := ?x))"
        using v d1(3,4) wsem_upd [OF fresh, of v ?x] ne by (auto simp: models_def split: if_splits)
      moreover have "wc_sat (v(gen := ?x)) ?c"
        using mul_const_eq [OF cst, of ?x "v h"] val [of v] gh(2) by simp
      ultimately have "models E (doNewConstraint E ?c d1) (v(gen := ?x)) (\<rho>(?i := ?x))"
        using con(2) by blast
      then show ?thesis
        using models_value [OF v iva] models_value [OF v ivb] by (auto intro: models_dom_sem)
    qed
    then show thesis using e run by (intro found [of "doNewConstraint E ?c d1"] con(1)) simp_all
  qed
  show thesis
  proof (cases "si_op si = MUL \<and> (getConstant E d ?a \<noteq> None \<or> getConstant E d ?b \<noteq> None)")
    case True
    show thesis
    proof (cases "getConstant E d ?a")
      case None
      then obtain n k where c: "getConstant E d ?b = Some (n, k)" using True by auto
      show thesis
        by (rule const [OF _ c, of ?a]) (use True None c ab getRange_cong [OF d1(4)] in \<open>auto simp: doBinaryOp_def mult.commute\<close>)
    next
      case (Some nk)
      then obtain n k where c: "getConstant E d ?a = Some (n, k)" by (cases nk) auto
      show thesis
        by (rule const [OF _ c, of ?b]) (use True c ab getRange_cong [OF d1(4)] in \<open>auto simp: doBinaryOp_def\<close>)
    qed
  next
    case False
    then have "doBinaryOp E (si_op si) gen ?a ?b d1 = Some d1"
      using op getRange_cong [OF d1(4)]
      by (cases "getConstant E d ?a"; cases "getConstant E d ?b") (auto simp: doBinaryOp_def)
    then show thesis by (intro found [of d1] d1(2) hv) (simp_all add: run)
  qed
qed

text \<open>Straight-line code over the registers: the composition of the exact steps.\<close>

lemma straight_line_exact:
  assumes "dom_ok E gen d" and "\<not> hasFilter d"
    and "\<And>si. si \<in> set is \<Longrightarrow> si_op si \<in> {SETI, SET, ADD, SUB, CMP, CMPU}"
    and "reads_defined is {i. hasIdent d i}"
  shows "\<exists>d'. sem_insts E is d gen = Some (d', gen + length is) \<and> dom_ok E (gen + length is) d' \<and>
    dom_sem E d' = regs_exec is ` dom_sem E d"
  using assms
proof (induction "is" arbitrary: gen d)
  case (Cons si "is")
  have "\<And>i. i \<in> set (operands si) \<Longrightarrow> hasIdent d i" using Cons.prems(4) by auto
  from register_exact [OF Cons.prems(1,2) Cons.prems(3) this]
  obtain d1 where d1: "onSemInst E si d gen = Some (d1, gen + 1)" "dom_ok E (gen + 1) d1"
    "dom_sem E d1 = reg_exec si ` dom_sem E d" "\<not> hasFilter d1"
    "\<And>i. hasIdent d1 i \<longleftrightarrow> i = Reg (si_d si) \<or> hasIdent d i"
    by (metis list.set_intros(1))
  have "{i. hasIdent d1 i} = insert (Reg (si_d si)) {i. hasIdent d i}" using d1(5) by auto
  then have "reads_defined is {i. hasIdent d1 i}" using Cons.prems(4) by simp
  from Cons.IH [OF d1(2,4) _ this] Cons.prems(3)
  obtain d' where "sem_insts E is d1 (gen + 1) = Some (d', gen + 1 + length is)"
    "dom_ok E (gen + 1 + length is) d'" "dom_sem E d' = regs_exec is ` dom_sem E d1" by auto
  then show ?case using d1(1,3) by (auto simp: image_image)
qed simp_all

end

end
