(* ===== verification/Branch.thy ===== *)
theory Branch
  imports Cond_Export Sem_Inst_Sound
begin

text \<open>
  Conditional branches (\<open>onBranch\<close>) and the arguments of the analysed program
  (\<open>ArmArgumentsDetector\<close>): the filter that a comparison puts on the state, and the
  projection of the state on the arguments whose text is exported.
\<close>

subsection \<open>Arguments\<close>

definition Param :: "int \<Rightarrow> ident" where
  "Param r = Ident (- r - 1) ID_SPECIAL"

definition init_parameter ::
  "'p env \<Rightarrow> int \<Rightarrow> 'p domain \<times> (int, guid) omap \<times> guid \<Rightarrow> ('p domain \<times> (int, guid) omap \<times> guid) option" where
  "init_parameter E reg = (\<lambda>(s, used, gen). do {
     (r, s, gen) \<leftarrow> varNew (Reg reg) NO_STEP False s gen;
     (sr, s, gen) \<leftarrow> varNew (Param reg) NO_STEP False s gen;
     Some (doNewConstraint E (w_eq (V sr) (V r)) s, om_emplace reg sr used, gen) })"

definition initFunctionParameters ::
  "'p env \<Rightarrow> bool \<Rightarrow> 'p domain \<Rightarrow> branch_ctx \<Rightarrow> guid \<Rightarrow> ('p domain \<times> branch_ctx \<times> guid) option" where
  "initFunctionParameters E is_root s ctx gen =
     (if \<not> is_root then Some (s, ctx, gen)
      else do {
        (s, used, gen) \<leftarrow> foldM (init_parameter E) [0, 1, 2, 3] (s, bx_used ctx, gen);
        Some (s, ctx\<lparr>bx_used := used\<rparr>, gen) })"

definition getParamId :: "branch_ctx \<Rightarrow> guid \<Rightarrow> int" where
  "getParamId ctx v = (case List.find (\<lambda>(r, g). g = v) (bx_used ctx) of Some (r, g) \<Rightarrow> r | None \<Rightarrow> -1)"

subsection \<open>The filter\<close>

definition branch_filter :: "'p env \<Rightarrow> cond \<Rightarrow> 'p domain \<Rightarrow> 'p domain option" where
  "branch_filter E this_op res =
     (let c = d_compare_reg res in
      if this_op = NE then do {
        v \<leftarrow> getVar0 res c;
        let poly2 = wp_add_constraint (e_ppl E) (w_ge (V v) (K 1)) (d_poly res);
        let res = doNewConstraint E (w_le (V v) (K (- 1))) res;
        p \<leftarrow> wp_hull (e_ppl E) (d_poly res) poly2;
        Some (res\<lparr>d_poly := p\<rparr>) }
      else if this_op = EQ then do {
        v \<leftarrow> getVar0 res c; Some (doNewConstraint E (w_eq (V v) (K 0)) res) }
      else if this_op \<in> {GE, UGE} then do {
        v \<leftarrow> getVar0 res c; Some (doNewConstraint E (w_ge (V v) (K 0)) res) }
      else if this_op \<in> {GT, UGT} then do {
        v \<leftarrow> getVar0 res c; Some (doNewConstraint E (w_ge (V v) (K 1)) res) }
      else if this_op \<in> {LE, ULE} then do {
        v \<leftarrow> getVar0 res c; Some (doNewConstraint E (w_le (V v) (K 0)) res) }
      else if this_op \<in> {LT, ULT} then do {
        v \<leftarrow> getVar0 res c; Some (doNewConstraint E (w_le (V v) (K (- 1))) res) }
      else Some res)"

text \<open>The table from the variables of arguments to the numbers of their registers.\<close>

definition branch_input ::
  "branch_ctx \<Rightarrow> 'p domain \<Rightarrow> ident \<times> idval \<Rightarrow> (int, int) htable \<Rightarrow> (int, int) htable option" where
  "branch_input ctx dm = (\<lambda>(i, iv) inputs. do {
     v \<leftarrow> getVar dm i True;
     let reg_id = getParamId ctx (iv_g v);
     Some (if hasIdent dm i \<and> reg_id \<noteq> -1 then ht_assign hash_int (int (iv_g iv)) reg_id inputs
           else inputs) })"

definition export_conditions ::
  "'p env \<Rightarrow> branch_ctx \<Rightarrow> bool \<Rightarrow> int \<Rightarrow> 'p domain \<Rightarrow> 'p domain \<Rightarrow> branch_ctx option" where
  "export_conditions E ctx taken addr d res = do {
     dm \<leftarrow> dom_copy res;
     if bx_used ctx = [] then Some ctx
     else do {
       inputs \<leftarrow> foldM (branch_input ctx dm) (im_pairs (d_idmap d)) (ht_new default_size);
       dm \<leftarrow> doMap E (map_with_hash inputs) dm;
       cs \<leftarrow> wp_constraints (e_ppl E) (d_poly dm);
       s \<leftarrow> all_text (wp_vars (d_poly dm)) cs;
       Some (if s \<noteq> [] then record_condition \<lparr>cd_block = Some addr, cd_taken = taken, cd_text = s\<rparr> ctx
             else ctx) } }"

definition onBranch ::
  "'p env \<Rightarrow> bool \<Rightarrow> int \<Rightarrow> 'p domain \<Rightarrow> branch_ctx \<Rightarrow> ('p domain \<times> branch_ctx) option" where
  "onBranch E taken addr d ctx =
     (if isBottom E d then Some (dom_bottom E, ctx)
      else do {
        assert_that (hasFilter d);
        res \<leftarrow> dom_copy d;
        let this_op = (if taken then d_compare_op d else e_invert E (d_compare_op d));
        res \<leftarrow> branch_filter E this_op res;
        ctx \<leftarrow> (if \<not> isBottom E res then export_conditions E ctx taken addr d res else Some ctx);
        res \<leftarrow> varKillIdent (d_compare_reg res) res;
        let res = res\<lparr>d_compare_reg := ident_invalid\<rparr>;
        Some (if isBottom E res then dom_bottom E else res, ctx) })"

subsection \<open>What the filter keeps\<close>

text \<open>The values of the comparison that a filter keeps: the relation read over the integers.\<close>

fun int_sat :: "cond \<Rightarrow> rat \<Rightarrow> bool" where
  "int_sat NE x = (x \<le> -1 \<or> 1 \<le> x)"
| "int_sat LT x = (x \<le> -1)"
| "int_sat ULT x = (x \<le> -1)"
| "int_sat GT x = (1 \<le> x)"
| "int_sat UGT x = (1 \<le> x)"
| "int_sat c x = cond_sat c x"

lemma int_sat_cond: "x \<in> \<int> \<Longrightarrow> int_sat c x = cond_sat c x"
  by (cases c) (auto elim!: Ints_cases)

context poly_env
begin

lemma compare_vars:
  "g < gen \<Longrightarrow> wc_vars (w_ge (V g) (K k)) \<subseteq> {..<gen}"
  "g < gen \<Longrightarrow> wc_vars (w_le (V g) (K k)) \<subseteq> {..<gen}"
  "g < gen \<Longrightarrow> wc_vars (w_eq (V g) (K k)) \<subseteq> {..<gen}"
  using wc_vars_ops [of "V g" "K k"] by auto

lemma filter_ok:
  assumes ok: "dom_ok E gen d" and nb: "d_num_axis d \<noteq> -1" and r: "is_relation c"
    and f: "im_find1 (d_idmap d) (d_compare_reg d) = Some iv" "id_type (d_compare_reg d) \<noteq> ID_MEM_ADDR"
  obtains p where "branch_filter E c d = Some (d\<lparr>d_poly := p\<rparr>)" and "dom_ok E gen (d\<lparr>d_poly := p\<rparr>)"
    and "\<And>v \<rho>. models E d v \<rho> \<Longrightarrow> int_sat c (\<rho> (d_compare_reg d)) \<Longrightarrow> models E (d\<lparr>d_poly := p\<rparr>) v \<rho>"
    and "\<And>v \<rho>. models E (d\<lparr>d_poly := p\<rparr>) v \<rho> \<Longrightarrow> c \<noteq> NE \<Longrightarrow>
      models E d v \<rho> \<and> int_sat c (\<rho> (d_compare_reg d))"
proof -
  note found = that
  let ?g = "iv_g iv"
  have g: "getVar0 d (d_compare_reg d) = Some ?g" "?g < gen"
    using getVar0_ok [OF f] dom_okD(5) [OF ok f(1)] by simp_all
  have val: "v ?g = \<rho> (d_compare_reg d)" if "models E d v \<rho>" for v \<rho>
    using models_value [OF that f(1)] .
  have one: thesis if run: "branch_filter E c d = Some (doNewConstraint E k d)"
    and vars: "wc_vars k \<subseteq> {..<gen}" and sat: "\<And>v. wc_sat v k \<longleftrightarrow> int_sat c (v ?g)" for k
  proof -
    note con = constraint_ok [OF ok vars]
    have "models E (doNewConstraint E k d) v \<rho> \<longleftrightarrow> models E d v \<rho> \<and> int_sat c (\<rho> (d_compare_reg d))" for v \<rho>
      using con(2) [of v \<rho>] sat [of v] val [of v \<rho>] by auto
    with run con(1) show thesis
      by (intro found [of "wp_add_constraint (e_ppl E) k (d_poly d)"])
        (simp_all add: doNewConstraint_def)
  qed
  show thesis
  proof (cases "c = NE")
    case False
    then consider "c = EQ" | "c \<in> {GE, UGE}" | "c \<in> {GT, UGT}" | "c \<in> {LE, ULE}" | "c \<in> {LT, ULT}"
      using r by (auto simp: is_relation_def)
    then show thesis
    proof cases
      case 1
      show thesis by (rule one [of "w_eq (V ?g) (K 0)"])
        (use 1 g compare_vars in \<open>auto simp: branch_filter_def Let_def\<close>)
    next
      case 2
      show thesis by (rule one [of "w_ge (V ?g) (K 0)"])
        (use 2 g compare_vars in \<open>auto simp: branch_filter_def Let_def\<close>)
    next
      case 3
      show thesis by (rule one [of "w_ge (V ?g) (K 1)"])
        (use 3 g compare_vars in \<open>auto simp: branch_filter_def Let_def\<close>)
    next
      case 4
      show thesis by (rule one [of "w_le (V ?g) (K 0)"])
        (use 4 g compare_vars in \<open>auto simp: branch_filter_def Let_def\<close>)
    next
      case 5
      show thesis by (rule one [of "w_le (V ?g) (K (- 1))"])
        (use 5 g compare_vars in \<open>auto simp: branch_filter_def Let_def\<close>)
    qed
  next
    case True
    let ?le = "w_le (V ?g) (K (- 1))" and ?ge = "w_ge (V ?g) (K 1)"
    let ?p1 = "wp_add_constraint (e_ppl E) ?le (d_poly d)" and ?p2 = "wp_add_constraint (e_ppl E) ?ge (d_poly d)"
    have w: "wp_ok (e_ppl E) (d_poly d)" by (rule dom_okD [OF ok])
    note a1 = add_constraint [OF w, of ?le] and a2 = add_constraint [OF w, of ?ge]
    have "?g \<in> wc_vars ?le \<and> ?g \<in> wc_vars ?ge"
      by (simp add: wc_vars_def w_le_def w_ge_def le_vars_def le_sub_def le_add_def le_scale_def le_var_def le_const_def)
    then have "wp_dom ?p1 \<inter> wp_dom ?p2 \<noteq> {}" using a1(3) a2(3) by blast
    from hull [OF a1(1) a2(1) this] obtain p where p: "wp_hull (e_ppl E) ?p1 ?p2 = Some p"
      "wp_ok (e_ppl E) p" "wp_dom p = wp_dom ?p1 \<inter> wp_dom ?p2"
      "wsem (e_ppl E) ?p1 \<union> wsem (e_ppl E) ?p2 \<subseteq> wsem (e_ppl E) p" by metis
    have run: "branch_filter E c d = Some (d\<lparr>d_poly := p\<rparr>)"
      using True g(1) p(1) by (simp add: branch_filter_def doNewConstraint_def Let_def)
    have "wp_dom p \<subseteq> {..<gen}" using p(3) a1(3) compare_vars(2) [OF g(2)] dom_okD(3) [OF ok] by blast
    then have "dom_ok E gen (d\<lparr>d_poly := p\<rparr>)" using ok p(2) nb by (simp add: dom_ok_def)
    moreover have "models E (d\<lparr>d_poly := p\<rparr>) v \<rho>" if m: "models E d v \<rho>" and s: "int_sat c (\<rho> (d_compare_reg d))" for v \<rho>
    proof -
      have "v \<in> wsem (e_ppl E) (d_poly d)" using m by (simp add: models_def)
      moreover have "v ?g \<le> -1 \<or> 1 \<le> v ?g" using s True val [OF m] by simp
      ultimately have "v \<in> wsem (e_ppl E) ?p1 \<union> wsem (e_ppl E) ?p2" using a1(2) a2(2) by auto
      then show ?thesis using p(4) m by (auto simp: models_def)
    qed
    ultimately show thesis using found [OF run] True by blast
  qed
qed

end

subsection \<open>The export never fails\<close>

definition used_ok :: "branch_ctx \<Rightarrow> bool" where
  "used_ok ctx \<longleftrightarrow> distinct (map fst (bx_used ctx)) \<and> (\<forall>r \<in> fst ` set (bx_used ctx). 0 \<le> r)"

lemma getParamId_inj:
  assumes "used_ok ctx" and "getParamId ctx g = r" and "r \<noteq> -1"
  shows "map_of (bx_used ctx) r = Some g" and "0 \<le> r"
proof -
  obtain r' g' where f: "List.find (\<lambda>(r, g'). g' = g) (bx_used ctx) = Some (r', g')" and "r' = r"
    using assms(2,3) by (auto simp: getParamId_def split: option.splits)
  then have "(r, g) \<in> set (bx_used ctx)" by (auto simp: find_Some_iff in_set_conv_nth)
  then show "map_of (bx_used ctx) r = Some g" "0 \<le> r" using assms(1) by (auto simp: used_ok_def)
qed

text \<open>Every entry of the table sends the variable of an argument to the number of its register.\<close>

definition inputs_ok :: "branch_ctx \<Rightarrow> (int, int) htable \<Rightarrow> bool" where
  "inputs_ok ctx t \<longleftrightarrow> ht_ok hash_int t \<and> (\<forall>k r. ht_find hash_int t k = Some r \<longrightarrow>
     0 \<le> k \<and> 0 \<le> r \<and> map_of (bx_used ctx) r = Some (nat k))"

lemma inputs_total:
  assumes "used_ok ctx" and "\<And>i iv. (i, iv) \<in> set ps \<Longrightarrow> im_find1 (d_idmap dm) i = Some iv" and "inputs_ok ctx t"
  shows "\<exists>t'. foldM (branch_input ctx dm) ps t = Some t' \<and> inputs_ok ctx t'"
  using assms(2,3)
proof (induction ps arbitrary: t)
  case (Cons p ps)
  obtain i iv where p: "p = (i, iv)" by (cases p)
  have f: "im_find1 (d_idmap dm) i = Some iv" using Cons.prems(1) p by simp
  let ?r = "getParamId ctx (iv_g iv)"
  let ?t = "if hasIdent dm i \<and> ?r \<noteq> -1 then ht_assign hash_int (int (iv_g iv)) ?r t else t"
  have step: "branch_input ctx dm p t = Some ?t" using f by (simp add: branch_input_def p getVar_def Let_def)
  have "inputs_ok ctx ?t"
  proof (cases "?r = -1")
    case False
    note r = getParamId_inj [OF assms(1) refl False]
    have t: "ht_ok hash_int t" using Cons.prems(2) by (simp add: inputs_ok_def)
    show ?thesis
      using Cons.prems(2) r hashing.put_ok [OF hash_int_hashing t]
        hashing.put_find [OF hash_int_hashing ht_ok_wf [OF t]]
      by (auto simp: inputs_ok_def hashing.assign_put [OF hash_int_hashing] split: if_splits)
  qed (use Cons.prems(2) in simp)
  with Cons.IH [OF Cons.prems(1)] step show ?case by simp
qed simp

lemma inputs_inj:
  assumes "inputs_ok ctx t"
  shows "inj_on (map_with_hash t) {g \<in> A. map_with_hash t g \<noteq> None}"
proof (rule inj_onI)
  fix g h
  assume "g \<in> {g \<in> A. map_with_hash t g \<noteq> None}" and "h \<in> {g \<in> A. map_with_hash t g \<noteq> None}"
    and eq: "map_with_hash t g = map_with_hash t h"
  then obtain r s where rs: "ht_find hash_int t (int g) = Some r" "ht_find hash_int t (int h) = Some s"
    by (auto simp: map_with_hash_def)
  then have "nat r = nat s" using eq by (simp add: map_with_hash_def)
  moreover have "0 \<le> r" "0 \<le> s" "map_of (bx_used ctx) r = Some g" "map_of (bx_used ctx) s = Some h"
    using assms rs by (auto simp: inputs_ok_def)
  ultimately show "g = h" by (metis eq_nat_nat_iff option.inject)
qed

lemma all_text_total: "\<exists>s. all_text vars cs = Some s"
proof -
  have "wc_coefficient c v \<noteq> None" if "wc_has_var c v" for c v
    using that by (auto simp: wc_coefficient_def wc_has_var_def le_coefficient_def le_has_var_def)
  then have "\<exists>s. cons_text vars c = Some s" for c
    using mapM_total [of "filter (wc_has_var c) vars" "\<lambda>v. map_option (Pair v) (wc_coefficient c v)"]
    by (fastforce simp: cons_text_def)
  then have "\<exists>ss. mapM (cons_text vars) cs = Some ss" using mapM_total [of cs "cons_text vars"] by blast
  then show ?thesis by (auto simp: all_text_def)
qed

definition params_ok :: "'p domain \<Rightarrow> (int, guid) omap \<Rightarrow> int set \<Rightarrow> bool" where
  "params_ok s used R \<longleftrightarrow> (\<forall>r \<in> R. \<exists>g. map_of used r = Some g \<and>
     im_find1 (d_idmap s) (Param r) = Some (idval_t g NO_STEP))"

context poly_env
begin

lemma export_total:
  assumes ok: "dom_ok E gen res" and d: "im_ok (d_idmap d)" "im_find1 (d_idmap d) = im_find1 (d_idmap res)"
    and used: "used_ok ctx" and ctx: "ctx_ok ctx"
  obtains ctx' where "export_conditions E ctx taken addr d res = Some ctx'" and "ctx_ok ctx'"
    and "bx_used ctx' = bx_used ctx"
proof -
  obtain dm where dm: "dom_copy res = Some dm" "dom_ok E gen dm" "im_find1 (d_idmap dm) = im_find1 (d_idmap res)"
    using dom_copy_ok [OF ok] by metis
  have new: "inputs_ok ctx (ht_new default_size)"
    unfolding inputs_ok_def
    by (subst hashing.find_new [OF hash_int_hashing]) (simp_all add: default_size_def ht_ok_new)
  have "im_find1 (d_idmap dm) i = Some iv" if "(i, iv) \<in> set (im_pairs (d_idmap d))" for i iv
    using that d dm(3) by (simp add: im_pairs_iff)
  from inputs_total [OF used this new] obtain t where
    t: "foldM (branch_input ctx dm) (im_pairs (d_idmap d)) (ht_new default_size) = Some t" "inputs_ok ctx t" by auto
  have w: "wp_ok (e_ppl E) (d_poly dm)" by (rule dom_okD [OF dm(2)])
  obtain p where p: "doMapPoly E (map_with_hash t) dm = Some (dm\<lparr>d_poly := p\<rparr>)" "wp_ok (e_ppl E) p"
    by (rule doMapPoly_ok [OF w inputs_inj [OF t(2)]])
  let ?dm2 = "doMapIdents (map_with_hash t) (dm\<lparr>d_poly := p\<rparr>)"
  have dm2: "doMap E (map_with_hash t) dm = Some ?dm2" "wp_ok (e_ppl E) (d_poly ?dm2)"
    using p by (simp_all add: doMap_def) (simp add: doMapIdents_def)
  obtain cs where cs: "wp_constraints (e_ppl E) (d_poly ?dm2) = Some cs" using constraints [OF dm2(2)] by metis
  obtain s where s: "all_text (wp_vars (d_poly ?dm2)) cs = Some s" using all_text_total by blast
  let ?c = "\<lparr>cd_block = Some addr, cd_taken = taken, cd_text = s\<rparr>"
  let ?ctx = "if bx_used ctx = [] then ctx else if s \<noteq> [] then record_condition ?c ctx else ctx"
  have "export_conditions E ctx taken addr d res = Some ?ctx"
    using dm(1) t(1) dm2(1) cs s by (simp add: export_conditions_def)
  moreover have "ctx_ok ?ctx" using ctx record_condition_ok(1) [OF ctx, of ?c] by simp
  moreover have "bx_used ?ctx = bx_used ctx" by (simp add: record_condition_def Let_def)
  ultimately show thesis by (rule that)
qed

text \<open>
  A branch never aborts, and covers every state in which the comparison is an integer that
  satisfies the condition (its negation on the edge that is not taken).
\<close>

lemma branch_sound:
  assumes ok: "dom_ok E gen d" and f: "hasFilter d" and h: "hasIdent d (d_compare_reg d)"
    and t: "id_type (d_compare_reg d) \<noteq> ID_MEM_ADDR" and r: "is_relation (d_compare_op d)"
    and used: "used_ok ctx" and ctx: "ctx_ok ctx"
  obtains d' ctx' where "onBranch E taken addr d ctx = Some (d', ctx')" and "dom_ok E gen d'"
    and "ctx_ok ctx'" and "bx_used ctx' = bx_used ctx" and "\<not> hasFilter d'"
    and "\<And>\<rho>. \<rho> \<in> dom_sem E d \<Longrightarrow> \<rho> (d_compare_reg d) \<in> \<int> \<Longrightarrow>
      cond_sat (d_compare_op d) (\<rho> (d_compare_reg d)) = taken \<Longrightarrow> \<rho> \<in> dom_sem E d'"
proof (cases "isBottom E d")
  case True
  then have "dom_sem E d = {}"
    using ok empty_sound by (auto simp: isBottom_def dom_sem_def models_def dom_ok_def)
  then show thesis
    using True ctx
    by (intro that [of "dom_bottom E" ctx])
      (simp_all add: onBranch_def, simp add: hasFilter_def dom_bottom_def ident_invalid_def)
next
  case nb: False
  define c where "c = (if taken then d_compare_op d else e_invert E (d_compare_op d))"
  have c: "is_relation c" "\<And>x. cond_sat c x \<longleftrightarrow> cond_sat (d_compare_op d) x = taken"
    using invert [OF r] r by (auto simp: c_def)
  obtain iv where iv: "im_find1 (d_idmap d) (d_compare_reg d) = Some iv" using h by (auto simp: hasIdent_iff)
  obtain d0 where d0: "dom_copy d = Some d0" "dom_ok E gen d0" "im_find1 (d_idmap d0) = im_find1 (d_idmap d)"
    "d_poly d0 = d_poly d" "d_num_axis d0 = d_num_axis d" "d_compare_reg d0 = d_compare_reg d"
    using dom_copy_ok [OF ok] by metis
  note m0 = models_cong [OF d0(3,4)]
  obtain p where p: "branch_filter E c d0 = Some (d0\<lparr>d_poly := p\<rparr>)" "dom_ok E gen (d0\<lparr>d_poly := p\<rparr>)"
    and keep: "\<And>v \<rho>. models E d v \<rho> \<Longrightarrow> int_sat c (\<rho> (d_compare_reg d)) \<Longrightarrow> models E (d0\<lparr>d_poly := p\<rparr>) v \<rho>"
  proof (rule filter_ok [OF d0(2) _ c(1), of iv])
    show "d_num_axis d0 \<noteq> -1" using nb d0(5) by (simp add: isBottom_def)
    show "im_find1 (d_idmap d0) (d_compare_reg d0) = Some iv" "id_type (d_compare_reg d0) \<noteq> ID_MEM_ADDR"
      using iv t d0(3,6) by simp_all
  qed (use that m0 d0(6) in auto)
  let ?d1 = "d0\<lparr>d_poly := p\<rparr>"
  obtain ctx' where ctx': "(if \<not> isBottom E ?d1 then export_conditions E ctx taken addr d ?d1 else Some ctx) = Some ctx'"
    "ctx_ok ctx'" "bx_used ctx' = bx_used ctx"
  proof (cases "isBottom E ?d1")
    case False
    then show thesis
      using export_total [OF p(2) dom_okD(1) [OF ok] _ used ctx, of taken addr] d0(3) that by (metis domain.select_convs(2) domain.surjective domain.update_convs(1))
  qed (use ctx that in simp)
  have iv1: "im_find1 (d_idmap ?d1) (d_compare_reg ?d1) = Some iv" using iv d0(3,6) by simp
  obtain d2 where d2: "varKillIdent (d_compare_reg ?d1) ?d1 = Some d2" "dom_ok E gen d2"
    "im_find1 (d_idmap d2) = (im_find1 (d_idmap ?d1))(d_compare_reg ?d1 := None)" "d_poly d2 = p"
    "d_num_axis d2 = d_num_axis d0"
    using varKill_ok [OF p(2) iv1] by (metis domain.select_convs(1) domain.select_convs(7) domain.surjective domain.update_convs(1))
  let ?d2 = "d2\<lparr>d_compare_reg := ident_invalid\<rparr>"
  let ?d' = "if isBottom E ?d2 then dom_bottom E else ?d2"
  have "onBranch E taken addr d ctx = Some (?d', ctx')"
    using nb f d0(1) p(1) ctx'(1) d2(1) by (simp add: onBranch_def c_def Let_def)
  moreover have "dom_ok E gen ?d2" using d2(2) by (simp add: dom_ok_def)
  then have "dom_ok E gen ?d'" by simp
  moreover have "\<not> hasFilter ?d'" by (simp add: hasFilter_def dom_bottom_def ident_invalid_def)
  moreover have "\<rho> \<in> dom_sem E ?d'" if r: "\<rho> \<in> dom_sem E d" "\<rho> (d_compare_reg d) \<in> \<int>"
    "cond_sat (d_compare_op d) (\<rho> (d_compare_reg d)) = taken" for \<rho>
  proof -
    obtain v where v: "models E d v \<rho>" using r(1) by (auto simp: dom_sem_def)
    have "models E ?d1 v \<rho>" using keep [OF v] int_sat_cond [OF r(2)] c(2) r(3) by simp
    then have m: "models E ?d2 v \<rho>" using d2(3,4) by (auto simp: models_def split: if_splits)
    have "\<not> isBottom E ?d2"
      using m empty_sound [of p] nb d0(5) d2(4,5) by (auto simp: isBottom_def models_def)
    then show ?thesis using models_dom_sem [OF m] by simp
  qed
  ultimately show thesis using that ctx'(2,3) by blast
qed

text \<open>
  The arguments: after the initialisation the special identifier of each argument register has
  the value of the register, forever traceable through the variable recorded for it.
\<close>

lemma models_free:
  assumes ok: "dom_ok E gen d" and fresh: "im_find1 (d_idmap d) i = None"
    and d1: "im_find1 (d_idmap d1) = (im_find1 (d_idmap d))(i \<mapsto> idval_t gen step)" "d_poly d1 = d_poly d"
  shows "dom_sem E d1 = dom_sem E d"
  unfolding havoc [OF ok d1]
proof (intro set_eqI iffI)
  fix \<rho>
  assume "\<rho> \<in> {\<rho>(i := x) | \<rho> x. \<rho> \<in> dom_sem E d}"
  then obtain \<rho>0 x v where r: "\<rho> = \<rho>0(i := x)" "models E d v \<rho>0" by (auto simp: dom_sem_def)
  then have "models E d v \<rho>" using fresh by (auto simp: models_def)
  then show "\<rho> \<in> dom_sem E d" by (rule models_dom_sem)
next
  fix \<rho>
  assume "\<rho> \<in> dom_sem E d"
  then show "\<rho> \<in> {\<rho>(i := x) | \<rho> x. \<rho> \<in> dom_sem E d}" by (metis (mono_tags, lifting) fun_upd_triv mem_Collect_eq)
qed

lemma init_parameter_ok:
  assumes ok: "dom_ok E gen s" and free: "\<not> hasIdent s (Reg r)" "\<not> hasIdent s (Param r)"
    and used: "om_ok used" "map_of used r = None"
  obtains s' where "init_parameter E r (s, used, gen) = Some (s', om_emplace r (gen + 1) used, gen + 2)"
    and "dom_ok E (gen + 2) s'"
    and "im_find1 (d_idmap s') = (im_find1 (d_idmap s))(Reg r \<mapsto> idval_t gen NO_STEP, Param r \<mapsto> idval_t (gen + 1) NO_STEP)"
    and "dom_sem E s' = {\<rho> \<in> dom_sem E s. \<rho> (Param r) = \<rho> (Reg r)}"
proof -
  have f: "im_find1 (d_idmap s) (Reg r) = None" "im_find1 (d_idmap s) (Param r) = None"
    using free by (auto simp: hasIdent_iff)
  obtain s1 where s1: "varNew (Reg r) NO_STEP False s gen = Some (gen, s1, gen + 1)" "dom_ok E (gen + 1) s1"
    "im_find1 (d_idmap s1) = (im_find1 (d_idmap s))(Reg r \<mapsto> idval_t gen NO_STEP)" "d_poly s1 = d_poly s"
    using varNew_ok [OF ok, of "Reg r" NO_STEP False] free(1) by auto
  have f1: "im_find1 (d_idmap s1) (Param r) = None" using f(2) s1(3) by (simp add: Param_def)
  obtain s2 where s2: "varNew (Param r) NO_STEP False s1 (gen + 1) = Some (gen + 1, s2, gen + 1 + 1)"
    "dom_ok E (gen + 1 + 1) s2"
    "im_find1 (d_idmap s2) = (im_find1 (d_idmap s1))(Param r \<mapsto> idval_t (gen + 1) NO_STEP)" "d_poly s2 = d_poly s1"
    using varNew_ok [OF s1(2), of "Param r" NO_STEP False] f1 by (auto simp: Param_def hasIdent_iff)
  let ?c = "w_eq (V (gen + 1)) (V gen)"
  have vars: "wc_vars ?c \<subseteq> insert (gen + 1) {gen}" by (rule w_eq_vars) auto
  have r1: "im_find1 (d_idmap s1) (Reg r) = Some (idval_t gen NO_STEP)" using s1(3) by simp
  have val: "v gen = \<rho> (Reg r)" if "models E s1 v \<rho>" for v \<rho> using models_value [OF that r1] by simp
  have res: "dom_ok E (gen + 1 + 1) (doNewConstraint E ?c s2)"
      "dom_sem E (doNewConstraint E ?c s2) = (\<lambda>\<rho>. \<rho>(Param r := \<rho> (Reg r))) ` dom_sem E s1"
    using write_value [where F = "\<lambda>v. v gen" and H = "\<lambda>\<rho>. \<rho> (Reg r)", OF s1(2) s2(2-4) vars] val
    by simp_all
  have "(\<lambda>\<rho>. \<rho>(Param r := \<rho> (Reg r))) ` dom_sem E s = {\<rho> \<in> dom_sem E s. \<rho> (Param r) = \<rho> (Reg r)}" (is "?f ` _ = ?S")
  proof (intro set_eqI iffI)
    fix \<rho>
    assume "\<rho> \<in> ?f ` dom_sem E s"
    then obtain \<rho>0 v where r: "\<rho> = \<rho>0(Param r := \<rho>0 (Reg r))" "models E s v \<rho>0" by (auto simp: dom_sem_def)
    then have "models E s v \<rho>" using f(2) by (auto simp: models_def)
    then have "\<rho> \<in> dom_sem E s" by (rule models_dom_sem)
    moreover have "Reg r \<noteq> Param r" by (simp add: Param_def)
    then have "\<rho> (Param r) = \<rho> (Reg r)" unfolding r(1) by simp
    ultimately show "\<rho> \<in> ?S" by blast
  next
    fix \<rho>
    assume "\<rho> \<in> ?S"
    then have "?f \<rho> = \<rho>" and \<rho>: "\<rho> \<in> dom_sem E s" by auto
    from this(1) [symmetric] \<rho> show "\<rho> \<in> ?f ` dom_sem E s" by (rule image_eqI)
  qed
  moreover have "dom_sem E s1 = dom_sem E s" by (rule models_free [OF ok f(1) s1(3,4)])
  ultimately have sem: "dom_sem E (doNewConstraint E ?c s2) = ?S" using res(2) by simp
  have "im_find1 (d_idmap (doNewConstraint E ?c s2)) =
      (im_find1 (d_idmap s))(Reg r \<mapsto> idval_t gen NO_STEP, Param r \<mapsto> idval_t (gen + 1) NO_STEP)"
    using s1(3) s2(3) by (simp add: doNewConstraint_def)
  moreover have "init_parameter E r (s, used, gen) =
      Some (doNewConstraint E ?c s2, om_emplace r (gen + 1) used, gen + 2)"
    using s1(1) s2(1) by (simp add: init_parameter_def)
  ultimately show thesis using that res(1) sem by simp
qed

lemma init_parameters_fold:
  assumes "dom_ok E gen s" and "om_ok used" and "distinct rs"
    and "\<And>r. r \<in> set rs \<Longrightarrow> \<not> hasIdent s (Reg r) \<and> \<not> hasIdent s (Param r) \<and> map_of used r = None"
    and "params_ok s used R"
  shows "\<exists>s' used' gen'. foldM (init_parameter E) rs (s, used, gen) = Some (s', used', gen') \<and>
    dom_ok E gen' s' \<and> om_ok used' \<and> dom (map_of used') = dom (map_of used) \<union> set rs \<and>
    params_ok s' used' (R \<union> set rs) \<and> dom_sem E s' = {\<rho> \<in> dom_sem E s. \<forall>r \<in> set rs. \<rho> (Param r) = \<rho> (Reg r)}"
  using assms
proof (induction rs arbitrary: s used gen R)
  case (Cons r rs)
  have free: "\<not> hasIdent s (Reg r)" "\<not> hasIdent s (Param r)" "map_of used r = None" using Cons.prems(4) by auto
  from init_parameter_ok [OF Cons.prems(1) free(1,2) Cons.prems(2) free(3)] obtain s1 where
    s1: "init_parameter E r (s, used, gen) = Some (s1, om_emplace r (gen + 1) used, gen + 2)" "dom_ok E (gen + 2) s1"
      "im_find1 (d_idmap s1) = (im_find1 (d_idmap s))(Reg r \<mapsto> idval_t gen NO_STEP, Param r \<mapsto> idval_t (gen + 1) NO_STEP)"
      "dom_sem E s1 = {\<rho> \<in> dom_sem E s. \<rho> (Param r) = \<rho> (Reg r)}" .
  let ?used = "om_emplace r (gen + 1) used"
  have u: "om_ok ?used" "map_of ?used = (map_of used)(r \<mapsto> gen + 1)"
    using om_emplace_ok [OF Cons.prems(2)] map_of_om_emplace [OF Cons.prems(2)] free(3) by auto
  have rest: "\<not> hasIdent s1 (Reg q) \<and> \<not> hasIdent s1 (Param q) \<and> map_of ?used q = None" if "q \<in> set rs" for q
    using Cons.prems(3) Cons.prems(4) [of q] that s1(3) u(2) by (auto simp: hasIdent_iff Param_def)
  have fresh: "q \<noteq> r" if "q \<in> R" for q using Cons.prems(5) free(3) that by (auto simp: params_ok_def)
  have "params_ok s1 ?used (insert r R)"
    using Cons.prems(5) fresh s1(3) u(2) by (auto simp: params_ok_def Param_def)
  from Cons.IH [OF s1(2) u(1) _ rest this] Cons.prems(3) obtain s' used' gen' where
    "foldM (init_parameter E) rs (s1, ?used, gen + 2) = Some (s', used', gen')" "dom_ok E gen' s'" "om_ok used'"
    "dom (map_of used') = dom (map_of ?used) \<union> set rs" "params_ok s' used' (insert r R \<union> set rs)"
    "dom_sem E s' = {\<rho> \<in> dom_sem E s1. \<forall>r \<in> set rs. \<rho> (Param r) = \<rho> (Reg r)}" by auto
  then show ?case using s1(1,4) u(2) by auto
qed auto

lemma init_parameters:
  assumes ok: "dom_ok E gen s" and free: "\<And>r. r \<in> {0, 1, 2, 3} \<Longrightarrow> \<not> hasIdent s (Reg r) \<and> \<not> hasIdent s (Param r)"
    and ctx: "bx_used ctx = []"
  obtains s' ctx' gen' where "initFunctionParameters E True s ctx gen = Some (s', ctx', gen')"
    and "dom_ok E gen' s'" and "used_ok ctx'" and "params_ok s' (bx_used ctx') {0, 1, 2, 3}"
    and "dom_sem E s' = {\<rho> \<in> dom_sem E s. \<forall>r \<in> {0, 1, 2, 3}. \<rho> (Param r) = \<rho> (Reg r)}"
proof -
  have "params_ok s [] {}" by (simp add: params_ok_def)
  from init_parameters_fold [OF ok om_ok_Nil _ _ this, of "[0, 1, 2, 3]"] free
  obtain s' used' gen' where r: "foldM (init_parameter E) [0, 1, 2, 3] (s, [], gen) = Some (s', used', gen')"
    "dom_ok E gen' s'" "om_ok used'" "dom (map_of used') = {0, 1, 2, 3}" "params_ok s' used' {0, 1, 2, 3}"
    "dom_sem E s' = {\<rho> \<in> dom_sem E s. \<forall>r \<in> {0, 1, 2, 3}. \<rho> (Param r) = \<rho> (Reg r)}" by auto
  have "fst ` set used' = {0, 1, 2, 3}" using r(4) by (simp add: dom_map_of_conv_image_fst)
  then have "used_ok (ctx\<lparr>bx_used := used'\<rparr>)" using om_ok_distinct [OF r(3)] by (auto simp: used_ok_def)
  then show thesis using r ctx by (intro that [of s' "ctx\<lparr>bx_used := used'\<rparr>" gen']) (simp_all add: initFunctionParameters_def)
qed

end

end
