(* ===== verification/Linear_Forms.thy ===== *)
theory Linear_Forms
  imports Domain_Queries
begin

text \<open>
  The linear forms by which unification recognises the same address in two states
  (\<open>_identifyPolyVars\<close>): a variable that an equality ties to the independent variables is
  given the vector of the coefficients, divided by their greatest common divisor.
\<close>

subsection \<open>Vectors of coefficients\<close>

function gcd_loop :: "int \<Rightarrow> int \<Rightarrow> int" where
  "gcd_loop pgcd coef2 = (if coef2 = 0 then pgcd else gcd_loop coef2 (pgcd smod coef2))"
  by auto
termination
proof (relation "measure (\<lambda>(a, b). nat \<bar>b\<bar>)")
  fix pgcd coef2 :: int
  assume "coef2 \<noteq> 0"
  then have "\<bar>pgcd smod coef2\<bar> < \<bar>coef2\<bar>" by (auto simp: signed_modulo_int_def abs_mult abs_sgn_eq)
  then show "((coef2, pgcd smod coef2), pgcd, coef2) \<in> measure (\<lambda>(a, b). nat \<bar>b\<bar>)" by simp
qed simp

declare gcd_loop.simps [simp del]

text \<open>The common divisor is computed from the last entry on; every entry is divided by it.\<close>

definition vect_gcd :: "int list \<Rightarrow> int" where
  "vect_gcd vect = fold (\<lambda>c g. gcd_loop g c) (butlast vect) (last vect)"

definition vect_normal :: "int list \<Rightarrow> int list" where
  "vect_normal vect =
     (let pgcd = vect_gcd vect in if pgcd \<noteq> 1 then map (\<lambda>c. c sdiv pgcd) vect else vect)"

text \<open>
  The vector of an equality: the coefficients of the independent variables, the coefficient of
  the variable itself, the constant.
\<close>

definition vect_term :: "oset \<Rightarrow> guid \<Rightarrow> wcons \<Rightarrow> guid \<Rightarrow> int list \<times> bool \<Rightarrow> (int list \<times> bool) option" where
  "vect_term indep v c v2 = (\<lambda>(vect, seen_v). do {
     let k = coef_at c v2;
     vect \<leftarrow> (if v2 \<noteq> v \<and> k \<noteq> 0 then do {
         assert_that (v2 \<in> set indep);
         Some (vect[os_index v2 indep := k]) }
       else Some vect);
     if v2 = v then do {
       assert_that (k \<noteq> 0);
       Some (vect[length vect - 2 := k], True) }
     else Some (vect, seen_v) })"

definition vect_of :: "oset \<Rightarrow> guid \<Rightarrow> wcons \<Rightarrow> int list option" where
  "vect_of indep v c = do {
     (vect, seen_v) \<leftarrow> foldM (vect_term indep v c) (wc_terms c) (replicate (length indep + 2) 0, False);
     assert_that seen_v;
     Some (vect_normal (vect[length vect - 1 := wc_inhomogeneous c])) }"

definition identify_one ::
  "'p env \<Rightarrow> 'p domain \<Rightarrow> oset \<Rightarrow> ident_type \<Rightarrow> guid \<Rightarrow> int \<Rightarrow> (guid, int list) htable \<Rightarrow>
   (guid, int list) htable option" where
  "identify_one E d indep ident_type v step csmap =
     (if \<not> isVarMapped d v step then Some csmap
      else do {
        i \<leftarrow> getIdent d (idval_t v step);
        if id_type i \<noteq> ident_type then Some csmap
        else do {
          temp \<leftarrow> wp_filter_lambda (e_ppl E) (\<lambda>g. g = v \<or> g \<in> set indep) (d_poly d);
          cs \<leftarrow> wp_constraints (e_ppl E) temp;
          case List.find (\<lambda>c. is_equality c \<and> wc_has_var c v) cs of
            None \<Rightarrow> Some csmap
          | Some c \<Rightarrow> do {
              vect \<leftarrow> vect_of indep v c;
              Some (ht_put (hash_guid E) v vect csmap) } } })"

definition identify_steps :: "ident_type \<Rightarrow> int list" where
  "identify_steps t = (if t = ID_MEM_COUNT then [-1] else map int [0..<nat MAX_STEP])"

definition identifyPolyVars ::
  "'p env \<Rightarrow> 'p domain \<Rightarrow> oset \<Rightarrow> oset \<Rightarrow> (guid, int list) htable \<Rightarrow> ident_type \<Rightarrow>
   (guid, int list) htable option" where
  "identifyPolyVars E d vars indep csmap ident_type =
     foldM (\<lambda>v csmap. foldM (identify_one E d indep ident_type v) (identify_steps ident_type) csmap) vars csmap"

subsection \<open>The divisor\<close>

lemma gcd_loop_gcd: "\<bar>gcd_loop a b\<bar> = gcd a b"
proof (induction a b rule: gcd_loop.induct)
  case (1 a b)
  show ?case
  proof (cases "b = 0")
    case True
    then show ?thesis by (simp add: gcd_loop.simps)
  next
    case False
    have "gcd b (a smod b) = gcd b a"
    proof -
      have "a smod b = a - (a sdiv b) * b" using sdiv_mult_smod_eq [of a b] by (simp add: algebra_simps)
      then show ?thesis by (metis gcd_diff2 gcd_add_mult minus_mult_left mult.commute uminus_add_conv_diff)
    qed
    then show ?thesis using False 1 by (subst gcd_loop.simps) (simp add: gcd.commute)
  qed
qed

lemma sdiv_scale: "k \<noteq> 0 \<Longrightarrow> (k * a) sdiv (k * b) = a sdiv b" for k :: int
  by (cases "0 < k") (simp_all add: signed_divide_int_def sgn_mult abs_mult)

lemma sdiv_one: "c sdiv 1 = c" for c :: int
  by (simp add: signed_divide_int_def sgn_mult_abs)

lemma smod_scale: "k \<noteq> 0 \<Longrightarrow> (k * a) smod (k * b) = k * (a smod b)" for k :: int
proof -
  assume k: "k \<noteq> 0"
  have "(k * a) smod (k * b) = k * a - a sdiv b * (k * b)"
    using sdiv_mult_smod_eq [of "k * a" "k * b"] by (simp add: sdiv_scale [OF k])
  also have "\<dots> = k * (a - a sdiv b * b)" by (simp add: algebra_simps)
  also have "a - a sdiv b * b = a smod b" using sdiv_mult_smod_eq [of a b] by simp
  finally show ?thesis .
qed

lemma gcd_loop_scale: "k \<noteq> 0 \<Longrightarrow> gcd_loop (k * a) (k * b) = k * gcd_loop a b"
proof (induction a b rule: gcd_loop.induct)
  case (1 a b)
  then show ?case
    by (subst (1 2) gcd_loop.simps) (simp add: smod_scale)
qed

lemma vect_gcd_scale:
  assumes "k \<noteq> 0" and "vect \<noteq> []"
  shows "vect_gcd (map ((*) k) vect) = k * vect_gcd vect"
proof -
  have "fold (\<lambda>c g. gcd_loop g c) (map ((*) k) xs) (k * g) = k * fold (\<lambda>c g. gcd_loop g c) xs g" for xs g
    by (induction xs arbitrary: g) (simp_all add: gcd_loop_scale [OF assms(1)])
  then show ?thesis using assms(2) by (simp add: vect_gcd_def last_map map_butlast [symmetric])
qed

lemma vect_gcd_fold: "\<bar>fold (\<lambda>c g. gcd_loop g c) xs g\<bar> = fold gcd xs \<bar>g\<bar>"
proof (induction xs arbitrary: g)
  case (Cons x xs)
  then show ?case by (simp add: gcd_loop_gcd gcd.commute)
qed simp

lemma vect_gcd_dvd:
  assumes "c \<in> set vect"
  shows "vect_gcd vect dvd c"
proof -
  have d: "fold (\<lambda>c g. gcd_loop g c) xs g dvd g \<and> (\<forall>x \<in> set xs. fold (\<lambda>c g. gcd_loop g c) xs g dvd x)" for xs g
  proof (induction xs arbitrary: g)
    case (Cons x xs)
    have "gcd_loop g x dvd g" "gcd_loop g x dvd x" using gcd_loop_gcd [of g x] by (metis abs_dvd_iff gcd_dvd1 gcd_dvd2)+
    then show ?case using Cons [of "gcd_loop g x"] by (auto intro: dvd_trans)
  qed simp
  have "vect \<noteq> []" using assms by auto
  then have "c = last vect \<or> c \<in> set (butlast vect)"
    using assms append_butlast_last_id [of vect] by (metis UnE empty_iff empty_set set_append set_ConsD)
  then show ?thesis using d [of "butlast vect" "last vect"] by (auto simp: vect_gcd_def)
qed

lemma vect_gcd_zero: "vect \<noteq> [] \<Longrightarrow> vect_gcd vect = 0 \<longleftrightarrow> set vect \<subseteq> {0}"
proof -
  assume ne: "vect \<noteq> []"
  have z: "fold (\<lambda>c g. gcd_loop g c) xs g = 0 \<longleftrightarrow> g = 0 \<and> set xs \<subseteq> {0}" for xs g
  proof (induction xs arbitrary: g)
    case (Cons x xs)
    have "gcd_loop g x = 0 \<longleftrightarrow> g = 0 \<and> x = 0" using gcd_loop_gcd [of g x] by (metis abs_0 abs_eq_0_iff gcd_eq_0_iff)
    then show ?case using Cons [of "gcd_loop g x"] by auto
  qed simp
  have "set vect = insert (last vect) (set (butlast vect))"
    using append_butlast_last_id [OF ne] by (metis Un_insert_right list.simps(15) empty_set set_append sup_bot_right)
  then show ?thesis using z [of "butlast vect" "last vect"] by (auto simp: vect_gcd_def)
qed

text \<open>
  Proportional equalities have the same normal vector, whatever the factor: the signs of the
  truncated remainders follow the signs of the arguments.
\<close>

theorem vect_normal_scale:
  assumes "k \<noteq> 0" and "vect \<noteq> []"
  shows "vect_normal (map ((*) k) vect) = vect_normal vect"
proof -
  have n: "vect_normal v = map (\<lambda>c. c sdiv vect_gcd v) v" for v
    by (simp add: vect_normal_def Let_def sdiv_one)
  show ?thesis by (simp add: n vect_gcd_scale [OF assms] sdiv_scale [OF assms(1)])
qed

lemma vect_normal_prop:
  assumes "vect \<noteq> []" and "\<not> set vect \<subseteq> {0}"
  obtains g where "g \<noteq> 0" and "vect = map ((*) g) (vect_normal vect)"
proof -
  let ?g = "vect_gcd vect"
  have g: "?g \<noteq> 0" using assms vect_gcd_zero by blast
  have "c = ?g * (c sdiv ?g)" if "c \<in> set vect" for c
  proof -
    have "c smod ?g = 0" using vect_gcd_dvd [OF that]
      by (auto simp: signed_modulo_int_def elim!: dvdE)
    then show ?thesis using sdiv_mult_smod_eq [of c ?g] by (simp add: mult.commute)
  qed
  then have "vect = map ((*) ?g) (vect_normal vect)"
    by (auto simp: vect_normal_def Let_def comp_def intro!: map_idI [symmetric])
  with g show thesis by (rule that)
qed

subsection \<open>What a vector says\<close>

definition form_eval :: "oset \<Rightarrow> guid \<Rightarrow> int list \<Rightarrow> valuation \<Rightarrow> rat" where
  "form_eval indep v vect val =
     (\<Sum>i < length indep. of_int (vect ! i) * val (indep ! i)) +
     of_int (vect ! length indep) * val v + of_int (vect ! Suc (length indep))"

definition form_ok :: "oset \<Rightarrow> int list \<Rightarrow> bool" where
  "form_ok indep vect \<longleftrightarrow> length vect = length indep + 2 \<and> vect ! length indep \<noteq> 0"

lemma form_eval_scale:
  "length vect = length indep + 2 \<Longrightarrow> form_eval indep v (map ((*) k) vect) val = of_int k * form_eval indep v vect val"
  by (simp add: form_eval_def sum_distrib_left algebra_simps)

text \<open>Two variables with the same vector have the same value where the independent ones agree.\<close>

lemma form_same:
  assumes "form_ok indep vect" and "form_eval indep x vect val = 0" and "form_eval indep y vect val' = 0"
    and "\<And>g. g \<in> set indep \<Longrightarrow> val g = val' g"
  shows "val x = val' y"
proof -
  have "(\<Sum>i < length indep. of_int (vect ! i) * val (indep ! i)) =
      (\<Sum>i < length indep. of_int (vect ! i) * val' (indep ! i))"
    using assms(4) by (intro sum.cong) auto
  then have "of_int (vect ! length indep) * val x = of_int (vect ! length indep) * val' y"
    using assms(2,3) unfolding form_eval_def by linarith
  then show ?thesis using assms(1) by (simp add: form_ok_def)
qed

lemma os_index_of_nth: "distinct xs \<Longrightarrow> i < length xs \<Longrightarrow> os_index (xs ! i) xs = i"
proof (induction xs arbitrary: i)
  case (Cons x xs)
  then show ?case by (cases i) (auto dest: nth_mem)
qed simp

lemma vect_term_self:
  "vect_term indep v c v (vect, seen) =
     (if coef_at c v = 0 then None else Some (vect[length vect - 2 := coef_at c v], True))"
  by (simp add: vect_term_def)

lemma vect_term_other:
  "t \<noteq> v \<Longrightarrow> vect_term indep v c t (vect, seen) =
     (if coef_at c t = 0 then Some (vect, seen)
      else if t \<in> set indep then Some (vect[os_index t indep := coef_at c t], seen) else None)"
  by (simp add: vect_term_def assert_that_def)

lemma vect_terms:
  assumes "foldM (vect_term indep v c) ts (vect, seen) = Some (vect', seen')"
    and "length vect = length indep + 2" and "distinct indep" and "v \<notin> set indep"
  shows "length vect' = length indep + 2"
    and "\<And>i. i < length indep \<Longrightarrow> vect' ! i =
      (if indep ! i \<in> set ts \<and> coef_at c (indep ! i) \<noteq> 0 then coef_at c (indep ! i) else vect ! i)"
    and "vect' ! length indep = (if v \<in> set ts then coef_at c v else vect ! length indep)"
    and "seen' \<longleftrightarrow> seen \<or> v \<in> set ts" and "v \<in> set ts \<Longrightarrow> coef_at c v \<noteq> 0"
    and "\<And>x. x \<in> set ts \<Longrightarrow> x \<noteq> v \<Longrightarrow> coef_at c x \<noteq> 0 \<Longrightarrow> x \<in> set indep"
proof -
  have "length vect' = length indep + 2 \<and>
    (\<forall>i < length indep. vect' ! i =
      (if indep ! i \<in> set ts \<and> coef_at c (indep ! i) \<noteq> 0 then coef_at c (indep ! i) else vect ! i)) \<and>
    vect' ! length indep = (if v \<in> set ts then coef_at c v else vect ! length indep) \<and>
    (seen' \<longleftrightarrow> seen \<or> v \<in> set ts) \<and> (v \<in> set ts \<longrightarrow> coef_at c v \<noteq> 0) \<and>
    (\<forall>x \<in> set ts. x \<noteq> v \<longrightarrow> coef_at c x \<noteq> 0 \<longrightarrow> x \<in> set indep)"
    using assms(1,2)
  proof (induction ts arbitrary: vect seen)
    case (Cons t ts)
    show ?case
    proof (cases "t = v")
      case True
      then have k: "coef_at c v \<noteq> 0"
        and run: "foldM (vect_term indep v c) ts (vect[length vect - 2 := coef_at c v], True) = Some (vect', seen')"
        using Cons.prems(1) by (auto simp: vect_term_self split: if_splits)
      have v: "indep ! i \<noteq> v" if "i < length indep" for i using that assms(4) nth_mem by metis
      show ?thesis
        using Cons.IH [OF run] Cons.prems(2) True k v by (auto simp: nth_list_update)
    next
      case False
      show ?thesis
      proof (cases "coef_at c t = 0")
        case True
        then have "foldM (vect_term indep v c) ts (vect, seen) = Some (vect', seen')"
          using Cons.prems(1) False by (simp add: vect_term_other)
        from Cons.IH [OF this Cons.prems(2)] show ?thesis using True False by auto
      next
        case k: False
        then have t: "t \<in> set indep"
          and run: "foldM (vect_term indep v c) ts (vect[os_index t indep := coef_at c t], seen) = Some (vect', seen')"
          using Cons.prems(1) False by (auto simp: vect_term_other split: if_splits)
        have j: "os_index t indep < length indep" "indep ! os_index t indep = t"
          using os_index_nth [OF t] by auto
        have i: "os_index t indep = i \<longleftrightarrow> indep ! i = t" if "i < length indep" for i
          using that assms(3) os_index_of_nth j by metis
        show ?thesis
          using Cons.IH [OF run] Cons.prems(2) False k t j i by (auto simp: nth_list_update)
      qed
    qed
  qed simp
  then show "length vect' = length indep + 2"
    and "\<And>i. i < length indep \<Longrightarrow> vect' ! i =
      (if indep ! i \<in> set ts \<and> coef_at c (indep ! i) \<noteq> 0 then coef_at c (indep ! i) else vect ! i)"
    and "vect' ! length indep = (if v \<in> set ts then coef_at c v else vect ! length indep)"
    and "seen' \<longleftrightarrow> seen \<or> v \<in> set ts" and "v \<in> set ts \<Longrightarrow> coef_at c v \<noteq> 0"
    and "\<And>x. x \<in> set ts \<Longrightarrow> x \<noteq> v \<Longrightarrow> coef_at c x \<noteq> 0 \<Longrightarrow> x \<in> set indep" by blast+
qed

lemma coef_at_coef: "coef_at c g = le_coef (wc_expr c) g"
  by (simp add: coef_at_def wc_coefficient_def le_coefficient_def le_coef_def split: option.split)

lemma wc_terms_vars: "set (wc_terms c) = wc_vars c"
  by (simp add: wc_terms_def wc_vars_def le_terms_def le_vars_def)

lemma vect_of_sound:
  assumes run: "vect_of indep v c = Some vect" and ok: "wc_ok c" and indep: "distinct indep" "v \<notin> set indep"
  shows "form_ok indep vect"
    and "\<exists>g. g \<noteq> 0 \<and> (\<forall>val. le_eval val (wc_expr c) = of_int g * form_eval indep v vect val)"
proof -
  let ?n = "length indep"
  obtain v0 where f: "foldM (vect_term indep v c) (wc_terms c) (replicate (?n + 2) 0, False) = Some (v0, True)"
    and vect: "vect = vect_normal (v0[length v0 - 1 := wc_inhomogeneous c])"
    using run by (auto simp: vect_of_def bindE)
  note t = vect_terms [OF f _ indep, simplified, unfolded wc_terms_vars]
  define v1 where "v1 = v0[length v0 - 1 := wc_inhomogeneous c]"
  have at0: "coef_at c g = 0" if "g \<notin> wc_vars c" for g
    using that by (simp add: coef_at_coef le_coef_def wc_vars_def le_vars_dom domIff split: option.split)
  have rep: "(0 # 0 # replicate ?n 0) ! i = (0 :: int)" if "i < ?n" for i
    using that by (auto simp: nth_Cons split: nat.split)
  have len: "length v1 = ?n + 2" using t(1) by (simp add: v1_def)
  have v1: "\<And>i. i < ?n \<Longrightarrow> v1 ! i = coef_at c (indep ! i)" "v1 ! ?n = coef_at c v" "v1 ! Suc ?n = wc_inhomogeneous c"
    using t(1) t(2) t(3) t(4) at0 rep by (auto simp: v1_def nth_list_update)
  have nz: "coef_at c v \<noteq> 0" using t(4,5) by simp
  have eval: "le_eval val (wc_expr c) = form_eval indep v v1 val" for val
  proof -
    let ?G = "insert v (set indep)" and ?f = "\<lambda>g. of_int (le_coef (wc_expr c) g) * val g"
    have "le_eval val (wc_expr c) = of_int (cst (wc_expr c)) + (\<Sum>g \<in> ?G \<union> wc_vars c. ?f g)"
      using ok by (intro le_eval_sum) (auto simp: wc_ok_def wc_vars_def)
    also have "(\<Sum>g \<in> ?G \<union> wc_vars c. ?f g) = (\<Sum>g \<in> ?G. ?f g)"
      using t(6) by (intro sum.mono_neutral_right) (auto simp: coef_at_coef wc_vars_def)
    also have "\<dots> = ?f v + (\<Sum>g \<in> set indep. ?f g)" using indep by simp
    also have "(\<Sum>g \<in> set indep. ?f g) = (\<Sum>i < ?n. ?f (indep ! i))"
      using indep(1) by (simp add: sum_list_distinct_conv_sum_set [symmetric] sum_list_sum_nth atLeast0LessThan)
    finally show ?thesis
      using v1 by (simp add: form_eval_def coef_at_coef wc_inhomogeneous_def le_inhomogeneous_def)
  qed
  have "v1 \<noteq> []" "\<not> set v1 \<subseteq> {0}" using len v1(2) nz nth_mem [of ?n v1] by auto
  from vect_normal_prop [OF this] obtain g where g: "g \<noteq> 0" "v1 = map ((*) g) vect"
    unfolding vect v1_def [symmetric] by blast
  have l: "length vect = ?n + 2" using len g(2) by (metis length_map)
  then have "v1 ! ?n = g * vect ! ?n" by (subst g(2)) simp
  then show "form_ok indep vect" using l v1(2) nz by (auto simp: form_ok_def)
  have "form_eval indep v v1 val = of_int g * form_eval indep v vect val" for val
    by (subst g(2)) (rule form_eval_scale [OF l])
  then show "\<exists>g. g \<noteq> 0 \<and> (\<forall>val. le_eval val (wc_expr c) = of_int g * form_eval indep v vect val)"
    using g(1) eval by auto
qed

subsection \<open>The table of forms\<close>

definition forms_ok :: "'p env \<Rightarrow> 'p domain \<Rightarrow> oset \<Rightarrow> (guid, int list) htable \<Rightarrow> bool" where
  "forms_ok E d indep t \<longleftrightarrow> ht_ok (hash_guid E) t \<and>
     (\<forall>v vect. ht_find (hash_guid E) t v = Some vect \<longrightarrow> form_ok indep vect \<and>
        (\<forall>val \<in> wsem (e_ppl E) (d_poly d). form_eval indep v vect val = 0))"

lemma forms_empty: "forms_ok E d indep (ht_new default_size)"
  unfolding forms_ok_def hashing.find_new [OF hash_guid_hashing default_size_ok]
  by (simp add: ht_ok_new [OF default_size_ok])

context poly_env
begin

lemma filter_lambda:
  assumes ok: "wp_ok (e_ppl E) w"
  obtains w' where "wp_filter_lambda (e_ppl E) f w = Some w'" and "wp_ok (e_ppl E) w'"
    and "wp_dom w' = {g \<in> wp_dom w. f g}" and "wsem (e_ppl E) w \<subseteq> wsem (e_ppl E) w'"
proof (rule map_vars [OF ok, of "\<lambda>g. if f g then Some g else None"])
  show "inj_on (\<lambda>g. if f g then Some g else None) {g \<in> wp_dom w. (if f g then Some g else None) \<noteq> None}"
    by (auto simp: inj_on_def split: if_splits)
next
  fix w'
  assume w': "wp_map_vars (e_ppl E) (\<lambda>g. if f g then Some g else None) w = Some w'" "wp_ok (e_ppl E) w'"
    and dm: "\<And>j. j \<in> wp_dom w' \<longleftrightarrow> (\<exists>g \<in> wp_dom w. (if f g then Some g else None) = Some j)"
    and fwd: "\<And>v v'. v \<in> wsem (e_ppl E) w \<Longrightarrow>
      (\<And>g j. g \<in> wp_dom w \<Longrightarrow> (if f g then Some g else None) = Some j \<Longrightarrow> v' j = v g) \<Longrightarrow> v' \<in> wsem (e_ppl E) w'"
  have "wsem (e_ppl E) w \<subseteq> wsem (e_ppl E) w'" by (intro subsetI fwd) (auto split: if_splits)
  moreover have "wp_dom w' = {g \<in> wp_dom w. f g}" using dm by (auto split: if_splits)
  ultimately show thesis using that w' by (simp add: wp_filter_lambda_def)
qed

lemma identify_one_sound:
  assumes ok: "wp_ok (e_ppl E) (d_poly d)" and indep: "distinct indep" "v \<notin> set indep"
    and t: "forms_ok E d indep t" and run: "identify_one E d indep ty v step t = Some t'"
  shows "forms_ok E d indep t'"
proof -
  obtain temp where f: "wp_filter_lambda (e_ppl E) (\<lambda>g. g = v \<or> g \<in> set indep) (d_poly d) = Some temp"
    "wp_ok (e_ppl E) temp" "wsem (e_ppl E) (d_poly d) \<subseteq> wsem (e_ppl E) temp"
    using filter_lambda [OF ok, of "\<lambda>g. g = v \<or> g \<in> set indep"] by metis
  obtain cs where cs: "wp_constraints (e_ppl E) temp = Some cs" "\<And>k. k \<in> set cs \<Longrightarrow> wc_ok k"
    "wsem (e_ppl E) temp = {v. \<forall>k \<in> set cs. wc_sat v k}" using constraints [OF f(2)] by metis
  consider "t' = t" | c vect where "List.find (\<lambda>c. is_equality c \<and> wc_has_var c v) cs = Some c"
    "vect_of indep v c = Some vect" "t' = ht_put (hash_guid E) v vect t"
    using run f(1) cs(1) by (auto simp: identify_one_def bindE split: if_splits option.splits)
  then show ?thesis
  proof cases
    case (2 c vect)
    then have c: "c \<in> set cs" "is_equality c" by (auto simp: find_Some_iff)
    note s = vect_of_sound [OF 2(2) cs(2) [OF c(1)] indep]
    have "form_eval indep v vect val = 0" if "val \<in> wsem (e_ppl E) (d_poly d)" for val
    proof -
      have "wc_sat val c" using that f(3) cs(3) c(1) by blast
      then have "le_eval val (wc_expr c) = 0" using c(2) by (auto simp: wc_sat_def is_equality_def split: ctype.splits)
      then show ?thesis using s(2) by auto
    qed
    moreover have tok: "ht_ok (hash_guid E) t" using t by (simp add: forms_ok_def)
    ultimately show ?thesis
      using t s(1) hashing.put_ok [OF hash_guid_hashing tok]
      unfolding forms_ok_def 2(3) hashing.put_find [OF hash_guid_hashing ht_ok_wf [OF tok]]
      by (auto split: if_splits)
  qed (use t in simp)
qed

lemma identify_sound:
  assumes ok: "wp_ok (e_ppl E) (d_poly d)" and indep: "distinct indep" "set vars \<inter> set indep = {}"
    and t: "forms_ok E d indep t" and run: "identifyPolyVars E d vars indep t ty = Some t'"
  shows "forms_ok E d indep t'"
  using run unfolding identifyPolyVars_def
proof (rule foldM_invariant [where I = "forms_ok E d indep"])
  fix v s s'
  assume v: "v \<in> set vars" and s: "forms_ok E d indep s"
    and r: "foldM (identify_one E d indep ty v) (identify_steps ty) s = Some s'"
  show "forms_ok E d indep s'"
    using r s by (rule foldM_invariant [where I = "forms_ok E d indep"])
      (use identify_one_sound [OF ok indep(1)] v indep(2) in blast)
qed (rule t)

end

end
