(* ===== verification/Loop_Bounds.thy ===== *)
theory Loop_Bounds
  imports Branch Linear_Forms
begin

text \<open>
  Bounds of loops (\<open>poly_LoopAnalyzer.cpp\<close>, \<open>computeParamBound\<close>): the state on the
  back edges of a loop is projected on the counter of the loop and the arguments of the program;
  a constraint between the two is written out as a bound, and all bounds are exported.
\<close>

subsection \<open>The text of a bound\<close>

text \<open>\<open>gmp_snprintf\<close> with \<open>%Zd\<close> into a buffer of 64 bytes.\<close>

definition Zd :: "int \<Rightarrow> string" where
  "Zd k = take 63 (decimal k)"

text \<open>\<open>atoi\<close>: a saturating conversion to 64 bits whose low half is the result.\<close>

definition atoi :: "string \<Rightarrow> int" where
  "atoi s =
     (let neg = (s \<noteq> [] \<and> hd s = CHR ''-'');
          n = int (read_nat (takeWhile (\<lambda>c. of_char c \<in> {48..57 :: nat}) (if neg then tl s else s)))
      in to_int32 (max (- (2 ^ 63)) (min (2 ^ 63 - 1) (if neg then - n else n))))"

text \<open>
  One term. The variable of a projected argument is its axis; \<open>mapping\<close> gives the number
  of its identifier, from which the register is recovered.
\<close>

definition bound_term :: "(int, int) htable \<Rightarrow> bool \<Rightarrow> guid \<times> int \<Rightarrow> string option" where
  "bound_term mapping is_first = (\<lambda>(g, coef). do {
     i \<leftarrow> ht_at hash_int mapping (int g);
     let signStr = (if \<not> is_first \<and> coef > 0 then '' + '' else if coef = -1 then '' - '' else []);
     let variableStr = ''b:'' @ decimal (- (i + 1));
     Some (if coef \<noteq> 1 \<and> coef \<noteq> -1 then signStr @ Zd coef @ '' * '' @ variableStr
           else signStr @ variableStr) })"

text \<open>The terms but that of the counter, which is variable 0.\<close>

fun bound_terms :: "(int, int) htable \<Rightarrow> bool \<Rightarrow> (guid \<times> int) list \<Rightarrow> string option" where
  "bound_terms mapping is_first [] = Some []"
| "bound_terms mapping is_first ((g, coef) # ts) =
     (if g = 0 then bound_terms mapping is_first ts
      else do {
        t \<leftarrow> bound_term mapping is_first (g, coef);
        rest \<leftarrow> bound_terms mapping False ts;
        Some (t @ rest) })"

text \<open>A bound, unless the coefficient of the counter reads as zero.\<close>

definition linear_bound :: "(int, int) htable \<Rightarrow> wcons \<Rightarrow> string option option" where
  "linear_bound mapping c = do {
     ts \<leftarrow> bound_terms mapping True (coefs (wc_expr c));
     let constant = wc_inhomogeneous c;
     let loopBound = ts @ (if constant > 0 then '' + '' @ Zd constant else if constant < 0 then Zd constant else []);
     let bufSign = Zd (- coef_at c 0);
     let induction = atoi bufSign;
     Some (if induction = 0 then None
           else if induction \<noteq> 1 then Some (''('' @ loopBound @ '')/'' @ bufSign)
           else Some loopBound) }"

subsection \<open>The bounds found\<close>

record loop_bound =
  lb_linear :: bool
  lb_static :: int
  lb_text :: string

type_synonym loop_bounds = "(int, loop_bound) omap"

text \<open>A constraint is kept when it has the counter and an argument.\<close>

definition keeps_bound :: "wcons \<Rightarrow> bool" where
  "keeps_bound c \<longleftrightarrow> list_ex (\<lambda>v. v = 0) (wc_terms c) \<and> list_ex (\<lambda>v. v \<noteq> 0) (wc_terms c)"

definition computeLinearBound ::
  "int \<Rightarrow> wcons list \<Rightarrow> (int, int) htable \<Rightarrow> loop_bounds \<Rightarrow> loop_bounds option" where
  "computeLinearBound header cs mapping lbs =
     (case filter keeps_bound cs of
        [c] \<Rightarrow> do {
          b \<leftarrow> linear_bound mapping c;
          Some (case b of None \<Rightarrow> lbs
            | Some t \<Rightarrow> om_emplace header \<lparr>lb_linear = True, lb_static = 0, lb_text = t\<rparr> (om_erase header lbs)) }
      | _ \<Rightarrow> Some lbs)"

definition param_axis ::
  "ident \<times> idval \<Rightarrow> (int, int) htable \<times> (int, int) htable \<times> int \<Rightarrow> (int, int) htable \<times> (int, int) htable \<times> int" where
  "param_axis = (\<lambda>(i, iv) (inputs, paramMapping, axis).
     if id_type i = ID_SPECIAL \<and> id_num i < 0
     then (ht_assign hash_int (int (iv_g iv)) axis inputs, ht_assign hash_int axis (id_num i) paramMapping, axis + 1)
     else (inputs, paramMapping, axis))"

definition computeParamBound :: "'p env \<Rightarrow> 'p domain \<Rightarrow> int \<Rightarrow> loop_bounds \<Rightarrow> loop_bounds option" where
  "computeParamBound E d header lbs =
     (if isBottom E d then Some lbs
      else do {
        v \<leftarrow> getVar0 d (Ident header ID_LOOP);
        let (inputs, paramMapping, axis) = fold param_axis (im_pairs (d_idmap d))
          (ht_assign hash_int (int v) 0 (ht_new default_size), ht_new default_size, 1);
        dm \<leftarrow> dom_copy d;
        dm \<leftarrow> doMap E (map_with_hash inputs) dm;
        csts \<leftarrow> wp_constraints (e_ppl E) (d_poly dm);
        computeLinearBound header csts paramMapping lbs })"

subsection \<open>Export\<close>

definition bound_row :: "int \<times> loop_bound \<Rightarrow> string" where
  "bound_row = (\<lambda>(lid, b). decimal lid @
     (if lb_linear b then '';true;'' @ lb_text b else '';false;'' @ decimal (lb_static b)))"

definition exportLoopBounds :: "loop_bounds \<Rightarrow> string list" where
  "exportLoopBounds bounds = ''Loop id;isLinear;bound'' # map bound_row bounds"

subsection \<open>A bound holds\<close>

definition param_of :: "(int, int) htable \<Rightarrow> guid \<Rightarrow> ident" where
  "param_of mapping g =
     (case ht_find hash_int mapping (int g) of Some i \<Rightarrow> Ident i ID_SPECIAL | None \<Rightarrow> ident_invalid)"

text \<open>The value of the exported expression before the division, in terms of the arguments.\<close>

definition bound_value :: "(int, int) htable \<Rightarrow> wcons \<Rightarrow> (ident \<Rightarrow> rat) \<Rightarrow> rat" where
  "bound_value mapping c \<rho> =
     (\<Sum>(g, k) \<leftarrow> filter (\<lambda>(g, k). g \<noteq> 0) (coefs (wc_expr c)). of_int k * \<rho> (param_of mapping g)) +
     of_int (wc_inhomogeneous c)"

definition axes_ok ::
  "'p domain \<Rightarrow> guid \<Rightarrow> (int, int) htable \<times> (int, int) htable \<times> int \<Rightarrow> bool" where
  "axes_ok d v = (\<lambda>(inputs, pm, axis). ht_ok hash_int inputs \<and> ht_ok hash_int pm \<and> 1 \<le> axis \<and>
     (\<forall>a i. ht_find hash_int pm a = Some i \<longrightarrow> 1 \<le> a \<and> a < axis) \<and>
     (\<forall>k a. ht_find hash_int inputs k = Some a \<longrightarrow> a = 0 \<and> k = int v \<or>
       1 \<le> a \<and> a < axis \<and> (\<exists>i iv. ht_find hash_int pm a = Some i \<and>
         im_find1 (d_idmap d) (Ident i ID_SPECIAL) = Some iv \<and> k = int (iv_g iv))))"

lemma axes_init: "axes_ok d v (ht_assign hash_int (int v) 0 (ht_new default_size), ht_new default_size, 1)"
proof -
  have ok: "ht_ok hash_int (ht_new default_size :: (int, int) htable)" by (rule ht_ok_new [OF default_size_ok])
  have none: "ht_find hash_int (ht_new default_size) k = (None :: int option)" for k
    by (simp add: hashing.find_new [OF hash_int_hashing default_size_ok])
  show ?thesis
    using ok hashing.put_ok [OF hash_int_hashing ok, of "int v" 0]
    by (simp add: axes_ok_def hashing.assign_put [OF hash_int_hashing] none
        hashing.put_find [OF hash_int_hashing ht_ok_wf [OF ok]])
qed

lemma axes_step:
  assumes t: "axes_ok d v t" and p: "im_find1 (d_idmap d) i = Some iv"
  shows "axes_ok d v (param_axis (i, iv) t)"
proof -
  obtain inputs pm axis where t0: "t = (inputs, pm, axis)" by (cases t)
  show ?thesis
  proof (cases "id_type i = ID_SPECIAL \<and> id_num i < 0")
    case True
    have ok: "ht_ok hash_int inputs" "ht_ok hash_int pm" using t by (simp_all add: axes_ok_def t0)
    have i: "Ident (id_num i) ID_SPECIAL = i" using True by (cases i) simp
    note find = hashing.assign_put [OF hash_int_hashing] hashing.put_find [OF hash_int_hashing ht_ok_wf [OF ok(1)]]
      hashing.put_find [OF hash_int_hashing ht_ok_wf [OF ok(2)]]
    define inputs' where "inputs' = ht_assign hash_int (int (iv_g iv)) axis inputs"
    define pm' where "pm' = ht_assign hash_int axis (id_num i) pm"
    have fin: "ht_find hash_int inputs' = (ht_find hash_int inputs)(int (iv_g iv) \<mapsto> axis)"
      and fpm: "ht_find hash_int pm' = (ht_find hash_int pm)(axis \<mapsto> id_num i)"
      by (simp_all add: find inputs'_def pm'_def)
    have ok': "ht_ok hash_int inputs'" "ht_ok hash_int pm'"
      using hashing.put_ok [OF hash_int_hashing ok(1)] hashing.put_ok [OF hash_int_hashing ok(2)]
      by (simp_all add: inputs'_def pm'_def hashing.assign_put [OF hash_int_hashing])
    have a1: "\<forall>a j. ht_find hash_int pm' a = Some j \<longrightarrow> 1 \<le> a \<and> a < axis + 1"
      using t by (auto simp: fpm axes_ok_def t0)
    have a2: "a = 0 \<and> k = int v \<or> 1 \<le> a \<and> a < axis + 1 \<and> (\<exists>j jv. ht_find hash_int pm' a = Some j \<and>
        im_find1 (d_idmap d) (Ident j ID_SPECIAL) = Some jv \<and> k = int (iv_g jv))"
      if a: "ht_find hash_int inputs' k = Some a" for k a
    proof (cases "k = int (iv_g iv)")
      case True
      then have "a = axis" using a by (simp add: fin)
      then show ?thesis using t True p i by (auto simp: fpm axes_ok_def t0)
    next
      case False
      then have "ht_find hash_int inputs k = Some a" using a by (simp add: fin)
      then have "a = 0 \<and> k = int v \<or> 1 \<le> a \<and> a < axis \<and> (\<exists>j jv. ht_find hash_int pm a = Some j \<and>
          im_find1 (d_idmap d) (Ident j ID_SPECIAL) = Some jv \<and> k = int (iv_g jv))"
        using t by (simp add: axes_ok_def t0)
      then show ?thesis by (auto simp: fpm)
    qed
    have "param_axis (i, iv) t = (inputs', pm', axis + 1)"
      using True by (simp add: param_axis_def t0 inputs'_def pm'_def)
    then show ?thesis using ok' a1 a2 t unfolding axes_ok_def t0 by auto
  qed (use t in \<open>auto simp: param_axis_def t0\<close>)
qed

lemma axes_fold:
  assumes "axes_ok d v t" and "\<And>i iv. (i, iv) \<in> set ps \<Longrightarrow> im_find1 (d_idmap d) i = Some iv"
  shows "axes_ok d v (fold param_axis ps t)"
  using assms
proof (induction ps arbitrary: t)
  case (Cons p ps)
  obtain i iv where p: "p = (i, iv)" by (cases p)
  have "axes_ok d v (param_axis p t)" using axes_step [OF Cons.prems(1)] Cons.prems(2) p by simp
  then show ?case using Cons.IH [of "param_axis p t"] Cons.prems(2) by simp
qed simp

lemma bound_terms_total:
  assumes "\<And>g. g \<in> fst ` set ts \<Longrightarrow> g = 0 \<or> ht_find hash_int m (int g) \<noteq> None"
  shows "\<exists>s. bound_terms m b ts = Some s"
  using assms
proof (induction ts arbitrary: b)
  case (Cons t ts)
  obtain g k where t: "t = (g, k)" by (cases t)
  obtain s where s: "bound_terms m (if g = 0 then b else False) ts = Some s" using Cons by (cases "g = 0") auto
  show ?case
  proof (cases "g = 0")
    case False
    then obtain r where "bound_term m b (g, k) = Some r"
      using Cons.prems [of g] t by (auto simp: bound_term_def ht_at_def Let_def)
    then show ?thesis using s False by (simp add: t)
  qed (use s in \<open>simp add: t\<close>)
qed simp

lemma axes_map:
  assumes t: "axes_ok d v (inputs, pm, axis)" and g: "map_with_hash inputs g = Some h"
  shows "h = 0 \<and> g = v \<or> h \<noteq> 0 \<and>
    (\<exists>i iv. ht_find hash_int pm (int h) = Some i \<and> im_find1 (d_idmap d) (Ident i ID_SPECIAL) = Some iv \<and> g = iv_g iv)"
proof -
  obtain a where a: "ht_find hash_int inputs (int g) = Some a" "h = nat a" using g by (auto simp: map_with_hash_def)
  have "\<forall>k a. ht_find hash_int inputs k = Some a \<longrightarrow> a = 0 \<and> k = int v \<or>
      1 \<le> a \<and> a < axis \<and> (\<exists>i iv. ht_find hash_int pm a = Some i \<and>
        im_find1 (d_idmap d) (Ident i ID_SPECIAL) = Some iv \<and> k = int (iv_g iv))"
    using t unfolding axes_ok_def by auto
  then have "a = 0 \<and> int g = int v \<or> 1 \<le> a \<and> (\<exists>i iv. ht_find hash_int pm a = Some i \<and>
      im_find1 (d_idmap d) (Ident i ID_SPECIAL) = Some iv \<and> int g = int (iv_g iv))"
    using a(1) by blast
  then show ?thesis using a(2) by auto
qed

lemma axes_inj: "axes_ok d v (inputs, pm, axis) \<Longrightarrow> inj_on (map_with_hash inputs) {g \<in> A. map_with_hash inputs g \<noteq> None}"
proof (rule inj_onI)
  fix g g'
  assume t: "axes_ok d v (inputs, pm, axis)" and "g \<in> {g \<in> A. map_with_hash inputs g \<noteq> None}"
    and e: "map_with_hash inputs g = map_with_hash inputs g'"
  then obtain h where h: "map_with_hash inputs g = Some h" "map_with_hash inputs g' = Some h" by auto
  show "g = g'" using axes_map [OF t h(1)] axes_map [OF t h(2)] by auto
qed

context poly_env
begin

text \<open>
  The bound of a loop is computed in every state that has the counter, and what is recorded is
  the text of a constraint that every such state satisfies.
\<close>

lemma param_bound:
  assumes ok: "dom_ok E gen d" and loop: "isBottom E d \<or> hasIdent d (Ident header ID_LOOP)" and lbs: "om_ok lbs"
  obtains lbs' where "computeParamBound E d header lbs = Some lbs'" and "om_ok lbs'"
    and "lbs' = lbs \<or> (\<exists>c pm t. keeps_bound c \<and> linear_bound pm c = Some (Some t) \<and>
      map_of lbs' header = Some \<lparr>lb_linear = True, lb_static = 0, lb_text = t\<rparr> \<and>
      (\<forall>\<rho> \<in> dom_sem E d. of_int (- coef_at c 0) * \<rho> (Ident header ID_LOOP) \<le> bound_value pm c \<rho>))"
proof (cases "isBottom E d")
  case True
  then show thesis by (intro that [of lbs]) (use lbs in \<open>simp_all add: computeParamBound_def\<close>)
next
  case False
  note found = that
  obtain iv where iv: "im_find1 (d_idmap d) (Ident header ID_LOOP) = Some iv"
    using loop False by (auto simp: hasIdent_iff)
  let ?v = "iv_g iv"
  have v: "getVar0 d (Ident header ID_LOOP) = Some ?v" using iv by (simp add: getVar0_ok)
  obtain inputs pm axis where ax: "fold param_axis (im_pairs (d_idmap d))
      (ht_assign hash_int (int ?v) 0 (ht_new default_size), ht_new default_size, 1) = (inputs, pm, axis)"
    by (cases "fold param_axis (im_pairs (d_idmap d))
      (ht_assign hash_int (int ?v) 0 (ht_new default_size), ht_new default_size, 1)") auto
  have axok: "axes_ok d ?v (inputs, pm, axis)"
    unfolding ax [symmetric]
    by (rule axes_fold [OF axes_init]) (use im_pairs_iff [OF dom_okD(1) [OF ok]] in blast)
  let ?f = "map_with_hash inputs"
  obtain dm where dm: "dom_copy d = Some dm" "dom_ok E gen dm" "im_find1 (d_idmap dm) = im_find1 (d_idmap d)"
    "d_poly dm = d_poly d" using dom_copy_ok [OF ok] by metis
  obtain p where p: "doMapPoly E ?f dm = Some (dm\<lparr>d_poly := p\<rparr>)" "wp_ok (e_ppl E) p"
    "wp_dom p = {h. \<exists>g \<in> wp_dom (d_poly dm). ?f g = Some h}"
    "\<forall>v v'. v \<in> wsem (e_ppl E) (d_poly dm) \<longrightarrow>
      (\<forall>g \<in> wp_dom (d_poly dm). \<forall>h. ?f g = Some h \<longrightarrow> v' h = v g) \<longrightarrow> v' \<in> wsem (e_ppl E) p"
    by (rule doMapPoly_ok [OF dom_okD(2) [OF dm(2)] axes_inj [OF axok]])
  let ?dm = "doMapIdents ?f (dm\<lparr>d_poly := p\<rparr>)"
  have map: "doMap E ?f dm = Some ?dm" "d_poly ?dm = p" using p(1) by (simp_all add: doMap_def) (simp add: doMapIdents_def)
  obtain cs where cs: "wp_constraints (e_ppl E) p = Some cs" "\<And>k. k \<in> set cs \<Longrightarrow> wc_ok k \<and> wc_vars k \<subseteq> wp_dom p"
    "wsem (e_ppl E) p = {v. \<forall>k \<in> set cs. wc_sat v k}"
    using constraints [OF p(2)] by metis
  have run: "computeParamBound E d header lbs = computeLinearBound header cs pm lbs"
    using False v ax dm(1) map cs(1) by (simp add: computeParamBound_def)
  have known: "g = 0 \<or> ht_find hash_int pm (int g) \<noteq> None" if "g \<in> wp_dom p" for g
    using that axes_map [OF axok] unfolding p(3) by fastforce
  consider "\<forall>c. filter keeps_bound cs \<noteq> [c]" | c where "filter keeps_bound cs = [c]" by blast
  then show thesis
  proof cases
    case 1
    then have "computeLinearBound header cs pm lbs = Some lbs"
      by (auto simp: computeLinearBound_def split: list.split)
    then show thesis using run lbs by (intro found [of lbs]) simp_all
  next
    case (2 c)
    then have "c \<in> set (filter keeps_bound cs)" by simp
    then have c: "c \<in> set cs" "keeps_bound c" by simp_all
    have vars: "fst ` set (coefs (wc_expr c)) \<subseteq> wp_dom p"
      using cs(2) [OF c(1)] by (simp add: wc_vars_def le_vars_def)
    have "g = 0 \<or> ht_find hash_int pm (int g) \<noteq> None" if "g \<in> fst ` set (coefs (wc_expr c))" for g
      by (rule known) (use vars that in blast)
    from bound_terms_total [OF this]
    obtain ts where "bound_terms pm True (coefs (wc_expr c)) = Some ts" by blast
    then have "linear_bound pm c \<noteq> None" by (simp add: linear_bound_def Let_def)
    then obtain b where b: "linear_bound pm c = Some b" by blast
    show thesis
    proof (cases b)
      case None
      then show thesis using run b 2 lbs by (intro found [of lbs]) (simp_all add: computeLinearBound_def)
    next
      case (Some t)
      let ?b = "\<lparr>lb_linear = True, lb_static = 0, lb_text = t\<rparr>"
      let ?lbs = "om_emplace header ?b (om_erase header lbs)"
      have bound: "of_int (- coef_at c 0) * \<rho> (Ident header ID_LOOP) \<le> bound_value pm c \<rho>" if r: "\<rho> \<in> dom_sem E d" for \<rho>
      proof -
        obtain val where val: "models E d val \<rho>" using r by (auto simp: dom_sem_def)
        define val' where "val' h = (if h = 0 then \<rho> (Ident header ID_LOOP) else \<rho> (param_of pm h))" for h
        have "val' h = val g" if "?f g = Some h" for g h
          using axes_map [OF axok that] models_value [OF val iv] models_value [OF val]
          by (auto simp: val'_def param_of_def)
        moreover have "val \<in> wsem (e_ppl E) (d_poly dm)" using val dm(4) by (simp add: models_def)
        ultimately have "val' \<in> wsem (e_ppl E) p" using p(4) by blast
        then have "wc_sat val' c" using cs(3) c(1) by blast
        then have ge: "0 \<le> le_eval val' (wc_expr c)" by (auto simp: wc_sat_def split: ctype.splits)
        have split: "(\<Sum>(g, k) \<leftarrow> ks. of_int k * val' g) =
            of_int (case map_of ks 0 of Some k \<Rightarrow> k | None \<Rightarrow> 0) * \<rho> (Ident header ID_LOOP) +
            (\<Sum>(g, k) \<leftarrow> filter (\<lambda>(g, k). g \<noteq> 0) ks. of_int k * \<rho> (param_of pm g))"
          if "distinct (map fst ks)" for ks :: "(guid \<times> int) list"
          using that
        proof (induction ks)
          case (Cons x ks)
          obtain g k where x: "x = (g, k)" by (cases x)
          have "map_of ks 0 = None" if "g = 0" using Cons.prems that by (simp add: x map_of_eq_None_iff)
          then show ?case using Cons by (auto simp: x val'_def algebra_simps)
        qed simp
        have "distinct (map fst (coefs (wc_expr c)))"
          using cs(2) [OF c(1)] by (simp add: wc_ok_def le_ok_def om_ok_distinct)
        from split [OF this] ge show ?thesis
          by (simp add: le_eval_def bound_value_def coef_at_coef le_coef_def wc_inhomogeneous_def le_inhomogeneous_def)
      qed
      have "map_of ?lbs header = Some ?b" using lbs by (simp add: map_of_om_emplace om.del_ok map_of_om_erase)
      moreover have "computeParamBound E d header lbs = Some ?lbs"
        using run b 2 Some by (simp add: computeLinearBound_def)
      moreover have "om_ok ?lbs" using lbs by (simp add: om_emplace_ok om.del_ok)
      ultimately show thesis using bound b c(2) Some by (intro found [of ?lbs]) auto
    qed
  qed
qed

end

end
