(* ===== verification/Domain_Unify.thy ===== *)
theory Domain_Unify
  imports Linear_Forms Domain_Memory
begin

text \<open>
  Unification (\<open>_doUnify\<close>, \<open>_doMatchGlobals\<close>, \<open>_avcreate_helper\<close>): before two
  states are joined, the variables of the left one are renamed to those of the right one that
  stand for the same register or the same memory location. What has no counterpart is dropped
  from the left state. With \<open>avcreate\<close>, a location that only the left state has becomes an
  array of zero elements in the right one.
\<close>

type_synonym forms = "(guid, int list) htable"
type_synonym inv_forms = "(int list, guid) htable"

subsection \<open>Locations at constant addresses\<close>

text \<open>
  A location of \<open>l1\<close> at a constant address that \<open>r1\<close> does not know gets there the initial
  value of the memory.
\<close>

definition match_global ::
  "'p env \<Rightarrow> inv_forms \<Rightarrow> guid \<times> int list \<Rightarrow> 'p domain \<times> 'p domain \<Rightarrow> ('p domain \<times> 'p domain) option" where
  "match_global E invRight = (\<lambda>(v, vect) (l1, r1).
     let n = length vect in
     if list_all (\<lambda>c. c = 0) (take (n - 2) vect) \<and> \<not> ht_hasKey hash_levect invRight vect then do {
       let staticAddr = (word_of_int (get_ui ((- (vect ! (n - 1))) sdiv (vect ! (n - 2)))) :: 32 word);
       staticVal \<leftarrow> e_initial E staticAddr;
       leftIdAddr \<leftarrow> getIdent l1 (idval_t v STEP_BOT);
       let k = id_num leftIdAddr;
       if \<not> hasIdent l1 (Ident k ID_MEM_VAL) then Some (l1, r1)
       else do {
         val \<leftarrow> getVar0 l1 (Ident k ID_MEM_VAL);
         count \<leftarrow> getVar0 l1 (Ident k ID_MEM_COUNT);
         let (one, l1) = poly_implies E (w_eq (V count) (K 1)) l1;
         if \<not> one then Some (l1, r1)
         else do {
           let r1 = doNewConstraint E (w_eq (V v) (K (sint staticAddr))) r1;
           let r1 = doNewConstraint E (w_eq (V val) (K (sint staticVal))) r1;
           let (rightIdAddr, rightIdVal, rightIdCount, r1) = varCreateClp r1;
           let r1 = doNewConstraint E (w_eq (V count) (K 1)) r1;
           let m = im_add rightIdAddr (idval_t v STEP_BOT) (d_idmap r1);
           let m = im_add rightIdVal (idval_t val NO_STEP) m;
           let m = im_add rightIdCount (idval_t count NO_STEP) m;
           Some (l1, r1\<lparr>d_idmap := m\<rparr>) } } }
     else Some (l1, r1))"

definition doMatchGlobals ::
  "'p env \<Rightarrow> forms \<Rightarrow> inv_forms \<Rightarrow> 'p domain \<Rightarrow> 'p domain \<Rightarrow> ('p domain \<times> 'p domain) option" where
  "doMatchGlobals E leftVMap invRight l1 r1 = foldM (match_global E invRight) (ht_pairs leftVMap) (l1, r1)"

subsection \<open>Creating avatars\<close>

text \<open>Reporting on \<open>entry\<close> what \<open>back\<close> says of \<open>v\<close> in terms of the entry variables.\<close>

definition report_on ::
  "'p env \<Rightarrow> oset \<Rightarrow> guid \<Rightarrow> bool \<Rightarrow> 'p domain \<Rightarrow> 'p domain \<Rightarrow> 'p domain option" where
  "report_on E entryVars v only_eq back entry = do {
     temp \<leftarrow> wp_filter_lambda (e_ppl E) (\<lambda>g. g = v \<or> g \<in> set entryVars) (d_poly back);
     p \<leftarrow> report_constraints E temp v only_eq (d_poly entry);
     Some (entry\<lparr>d_poly := p\<rparr>) }"

text \<open>The location of \<open>back\<close> gets its two avatars.\<close>

definition avcreate_back ::
  "'p env \<Rightarrow> int \<Rightarrow> guid \<Rightarrow> guid \<Rightarrow> 'p domain \<Rightarrow> guid \<Rightarrow> ('p domain \<times> guid) option" where
  "avcreate_back E k vb_minus vb_plus back gen = do {
     (var_vminus, back, gen) \<leftarrow> varNew (Ident k ID_MEM_VAL_MINUS) NO_STEP True back gen;
     (var_vplus, back, gen) \<leftarrow> varNew (Ident k ID_MEM_VAL_PLUS) NO_STEP True back gen;
     let back = doNewConstraint E (w_eq (V var_vminus) (V vb_minus)) back;
     let back = doNewConstraint E (w_eq (V var_vplus) (V vb_plus)) back;
     back \<leftarrow> varKillIdent (Ident k ID_MEM_VAL) back;
     Some (back\<lparr>d_victims := d_victims back @ [vb_plus, vb_minus]\<rparr>, gen) }"

text \<open>
  The empty array of \<open>entry\<close>. The declaration of three local variables takes three numbers
  that stay unused. The result ends with the variables of base, count, upper and lower value.
\<close>

definition avcreate_entry ::
  "'p env \<Rightarrow> int \<Rightarrow> guid \<Rightarrow> guid \<Rightarrow> guid \<Rightarrow> guid \<Rightarrow> 'p domain \<Rightarrow> guid \<Rightarrow>
   ('p domain \<times> guid \<times> guid \<times> guid \<times> guid) option" where
  "avcreate_entry E step base count vb_minus vb_plus entry gen = do {
     let (id_base2, id_vplus2, id_vminus2, id_count2, entry) = varCreateAvClp entry;
     let gen = gen + 3;
     (var_base2, entry, gen) \<leftarrow> varNew id_base2 step False entry gen;
     (var_vplus, entry, gen) \<leftarrow> varNew id_vplus2 NO_STEP False entry gen;
     (var_vminus, entry, gen) \<leftarrow> varNew id_vminus2 NO_STEP False entry gen;
     let entry = entry\<lparr>d_idmap := im_add id_count2 (idval_t count NO_STEP) (d_idmap entry)\<rparr>;
     let entry = doNewConstraint E (w_eq (V count) (K 0)) entry;
     let entry = doNewConstraint E (w_eq (V var_base2) (V base)) entry;
     let entry = doNewConstraint E (w_eq (V var_vplus) (V vb_plus)) entry;
     let entry = doNewConstraint E (w_eq (V var_vminus) (V vb_minus)) entry;
     Some (entry\<lparr>d_victims := d_victims entry @ [base, vb_plus, vb_minus]\<rparr>,
       gen, var_base2, var_vplus, var_vminus) }"

text \<open>The new variables of \<open>entry\<close> (base, count, upper, lower), when the location qualifies.\<close>

definition avcreate_helper ::
  "'p env \<Rightarrow> 'p domain \<Rightarrow> 'p domain \<Rightarrow> oset \<Rightarrow> ident \<Rightarrow> guid \<Rightarrow> int \<Rightarrow> guid \<Rightarrow>
   ((guid \<times> guid \<times> guid \<times> guid) option \<times> 'p domain \<times> 'p domain \<times> guid) option" where
  "avcreate_helper E entry back entryVars id_base base step gen = do {
     let k = id_num id_base;
     count \<leftarrow> getVar0 back (Ident k ID_MEM_COUNT);
     (found, entry, back, gen) \<leftarrow>
       (if isVarMapped entry base step then Some (None, entry, back, gen)
        else do {
          assert_that (\<not> isVarMapped entry count NO_STEP);
          let (positive, back) = poly_implies E (w_gt (V count) (K 0)) back;
          if \<not> positive then Some (None, entry, back, gen)
          else do {
            vb_minus \<leftarrow> getVar0 back (Ident k ID_MEM_VAL);
            (vb_plus, back, gen) \<leftarrow> doAvatarSplit E vb_minus back gen;
            entry \<leftarrow> report_on E entryVars base True back entry;
            entry \<leftarrow> report_on E entryVars vb_plus False back entry;
            entry \<leftarrow> report_on E entryVars vb_minus False back entry;
            (back, gen) \<leftarrow> avcreate_back E k vb_minus vb_plus back gen;
            (entry, gen, newBase, newPlus, newMinus) \<leftarrow>
              avcreate_entry E step base count vb_minus vb_plus entry gen;
            Some (Some (newBase, count, newPlus, newMinus), entry, back, gen) } });
     entry \<leftarrow> doFinalizeUpdate E entry;
     back \<leftarrow> doFinalizeUpdate E back;
     Some (found, entry, back, gen) }"

record 'p unify =
  u_left :: "'p domain"
  u_right :: "'p domain"
  u_rename :: "(guid, guid) htable"
  u_gen :: guid

definition u_add :: "'p env \<Rightarrow> guid \<Rightarrow> guid \<Rightarrow> 'p unify \<Rightarrow> 'p unify" where
  "u_add E g h u = u\<lparr>u_rename := ht_add (hash_guid E) g h (u_rename u)\<rparr>"

definition avcreate_one ::
  "'p env \<Rightarrow> inv_forms \<Rightarrow> oset \<Rightarrow> guid \<times> int list \<Rightarrow> 'p unify \<Rightarrow> 'p unify option" where
  "avcreate_one E invRight rightVars = (\<lambda>(xj, vj) u.
     if ht_hasKey hash_levect invRight vj \<or> isVarMapped (u_right u) xj STEP_BOT then Some u
     else do {
       (idBase, step) \<leftarrow> getIdent_step (u_left u) xj;
       if \<not> hasIdent (u_left u) (Ident (id_num idBase) ID_MEM_VAL) then Some u
       else do {
         (created, r1, l1, gen) \<leftarrow> avcreate_helper E (u_right u) (u_left u) rightVars idBase xj step (u_gen u);
         let u = u\<lparr>u_left := l1, u_right := r1, u_gen := gen\<rparr>;
         case created of
           None \<Rightarrow> Some u
         | Some (newBase, newCount, newPlus, newMinus) \<Rightarrow> do {
             count \<leftarrow> getVar0 l1 (Ident (id_num idBase) ID_MEM_COUNT);
             plus \<leftarrow> getVar0 l1 (Ident (id_num idBase) ID_MEM_VAL_PLUS);
             minus \<leftarrow> getVar0 l1 (Ident (id_num idBase) ID_MEM_VAL_MINUS);
             Some (u_add E minus newMinus (u_add E plus newPlus
               (u_add E count newCount (u_add E xj newBase u)))) } } })"

subsection \<open>Matching locations\<close>

text \<open>The value of a location is split in two when its counterpart has avatars.\<close>

definition split_value :: "'p env \<Rightarrow> int \<Rightarrow> 'p domain \<Rightarrow> guid \<Rightarrow> ('p domain \<times> guid) option" where
  "split_value E k d gen = do {
     vminus \<leftarrow> getVar0 d (Ident k ID_MEM_VAL);
     (vplus, d, gen) \<leftarrow> doAvatarSplit E vminus d gen;
     m \<leftarrow> im_del1 (Ident k ID_MEM_VAL) (d_idmap d);
     let m = im_add (Ident k ID_MEM_VAL_PLUS) (idval_t vplus NO_STEP) m;
     let m = im_add (Ident k ID_MEM_VAL_MINUS) (idval_t vminus NO_STEP) m;
     Some (doNewConstraint E (w_eq (V vplus) (V vminus)) (d\<lparr>d_idmap := m\<rparr>), gen) }"

definition match_one :: "'p env \<Rightarrow> inv_forms \<Rightarrow> guid \<times> int list \<Rightarrow> 'p unify \<Rightarrow> 'p unify option" where
  "match_one E invRight = (\<lambda>(xj, vj) u.
     case ht_find hash_levect invRight vj of None \<Rightarrow> Some u | Some xr \<Rightarrow> do {
       (leftIdBase, left_step) \<leftarrow> getIdent_step (u_left u) xj;
       (rightIdBase, right_step) \<leftarrow> getIdent_step (u_right u) xr;
       if \<not> (left_step = right_step \<or> left_step = STEP_BOT \<or> right_step = STEP_BOT) \<or>
          \<not> (right_step = STEP_BOT \<or> left_step \<noteq> STEP_BOT) then Some u
       else do {
         let l = id_num leftIdBase;
         let r = id_num rightIdBase;
         assert_that (hasIdent (u_left u) (Ident l ID_MEM_COUNT));
         assert_that (hasIdent (u_right u) (Ident r ID_MEM_COUNT));
         let leftHasAvatar = (\<not> hasIdent (u_left u) (Ident l ID_MEM_VAL));
         let rightHasAvatar = (\<not> hasIdent (u_right u) (Ident r ID_MEM_VAL));
         u \<leftarrow> (if leftHasAvatar \<and> \<not> rightHasAvatar then do {
             (r1, gen) \<leftarrow> split_value E r (u_right u) (u_gen u);
             Some (u\<lparr>u_right := r1, u_gen := gen\<rparr>) } else Some u);
         let rightHasAvatar = (leftHasAvatar \<or> rightHasAvatar);
         u \<leftarrow> (if rightHasAvatar \<and> \<not> leftHasAvatar then do {
             (l1, gen) \<leftarrow> split_value E l (u_left u) (u_gen u);
             Some (u\<lparr>u_left := l1, u_gen := gen\<rparr>) } else Some u);
         let leftHasAvatar = rightHasAvatar;
         let u = u_add E xj xr u;
         lcount \<leftarrow> getVar0 (u_left u) (Ident l ID_MEM_COUNT);
         rcount \<leftarrow> getVar0 (u_right u) (Ident r ID_MEM_COUNT);
         let u = u_add E lcount rcount u;
         if leftHasAvatar \<and> rightHasAvatar then do {
           lp \<leftarrow> getVar0 (u_left u) (Ident l ID_MEM_VAL_PLUS);
           rp \<leftarrow> getVar0 (u_right u) (Ident r ID_MEM_VAL_PLUS);
           let u = u_add E lp rp u;
           lm \<leftarrow> getVar0 (u_left u) (Ident l ID_MEM_VAL_MINUS);
           rm \<leftarrow> getVar0 (u_right u) (Ident r ID_MEM_VAL_MINUS);
           Some (u_add E lm rm u) }
         else do {
           lv \<leftarrow> getVar0 (u_left u) (Ident l ID_MEM_VAL);
           rv \<leftarrow> getVar0 (u_right u) (Ident r ID_MEM_VAL);
           Some (u_add E lv rv u) } } })"

subsection \<open>Locations with the same variable\<close>

definition mem_types :: "ident_type list" where
  "mem_types = [ID_MEM_ADDR, ID_MEM_COUNT, ID_MEM_VAL_PLUS, ID_MEM_VAL_MINUS, ID_MEM_VAL]"

record remap =
  rm_unmap_left :: "ident list"
  rm_unmap_right :: "ident list"
  rm_remap_left :: "(ident \<times> idval) list"
  rm_remap_right :: "(ident \<times> idval) list"

text \<open>
  Both states have the variable. The second case, an upper value on the left and a plain value on
  the right, asks \<open>r1\<close> for a lower value under the number of its plain value, and splits
  \<open>l1\<close>.
\<close>

definition same_one ::
  "'p env \<Rightarrow> (ident \<times> idval) \<times> (ident \<times> idval) \<Rightarrow> 'p unify \<times> remap \<Rightarrow> ('p unify \<times> remap) option" where
  "same_one E = (\<lambda>((i, iv), (i2, iv2)) (u, rm).
     let x1 = iv_g iv; x2 = iv_g iv2 in
     if id_type i \<in> set mem_types \<and> x1 = x2 then
       if id_type i = id_type i2 then Some (u_add E x1 x2 u, rm)
       else if id_type i = ID_MEM_VAL \<and> id_type i2 = ID_MEM_VAL_PLUS then do {
         rvminus \<leftarrow> getVar0 (u_right u) (Ident (id_num i2) ID_MEM_VAL_MINUS);
         (lvplus, l1, gen) \<leftarrow> doAvatarSplit E x1 (u_left u) (u_gen u);
         let l1 = doNewConstraint E (w_eq (V lvplus) (V x1)) l1;
         let rm = rm\<lparr>rm_unmap_left := rm_unmap_left rm @ [i],
           rm_remap_left := rm_remap_left rm @
             [(Ident (id_num i) ID_MEM_VAL_PLUS, idval_t lvplus NO_STEP),
              (Ident (id_num i) ID_MEM_VAL_MINUS, idval_t x1 NO_STEP)]\<rparr>;
         Some (u_add E lvplus x2 (u_add E x1 rvminus (u\<lparr>u_left := l1, u_gen := gen\<rparr>)), rm) }
       else if id_type i = ID_MEM_VAL_PLUS \<and> id_type i2 = ID_MEM_VAL then do {
         lvminus \<leftarrow> getVar0 (u_right u) (Ident (id_num i2) ID_MEM_VAL_MINUS);
         (rvplus, l1, gen) \<leftarrow> doAvatarSplit E x2 (u_left u) (u_gen u);
         let l1 = doNewConstraint E (w_eq (V rvplus) (V x2)) l1;
         let rm = rm\<lparr>rm_unmap_right := rm_unmap_right rm @ [i2],
           rm_remap_right := rm_remap_right rm @
             [(Ident (id_num i2) ID_MEM_VAL_PLUS, idval_t rvplus NO_STEP),
              (Ident (id_num i2) ID_MEM_VAL_MINUS, idval_t x2 NO_STEP)]\<rparr>;
         Some (u_add E x1 rvplus (u_add E lvminus x2 (u\<lparr>u_left := l1, u_gen := gen\<rparr>)), rm) }
       else None
     else Some (u, rm))"

text \<open>Both lists of new entries go to the mapping of \<open>l1\<close>.\<close>

definition same_variables :: "'p env \<Rightarrow> 'p unify \<Rightarrow> 'p unify option" where
  "same_variables E u = do {
     (u, rm) \<leftarrow> foldM (same_one E)
       (List.product (im_pairs (d_idmap (u_left u))) (im_pairs (d_idmap (u_right u)))) (u, \<lparr>rm_unmap_left = [],
         rm_unmap_right = [], rm_remap_left = [], rm_remap_right = []\<rparr>);
     ml \<leftarrow> foldM im_del1 (rm_unmap_left rm) (d_idmap (u_left u));
     mr \<leftarrow> foldM im_del1 (rm_unmap_right rm) (d_idmap (u_right u));
     let ml = fold (\<lambda>(i, iv). im_add i iv) (rm_remap_left rm @ rm_remap_right rm) ml;
     Some (u\<lparr>u_left := (u_left u)\<lparr>d_idmap := ml\<rparr>, u_right := (u_right u)\<lparr>d_idmap := mr\<rparr>\<rparr>) }"

subsection \<open>Unification\<close>

definition independent_vars :: "'p env \<Rightarrow> 'p wpoly \<Rightarrow> oset \<Rightarrow> oset option" where
  "independent_vars E common commonVars = foldM (\<lambda>v indep. do {
     temp \<leftarrow> wp_filter_lambda (e_ppl E) (\<lambda>g. g = v \<or> g \<in> set indep) common;
     cs \<leftarrow> wp_constraints (e_ppl E) temp;
     Some (if List.find is_equality cs = None then os_insert v indep else indep) }) commonVars []"

definition inverse_forms :: "forms \<Rightarrow> inv_forms" where
  "inverse_forms t = fold (\<lambda>(v, vect). ht_put hash_levect vect v) (ht_pairs t) (ht_new default_size)"

definition unify_memory :: "'p env \<Rightarrow> bool \<Rightarrow> 'p unify \<Rightarrow> 'p unify option" where
  "unify_memory E avcreate u = do {
     leftVars \<leftarrow> collectPolyVars E (d_poly (u_left u));
     rightVars \<leftarrow> collectPolyVars E (d_poly (u_right u));
     commonPoly \<leftarrow> wp_hull (e_ppl E) (d_poly (u_left u)) (d_poly (u_right u));
     indepVars \<leftarrow> independent_vars E commonPoly (os_intersection leftVars rightVars);
     leftCSMap \<leftarrow> identifyPolyVars E (u_left u) (os_difference leftVars rightVars) indepVars
       (ht_new default_size) ID_MEM_ADDR;
     rightCSMap \<leftarrow> identifyPolyVars E (u_right u) (os_difference rightVars leftVars) indepVars
       (ht_new default_size) ID_MEM_ADDR;
     let invRight = inverse_forms rightCSMap;
     let invLeft = inverse_forms leftCSMap;
     (l1, r1) \<leftarrow> doMatchGlobals E leftCSMap invRight (u_left u) (u_right u);
     (r1, l1) \<leftarrow> doMatchGlobals E rightCSMap invLeft r1 l1;
     let u = u\<lparr>u_left := l1, u_right := r1\<rparr>;
     u \<leftarrow> (if avcreate then foldM (avcreate_one E invRight rightVars) (ht_pairs leftCSMap) u else Some u);
     u \<leftarrow> foldM (match_one E invRight) (ht_pairs leftCSMap) u;
     same_variables E u }"

definition rename_register :: "'p env \<Rightarrow> ident \<times> idval \<Rightarrow> 'p unify \<Rightarrow> 'p unify option" where
  "rename_register E = (\<lambda>(i, iv) u.
     if id_type i \<in> set mem_types then Some u
     else case im_find1 (d_idmap (u_right u)) i of
       None \<Rightarrow> Some u
     | Some iv2 \<Rightarrow> do {
         assert_that (iv_s iv = NO_STEP);
         assert_that (iv_s iv2 = NO_STEP);
         Some (u_add E (iv_g iv) (iv_g iv2) u) })"

definition doUnify ::
  "'p env \<Rightarrow> bool \<Rightarrow> bool \<Rightarrow> 'p domain \<Rightarrow> 'p domain \<Rightarrow> guid \<Rightarrow> ('p domain \<times> 'p domain \<times> guid) option" where
  "doUnify E noPtr avcreate l1 r1 gen = do {
     l1 \<leftarrow> (if avcreate then do {
         l1 \<leftarrow> doRemoveUselessAvatars E l1;
         l1 \<leftarrow> doRemoveAllAvatars l1;
         doFinalizeUpdate E l1 } else Some l1);
     let u = \<lparr>u_left = l1, u_right = r1, u_rename = ht_new default_size, u_gen = gen\<rparr>;
     u \<leftarrow> (if noPtr then Some u else unify_memory E avcreate u);
     u \<leftarrow> foldM (rename_register E) (im_pairs (d_idmap (u_left u))) u;
     l1 \<leftarrow> doMap E (map_guid E (u_rename u)) (u_left u);
     Some (l1, u_right u, u_gen u) }"

end
