(* ===== verification/Domain_Merge.thy ===== *)
theory Domain_Merge
  imports Domain_Unify
begin

text \<open>
  Join and widening (\<open>onMerge\<close>), equality of states (\<open>equals\<close>) and the initial state of
  the analysis (\<open>PPLManager\<close>).
\<close>

definition merge_bounds :: "'p env \<Rightarrow> 'p domain \<Rightarrow> 'p domain \<Rightarrow> 'p domain" where
  "merge_bounds E r1 l1 = fold (\<lambda>i l1. setBound E i (getBound r1 i) l1) [0..<length (d_bounds r1)] l1"

definition onMerge ::
  "'p env \<Rightarrow> 'p domain \<Rightarrow> 'p domain \<Rightarrow> bool \<Rightarrow> bool \<Rightarrow> guid \<Rightarrow> ('p domain \<times> guid) option" where
  "onMerge E d r widen avcreate gen =
     (if isBottom E r then do { l1 \<leftarrow> dom_copy d; Some (l1, gen) }
      else if isBottom E d then do { r1 \<leftarrow> dom_copy r; Some (r1, gen) }
      else do {
        l1 \<leftarrow> dom_copy d;
        r1 \<leftarrow> dom_copy r;
        (l1, r1, gen) \<leftarrow> doUnify E False avcreate l1 r1 gen;
        let l1 = merge_bounds E r1 l1;
        p \<leftarrow> wp_hull (e_ppl E) (d_poly l1) (d_poly r1);
        p \<leftarrow> (if widen then wp_h79 (e_ppl E) p (d_poly r1) else Some p);
        l1 \<leftarrow> doFinalizeUpdate E (l1\<lparr>d_poly := p\<rparr>);
        Some (merge_bounds E r1 l1, gen) })"

text \<open>
  \<open>equals\<close>: quick checks, a unification without memory, a full one. The summaries of two
  states are always equal when both exist. Both states belong to one workspace.
\<close>

definition not_memory :: "ident_type \<Rightarrow> bool" where
  "not_memory t \<longleftrightarrow> t \<notin> {ID_MEM_VAL, ID_MEM_VAL_PLUS, ID_MEM_VAL_MINUS, ID_MEM_COUNT, ID_MEM_ADDR, ID_MEM_VAL_INPUT}"

definition equals_full :: "'p env \<Rightarrow> 'p domain \<Rightarrow> 'p domain \<Rightarrow> nat \<Rightarrow> nat \<Rightarrow> guid \<Rightarrow> (bool \<times> guid) option" where
  "equals_full E d b cd cb gen = do {
     r \<leftarrow> dom_copy b;
     l \<leftarrow> dom_copy d;
     (l, r, gen) \<leftarrow> doUnify E False False l r gen;
     cl \<leftarrow> im_count (d_idmap l);
     if cl \<noteq> cd then Some (False, gen)
     else do {
       cr \<leftarrow> im_count (d_idmap r);
       if cr \<noteq> cb then Some (False, gen)
       else do {
         eq \<leftarrow> wp_equals (e_ppl E) (d_poly l) (d_poly r);
         Some (eq, gen) } } }"

definition dom_equals :: "'p env \<Rightarrow> 'p domain \<Rightarrow> 'p domain \<Rightarrow> guid \<Rightarrow> (bool \<times> guid) option" where
  "dom_equals E d b gen = do {
     assert_that (d_victims d = []);
     if isBottom E d \<noteq> isBottom E b then Some (False, gen)
     else do {
       assert_that ((d_summary d = None) = (d_summary b = None));
       if wp_variable_count (e_ppl E) (d_poly d) \<noteq> wp_variable_count (e_ppl E) (d_poly b) \<or>
          d_compare_reg d \<noteq> d_compare_reg b \<or> d_compare_op d \<noteq> d_compare_op b then Some (False, gen)
       else do {
         cd \<leftarrow> im_count (d_idmap d);
         cb \<leftarrow> im_count (d_idmap b);
         if cd \<noteq> cb \<or> d_victims d \<noteq> d_victims b \<or> d_bounds d \<noteq> d_bounds b then Some (False, gen)
         else do {
           r \<leftarrow> dom_copy b;
           l \<leftarrow> dom_copy d;
           let expectedVarCount = length (filter (\<lambda>(i, iv). not_memory (id_type i)) (im_pairs (d_idmap d)));
           (l, r, gen) \<leftarrow> doUnify E True False l r gen;
           cl \<leftarrow> im_count (d_idmap l);
           if cl \<noteq> expectedVarCount then Some (False, gen)
           else equals_full E d b cd cb gen } } } }"

definition enableSummary :: "'p domain \<Rightarrow> 'p domain" where
  "enableSummary d = d\<lparr>d_summary := Some []\<rparr>"

text \<open>\<open>doCLPJoin\<close>: a location that exists in one state only may have zero or one element.\<close>

definition doCLPJoin ::
  "'p env \<Rightarrow> guid \<Rightarrow> 'p domain \<Rightarrow> 'p domain \<Rightarrow> guid \<Rightarrow> ('p domain \<times> guid) option" where
  "doCLPJoin E x_b dm this gen = do {
     id_b \<leftarrow> getIdent dm (idval_t x_b 0);
     (x_n, this, gen) \<leftarrow> varNew (Ident (id_num id_b) ID_MEM_COUNT) NO_STEP False this gen;
     let this = doNewConstraint E (w_ge (V x_n) (K 0)) this;
     Some (doNewConstraint E (w_le (V x_n) (K 1)) this, gen) }"

subsection \<open>The manager\<close>

definition special :: "int \<Rightarrow> ident" where
  "special k = Ident k ID_SPECIAL"

text \<open>The initial state: the stack and link registers keep their values at the start.\<close>

definition manager_init :: "'p env \<Rightarrow> guid \<Rightarrow> ('p domain \<times> guid) option" where
  "manager_init E gen = do {
     let s = dom_top E None;
     (sp, s, gen) \<leftarrow> varNew (Ident 13 ID_REG) NO_STEP False s gen;
     (fp, s, gen) \<leftarrow> varNew (Ident 11 ID_REG) NO_STEP False s gen;
     (lr, s, gen) \<leftarrow> varNew (Ident 14 ID_REG) NO_STEP False s gen;
     (ssp, s, gen) \<leftarrow> varNew (special ID_START_SP) NO_STEP False s gen;
     (sfp, s, gen) \<leftarrow> varNew (special ID_START_FP) NO_STEP False s gen;
     (slr, s, gen) \<leftarrow> varNew (special ID_START_LR) NO_STEP False s gen;
     Some (fold (doNewConstraint E)
       [w_eq (V ssp) (V sp), w_eq (V sfp) (V fp), w_eq (V slr) (V lr),
        w_ge (V ssp) (K STACK_TOP), w_ge (V sfp) (K STACK_TOP),
        w_le (V ssp) (K (STACK_TOP + 0x1000000)), w_le (V sfp) (K (STACK_TOP + 0x1000000))] s, gen) }"

record 'p manager =
  m_init :: "'p domain"
  m_bot :: "'p domain"
  m_top :: "'p domain"

definition manager_new :: "'p env \<Rightarrow> guid \<Rightarrow> ('p manager \<times> guid) option" where
  "manager_new E gen = do {
     (s, gen) \<leftarrow> manager_init E gen;
     Some (\<lparr>m_init = s, m_bot = dom_bottom E, m_top = dom_top E None\<rparr>, gen) }"

definition manager_from :: "'p env \<Rightarrow> 'p domain \<Rightarrow> 'p manager option" where
  "manager_from E s = do {
     s \<leftarrow> dom_copy s;
     Some \<lparr>m_init = s, m_bot = dom_bottom E, m_top = dom_top E None\<rparr> }"

definition m_join :: "'p env \<Rightarrow> 'p domain \<Rightarrow> 'p domain \<Rightarrow> bool \<Rightarrow> guid \<Rightarrow> ('p domain \<times> guid) option" where
  "m_join E v1 v2 avcreate gen = onMerge E v1 v2 False avcreate gen"

definition m_widening :: "'p env \<Rightarrow> 'p domain \<Rightarrow> 'p domain \<Rightarrow> bool \<Rightarrow> guid \<Rightarrow> ('p domain \<times> guid) option" where
  "m_widening E v1 v2 avcreate gen = onMerge E v1 v2 True avcreate gen"

definition m_equals :: "'p env \<Rightarrow> 'p domain \<Rightarrow> 'p domain \<Rightarrow> guid \<Rightarrow> (bool \<times> guid) option" where
  "m_equals E v1 v2 gen = dom_equals E v1 v2 gen"

definition m_enableSummary :: "'p manager \<Rightarrow> 'p manager" where
  "m_enableSummary m = m\<lparr>m_init := enableSummary (m_init m)\<rparr>"

end
