(* ===== verification/Poly_Analysis.thy ===== *)
theory Poly_Analysis
  imports Topo_Order Branch Loop_Bounds Domain_Merge Domain_Memory Sem_Inst
    "HOL-Library.List_Lexorder" "HOL-Library.Char_ord"
begin

text \<open>
  The analysis of a program (\<open>poly_PolyAnalysis.cpp\<close>): loop headers, blocks and their edges,
  graphs with the calls between them, and the export of the results. A graph comes with what
  OTAWA computes on it: the blocks, the semantic instructions of every machine instruction, the
  registers that are live at the end of a block, loops, dominance, calls.
\<close>

subsection \<open>Programs\<close>

datatype block_kind =
    BBasic "sem_inst list list" "bool list"
  | BSynth "nat option"
  | BVirtual

record cfg =
  c_name :: string
  c_offset :: int
  c_graph :: graph
  c_blocks :: "block_kind list"
  c_control :: "nat \<Rightarrow> int"
  c_loops :: loops
  c_taken :: "nat \<Rightarrow> bool"

definition block_id :: "cfg \<Rightarrow> nat \<Rightarrow> int" where
  "block_id c v = int v + c_offset c"

subsection \<open>The state of the analysis\<close>

record 'p header_state =
  hs_avcreate :: bool
  hs_state :: "'p domain"
  hs_entry :: "'p domain"

type_synonym 'p headers = "(int, 'p header_state) htable"

text \<open>
  The identifiers of \<open>poly_BranchConditionner.cpp\<close> and \<open>poly_LoopAnalyzer.cpp\<close> that the
  analysis attaches to the root graph (\<open>an_ctx\<close>, \<open>an_instances\<close>, \<open>an_bounds\<close>), to blocks
  (\<open>an_previous\<close>, \<open>an_reset\<close>, \<open>an_max_iter\<close>) and to graphs (\<open>an_root\<close>), the table of
  bounds, the counters, and the generator of variables.
\<close>

record 'p analysis =
  an_gen :: guid
  an_ctx :: branch_ctx
  an_instances :: "(int, (string, int) omap) omap"
  an_previous :: "int \<Rightarrow> int"
  an_reset :: "int \<Rightarrow> bool"
  an_root :: "nat \<Rightarrow> nat option"
  an_max_iter :: "int \<Rightarrow> int"
  an_bounds :: loop_bounds
  an_lb :: "(int, 'p domain) htable"
  an_vars :: nat
  an_cons :: nat

definition to_int32 :: "int \<Rightarrow> int" where
  "to_int32 x = sint (word_of_int x :: 32 word)"

lemma to_int32_exact: "- (2 ^ 31) \<le> x \<Longrightarrow> x < 2 ^ 31 \<Longrightarrow> to_int32 x = x"
  unfolding to_int32_def sint_sbintrunc' by (simp add: signed_take_bit_int_eq_self)

abbreviation set_loop :: "int \<Rightarrow> 'p analysis \<Rightarrow> 'p analysis" where
  "set_loop l an \<equiv> an\<lparr>an_ctx := (an_ctx an)\<lparr>bx_loop := l\<rparr>\<rparr>"

definition man_domain :: "'p env \<Rightarrow> 'p manager \<Rightarrow> ('p domain, guid) ai_domain" where
  "man_domain E man = \<lparr>ad_init = m_init man, ad_bot = m_bot man,
     ad_join = (\<lambda>v1 v2 gen. m_join E v1 v2 False gen), ad_equals = (\<lambda>v1 v2 gen. m_equals E v1 v2 gen)\<rparr>"

subsection \<open>Loop headers\<close>

definition header_context :: "int \<Rightarrow> 'p analysis \<Rightarrow> 'p analysis" where
  "header_context header an =
     (let loop = bx_loop (an_ctx an);
          an = (if loop \<noteq> header then set_loop header (an\<lparr>an_previous := (an_previous an)(header := loop)\<rparr>) else an)
      in an\<lparr>an_instances := om_erase header (an_instances an)\<rparr>)"

definition header_inputs ::
  "('p domain, guid) ai_domain \<Rightarrow> cfg \<Rightarrow> nat \<Rightarrow> 'p domain store \<Rightarrow> guid \<Rightarrow> ('p domain \<times> 'p domain \<times> guid) option" where
  "header_inputs D c v st gen =
     foldM (\<lambda>e (entryState, backState, gen).
       let edgeState = es_get D st e in
       if li_dominates (c_loops c) (sinkOf (c_graph c) e) (sourceOf (c_graph c) e)
       then do { (backState, gen) \<leftarrow> ad_join D backState edgeState gen; Some (entryState, backState, gen) }
       else do { (entryState, gen) \<leftarrow> ad_join D entryState edgeState gen; Some (entryState, backState, gen) })
     (preds (c_graph c) v) (ad_bot D, ad_bot D, gen)"

definition header_update ::
  "'p env \<Rightarrow> ('p domain, guid) ai_domain \<Rightarrow> int \<Rightarrow> 'p domain \<Rightarrow> 'p headers \<Rightarrow> guid \<Rightarrow>
   ('p header_state \<times> guid) option" where
  "header_update E D header entryState hs gen = do {
     let h = (case ht_find hash_int hs header of Some h \<Rightarrow> h
       | None \<Rightarrow> \<lparr>hs_avcreate = False, hs_state = ad_bot D, hs_entry = dom_bottom E\<rparr>);
     (eq, gen) \<leftarrow> dom_equals E entryState (hs_entry h) gen;
     Some (if \<not> eq then \<lparr>hs_avcreate = True, hs_state = entryState, hs_entry = entryState\<rparr> else h, gen) }"

text \<open>\<open>MAX_ITERATION\<close> is an \<open>int\<close>, the bound has 64 bits.\<close>

definition max_iteration :: "int \<Rightarrow> int \<Rightarrow> 'p analysis \<Rightarrow> 'p analysis" where
  "max_iteration header bound an =
     (let m = an_max_iter an header in
      if m \<noteq> UNBOUNDED \<and> (m < bound \<or> bound = UNBOUNDED)
      then an\<lparr>an_max_iter := (an_max_iter an)(header := to_int32 bound)\<rparr> else an)"

definition processHeader ::
  "'p env \<Rightarrow> 'p manager \<Rightarrow> cfg \<Rightarrow> nat \<Rightarrow> 'p domain store \<Rightarrow> 'p headers \<Rightarrow> 'p analysis \<Rightarrow>
   ('p domain \<times> 'p headers \<times> 'p analysis) option" where
  "processHeader E man c v st hs an = do {
     let D = man_domain E man;
     let header = block_id c v;
     let an = header_context header an;
     (entryState, backState, gen) \<leftarrow> header_inputs D c v st (an_gen an);
     (h, gen) \<leftarrow> header_update E D header entryState hs gen;
     bound \<leftarrow> getLoopBound E backState header;
     let backState = setBound E (nat header) bound backState;
     lbs \<leftarrow> computeParamBound E backState header (an_bounds an);
     let an = max_iteration header bound (an\<lparr>an_bounds := lbs\<rparr>);
     let an = (if \<not> ht_hasKey hash_int (an_lb an) header
       then an\<lparr>an_lb := ht_assign hash_int header (dom_bottom E) (an_lb an)\<rparr> else an);
     (s, gen) \<leftarrow> m_widening E backState (hs_state h) (hs_avcreate h) gen;
     let h = h\<lparr>hs_state := s, hs_avcreate := hs_avcreate h \<and> isBottom E backState\<rparr>;
     Some (s, ht_assign hash_int header h hs, an\<lparr>an_gen := gen\<rparr>) }"

subsection \<open>Basic blocks\<close>

text \<open>Leaving a loop through its header: the context goes back to the enclosing loop.\<close>

definition loop_reset :: "cfg \<Rightarrow> nat \<Rightarrow> 'p analysis \<Rightarrow> 'p analysis" where
  "loop_reset c v an =
     (if an_reset an (block_id c v) then
        (case List.find (\<lambda>e. block_id c (sourceOf (c_graph c) e) = bx_loop (an_ctx an)) (preds (c_graph c) v) of
           Some e \<Rightarrow> set_loop (an_previous an (block_id c (sourceOf (c_graph c) e))) an
         | None \<Rightarrow> an)
      else an)"

definition process_inst :: "'p env \<Rightarrow> sem_inst list \<Rightarrow> 'p domain \<times> guid \<Rightarrow> ('p domain \<times> guid) option" where
  "process_inst E sem = (\<lambda>(s, gen). do {
     (s, gen) \<leftarrow> foldM (\<lambda>si (s, gen). onSemInst E si s gen) sem (s, gen);
     s \<leftarrow> doKillTemporaries s;
     s \<leftarrow> doFinalizeUpdate E s;
     Some (s, gen) })"

definition process_basic ::
  "'p env \<Rightarrow> sem_inst list list \<Rightarrow> bool list \<Rightarrow> 'p domain \<Rightarrow> 'p analysis \<Rightarrow> ('p domain \<times> 'p analysis) option" where
  "process_basic E insts live s an = do {
     let vs = getVarIDCount E s;
     cs \<leftarrow> getConsCount E s;
     let an = an\<lparr>an_vars := max (an_vars an) vs, an_cons := max (an_cons an) cs\<rparr>;
     (s, gen) \<leftarrow> foldM (process_inst E) insts (s, an_gen an);
     s \<leftarrow> doKillRegisters live s;
     s \<leftarrow> doRemoveUselessAvatars E s;
     s \<leftarrow> doFinalizeUpdate E s;
     s \<leftarrow> listMemoryVariables E s;
     Some (s, an\<lparr>an_gen := gen\<rparr>) }"

subsection \<open>Calls\<close>

definition MAX_LOOP :: int where "MAX_LOOP = 1000000"

text \<open>The artificial loop of a call; the arithmetic is that of \<open>int\<close>.\<close>

definition call_loop :: "int \<Rightarrow> int \<Rightarrow> int" where
  "call_loop oldLoop inst = to_int32 (- MAX_LOOP * oldLoop + inst)"

lemma call_loop_exact:
  "- (2 ^ 31) \<le> inst - MAX_LOOP * oldLoop \<Longrightarrow> inst - MAX_LOOP * oldLoop < 2 ^ 31 \<Longrightarrow>
    call_loop oldLoop inst = inst - MAX_LOOP * oldLoop"
  by (simp add: call_loop_def to_int32_exact)

definition call_context :: "string \<Rightarrow> 'p analysis \<Rightarrow> 'p analysis" where
  "call_context name an =
     (let oldLoop = bx_loop (an_ctx an);
          all = an_instances an;
          cur = (case map_of all oldLoop of None \<Rightarrow> [] | Some cur \<Rightarrow> cur);
          inst = (case map_of cur name of None \<Rightarrow> 1 | Some k \<Rightarrow> k + 1);
          cur = om_emplace name inst (om_erase name cur)
      in set_loop (call_loop oldLoop inst) (an\<lparr>an_instances := om_emplace oldLoop cur (om_erase oldLoop all)\<rparr>))"

definition ignored_calls :: "string list" where
  "ignored_calls = [''__divsi3'', ''__aeabi_i2d'', ''__muldf3'', ''__divdf3'', ''__adddf3'', ''__fixdfsi'',
     ''__aeabi_dsub'', ''gsignal'']"

text \<open>\<open>call\<close> is the analysis of a callee (\<open>processCFG\<close>).\<close>

type_synonym 'p callee = "nat \<Rightarrow> 'p domain \<Rightarrow> 'p analysis \<Rightarrow> ('p domain \<times> 'p analysis) option"

definition process_call ::
  "'p callee \<Rightarrow> cfg list \<Rightarrow> nat \<Rightarrow> nat option \<Rightarrow> 'p domain \<Rightarrow> 'p analysis \<Rightarrow> ('p domain \<times> 'p analysis) option" where
  "process_call call cfgs k callee s an = do {
     sub \<leftarrow> callee;
     let an = an\<lparr>an_root := (an_root an)(sub := an_root an k)\<rparr>;
     let oldLoop = bx_loop (an_ctx an);
     let name = c_name (cfgs ! sub);
     let an = call_context name an;
     if name \<in> set ignored_calls then Some (s, an)
     else do {
       (s, an) \<leftarrow> call sub s an;
       Some (s, set_loop oldLoop an) } }"

subsection \<open>Edges\<close>

definition an_check ::
  "('p domain, guid) ai_domain \<Rightarrow> graph \<Rightarrow> order \<Rightarrow> nat \<Rightarrow> 'p domain \<Rightarrow> 'p domain driver \<times> 'p analysis \<Rightarrow>
   ('p domain driver \<times> 'p analysis) option" where
  "an_check D g ord e s = (\<lambda>(w, an). do {
     (w, gen) \<leftarrow> wl_check D g ord e s (w, an_gen an);
     Some (w, an\<lparr>an_gen := gen\<rparr>) })"

text \<open>The state of an edge; \<open>None\<close> inside: the edge cannot be taken.\<close>

definition edge_filter ::
  "'p env \<Rightarrow> cfg \<Rightarrow> nat \<Rightarrow> 'p domain \<Rightarrow> 'p analysis \<Rightarrow> ('p domain option \<times> 'p analysis) option" where
  "edge_filter E c e s an =
     (if hasFilter s then do {
        (s, ctx) \<leftarrow> onBranch E (c_taken c e) (c_control c (sourceOf (c_graph c) e)) s (an_ctx an);
        Some (if isBottom E s then None else Some s, an\<lparr>an_ctx := ctx\<rparr>) }
      else Some (Some s, an))"

definition edge_loop ::
  "'p env \<Rightarrow> cfg \<Rightarrow> nat \<Rightarrow> 'p domain \<Rightarrow> guid \<Rightarrow> ('p domain \<times> guid) option" where
  "edge_loop E c e s gen =
     (let source = sourceOf (c_graph c) e; sink = sinkOf (c_graph c) e in
      if li_header (c_loops c) sink then
        if li_dominates (c_loops c) sink source then onLoopIter E (block_id c sink) s gen
        else onLoopEntry E (block_id c sink) s gen
      else Some (s, gen))"

definition edge_exit ::
  "'p env \<Rightarrow> cfg \<Rightarrow> nat \<Rightarrow> 'p domain \<Rightarrow> 'p analysis \<Rightarrow> ('p domain option \<times> 'p analysis) option" where
  "edge_exit E c e s an =
     (case li_exit (c_loops c) e of None \<Rightarrow> Some (Some s, an)
      | Some h \<Rightarrow> do {
          let an = (if li_header (c_loops c) (sourceOf (c_graph c) e)
            then an\<lparr>an_reset := (an_reset an)(block_id c (sinkOf (c_graph c) e) := True)\<rparr> else an);
          let bound = to_int32 (getBound s (nat (block_id c h)));
          s \<leftarrow> doRemoveUselessAvatars E s;
          s \<leftarrow> doRemoveAllAvatars s;
          if 0 \<le> bound then do {
            s \<leftarrow> onLoopExit E (block_id c h) bound s;
            Some (if isBottom E s then None else Some s, an) }
          else Some (Some s, an) })"

definition process_edge ::
  "'p env \<Rightarrow> ('p domain, guid) ai_domain \<Rightarrow> cfg \<Rightarrow> order \<Rightarrow> 'p domain \<Rightarrow> nat \<Rightarrow> 'p domain driver \<times> 'p analysis \<Rightarrow>
   ('p domain driver \<times> 'p analysis) option" where
  "process_edge E D c ord s e = (\<lambda>(w, an).
     if \<not> li_header (c_loops c) (sinkOf (c_graph c) e) \<and> li_exit (c_loops c) e = None \<and> \<not> hasFilter s
     then an_check D (c_graph c) ord e s (w, an)
     else do {
       (r, an) \<leftarrow> edge_filter E c e s an;
       case r of None \<Rightarrow> Some (w, an)
       | Some s \<Rightarrow> do {
           (s, gen) \<leftarrow> edge_loop E c e s (an_gen an);
           (r, an) \<leftarrow> edge_exit E c e s (an\<lparr>an_gen := gen\<rparr>);
           case r of None \<Rightarrow> Some (w, an)
           | Some s \<Rightarrow> do {
               s \<leftarrow> doFinalizeUpdate E s;
               an_check D (c_graph c) ord e s (w, an) } } })"

text \<open>Two passes over the edges: those that leave a loop, then the others.\<close>

definition edge_order :: "cfg \<Rightarrow> nat \<Rightarrow> nat list" where
  "edge_order c v = filter (\<lambda>e. li_exit (c_loops c) e \<noteq> None) (succs (c_graph c) v) @
     filter (\<lambda>e. li_exit (c_loops c) e = None) (succs (c_graph c) v)"

text \<open>
  One block. The first block of the root graph receives the arguments of the program. The
  block of a call sends its state to every successor, and then its edges are processed like
  those of the others.
\<close>

type_synonym 'p work = "'p domain driver \<times> 'p headers \<times> 'p analysis"

definition block_input ::
  "'p env \<Rightarrow> 'p manager \<Rightarrow> nat \<Rightarrow> cfg \<Rightarrow> 'p domain driver \<Rightarrow> 'p headers \<Rightarrow> 'p analysis \<Rightarrow>
   ('p domain \<times> 'p headers \<times> 'p analysis) option" where
  "block_input E man k c w hs an = do {
     let v = wl_cur w;
     let an = loop_reset c v an;
     (s, hs, an) \<leftarrow> (if li_header (c_loops c) v then processHeader E man c v (wl_store w) hs an
       else do {
         (s, gen) \<leftarrow> wl_input (man_domain E man) (c_graph c) v (wl_store w) (an_gen an);
         Some (s, hs, an\<lparr>an_gen := gen\<rparr>) });
     if v = 1 then do {
       (s, ctx, gen) \<leftarrow> initFunctionParameters E (an_root an k = Some k) s (an_ctx an) (an_gen an);
       Some (s, hs, an\<lparr>an_ctx := ctx, an_gen := gen\<rparr>) }
     else Some (s, hs, an) }"

definition process_block ::
  "'p env \<Rightarrow> ('p domain, guid) ai_domain \<Rightarrow> 'p callee \<Rightarrow> cfg list \<Rightarrow> nat \<Rightarrow> order \<Rightarrow> 'p domain \<Rightarrow>
   'p domain driver \<times> 'p analysis \<Rightarrow> ('p domain \<times> 'p domain driver \<times> 'p analysis) option" where
  "process_block E D call cfgs k ord s = (\<lambda>(w, an).
     let c = cfgs ! k; g = c_graph c; v = wl_cur w in
     case c_blocks c ! v of
       BSynth callee \<Rightarrow> do {
         (s, an) \<leftarrow> process_call call cfgs k callee s an;
         (w, an) \<leftarrow> foldM (\<lambda>e. an_check D g ord e s) (succs g v) (w, an);
         Some (s, w, an) }
     | BBasic insts live \<Rightarrow> do {
         (s, an) \<leftarrow> process_basic E insts live s an;
         Some (s, w, an) }
     | BVirtual \<Rightarrow> None)"

definition processBB ::
  "'p env \<Rightarrow> 'p manager \<Rightarrow> 'p callee \<Rightarrow> cfg list \<Rightarrow> nat \<Rightarrow> order \<Rightarrow> 'p work \<Rightarrow> 'p work option" where
  "processBB E man call cfgs k ord = (\<lambda>(w, hs, an). do {
     let c = cfgs ! k;
     let D = man_domain E man;
     (s, hs, an) \<leftarrow> block_input E man k c w hs an;
     if isBottom E s then Some (w, hs, an)
     else do {
       (s, w, an) \<leftarrow> process_block E D call cfgs k ord s (w, an);
       (w, an) \<leftarrow> foldM (process_edge E D c ord s) (edge_order c (wl_cur w)) (w, an);
       Some (w, hs, an) } })"

subsection \<open>Graphs\<close>

definition first_in :: "graph \<Rightarrow> nat \<Rightarrow> nat option" where
  "first_in g v = (case preds g v of [] \<Rightarrow> None | e # es \<Rightarrow> Some e)"

text \<open>The calls are at most \<open>depth\<close> deep. The state returned is that of the first edge to the exit.\<close>

primrec processCFG ::
  "nat \<Rightarrow> nat \<Rightarrow> 'p env \<Rightarrow> cfg list \<Rightarrow> topo list \<Rightarrow> nat \<Rightarrow> bool \<Rightarrow> bool \<Rightarrow> 'p domain \<Rightarrow> 'p analysis \<Rightarrow>
   ('p domain \<times> 'p analysis) option" where
  "processCFG 0 rounds E cfgs orders k isEntryCFG summarize s an = None"
| "processCFG (Suc depth) rounds E cfgs orders k isEntryCFG summarize s an = do {
     (s, gen) \<leftarrow> doEnterFunction E s (an_gen an);
     (man, gen) \<leftarrow> (if isEntryCFG then manager_new E gen else do { m \<leftarrow> manager_from E s; Some (m, gen) });
     man \<leftarrow> (if summarize then do { assert_that isEntryCFG; Some (m_enableSummary man) } else Some man);
     let g = c_graph (cfgs ! k);
     let D = man_domain E man;
     let ord = Some (isBefore (orders ! k));
     w \<leftarrow> wl_init D g ord;
     (w, hs, an) \<leftarrow> run_driver rounds g
       (processBB E man (\<lambda>sub. processCFG depth rounds E cfgs orders sub False False) cfgs k ord)
       (w, ht_new default_size, an\<lparr>an_gen := gen\<rparr>);
     e \<leftarrow> first_in g (g_exit g);
     let s = es_get D (wl_store w) e;
     if isEntryCFG \<and> \<not> summarize then Some (s, an)
     else do {
       (safe, s) \<leftarrow> doLeaveFunction E s;
       s \<leftarrow> doFinalizeUpdate E s;
       Some (s, an) } }"

subsection \<open>The program\<close>

definition analysis_start :: "(int \<Rightarrow> int) \<Rightarrow> guid \<Rightarrow> 'p analysis" where
  "analysis_start max_iter gen = \<lparr>an_gen = gen, an_ctx = bx_init, an_instances = [], an_previous = (\<lambda>_. -1),
     an_reset = (\<lambda>_. False), an_root = (\<lambda>_. None)(0 := Some 0), an_max_iter = max_iter, an_bounds = [],
     an_lb = ht_new default_size, an_vars = 0, an_cons = 0\<rparr>"

text \<open>The bounds that do not depend on the arguments are added to the table, behind the others.\<close>

definition static_bound :: "cfg \<Rightarrow> 'p analysis \<Rightarrow> nat \<Rightarrow> loop_bounds \<Rightarrow> loop_bounds" where
  "static_bound c an v lbs =
     (if li_header (c_loops c) v \<and> 0 \<le> an_max_iter an (block_id c v)
      then om_emplace (block_id c v) \<lparr>lb_linear = False, lb_static = an_max_iter an (block_id c v), lb_text = ''''\<rparr> lbs
      else lbs)"

definition all_bounds :: "cfg list \<Rightarrow> 'p analysis \<Rightarrow> loop_bounds" where
  "all_bounds cfgs an = fold (\<lambda>k lbs. fold (\<lambda>v lbs.
       static_bound (cfgs ! k) an v (if lbs = [] \<and> an_root an k \<noteq> None then an_bounds an else lbs))
     [0..<g_count (c_graph (cfgs ! k))] lbs) [0..<length cfgs] []"

record report =
  rp_rows :: "row list"
  rp_bounds :: "string list"
  rp_vars :: nat
  rp_cons :: nat
  rp_insts :: nat

definition count_insts :: "cfg list \<Rightarrow> nat" where
  "count_insts cfgs = sum_list (map (\<lambda>c. sum_list (map (\<lambda>b.
     case b of BBasic insts live \<Rightarrow> length insts | _ \<Rightarrow> 0) (c_blocks c))) cfgs)"

definition export_results :: "cfg list \<Rightarrow> 'p analysis \<Rightarrow> (row list \<times> string list) option" where
  "export_results cfgs an =
     (if list_ex (\<lambda>k. an_root an k \<noteq> None \<and> 0 < g_count (c_graph (cfgs ! k))) [0..<length cfgs] then do {
        rows \<leftarrow> exportOrderedConstraints (bx_order (an_ctx an)) (bx_loops (an_ctx an)) resetFile;
        Some (rows, exportLoopBounds (all_bounds cfgs an)) }
      else Some (resetFile, []))"

definition processWorkSpace ::
  "nat \<Rightarrow> nat \<Rightarrow> 'p env \<Rightarrow> cfg list \<Rightarrow> (int \<Rightarrow> int) \<Rightarrow> guid \<Rightarrow> report option" where
  "processWorkSpace depth rounds E cfgs max_iter gen = do {
     orders \<leftarrow> mapM (\<lambda>c. getPseudoTopo (c_graph c) (c_loops c)) cfgs;
     (s, an) \<leftarrow> processCFG depth rounds E cfgs orders 0 True False (dom_bottom E) (analysis_start max_iter gen);
     (rows, bounds) \<leftarrow> export_results cfgs an;
     Some \<lparr>rp_rows = rows, rp_bounds = bounds, rp_vars = an_vars an, rp_cons = an_cons an, rp_insts = count_insts cfgs\<rparr> }"

end
