(* ===== verification/Analysis_Run.thy ===== *)
theory Analysis_Run
  imports Poly_Analysis
begin

text \<open>
  What the analysis of a graph does to the work list, and how its results depend on the bounds
  on rounds and on the depth of calls.
\<close>

subsection \<open>A block only changes its outgoing edges\<close>

definition local_change :: "graph \<Rightarrow> order \<Rightarrow> nat \<Rightarrow> 's driver \<Rightarrow> 's driver \<Rightarrow> bool" where
  "local_change g ord v w w' \<longleftrightarrow> changes g ord w w' \<and> (\<forall>e. e \<notin> set (succs g v) \<longrightarrow> wl_store w' e = wl_store w e)"

lemma local_refl [simp]: "local_change g ord v w w"
  by (simp add: local_change_def changes.none)

lemma local_trans: "local_change g ord v w w' \<Longrightarrow> local_change g ord v w' w'' \<Longrightarrow> local_change g ord v w w''"
  using changes_trans by (fastforce simp: local_change_def)

lemma wl_push_store: "wl_push ord v w = Some w' \<Longrightarrow> wl_store w' = wl_store w"
  by (auto simp: wl_push_def bindE split: if_splits)

lemma local_check:
  assumes "an_check D g ord e s (w, an) = Some (w', an')" and "graph_ok g" "v < g_count g" "e \<in> set (succs g v)"
  shows "local_change g ord v w w'"
proof -
  obtain x where x: "wl_check D g ord e s (w, an_gen an) = Some (w', x)" using assms(1) by (auto simp: an_check_def bindE)
  have "e < length (g_edges g)" using assms(2-4) by (auto simp: graph_ok_def)
  moreover have "wl_store w' f = wl_store w f" if "f \<notin> set (succs g v)" for f
    using x that assms(4) by (auto simp: wl_check_def wl_change_def bindE es_set_def dest!: wl_push_store split: if_splits)
  ultimately show ?thesis using changes_check [OF x] by (simp add: local_change_def)
qed

lemma local_edge:
  assumes "process_edge E D c ord s e (w, an) = Some (w', an')" and "graph_ok (c_graph c)" "v < g_count (c_graph c)"
    "e \<in> set (succs (c_graph c) v)"
  shows "local_change (c_graph c) ord v w w'"
  using assms(1) local_check [OF _ assms(2-4)]
  by (auto simp: process_edge_def bindE split: if_splits option.splits)

lemma local_fold:
  assumes "foldM f es (w, an) = Some (w', an')"
    and "\<And>e w an w' an'. e \<in> set es \<Longrightarrow> f e (w, an) = Some (w', an') \<Longrightarrow> local_change g ord v w w'"
  shows "local_change g ord v w w'"
proof -
  have "local_change g ord v w (fst (w', an'))"
  proof (rule foldM_invariant [OF assms(1), of "\<lambda>x. local_change g ord v w (fst x)"])
    fix e s s'
    assume e: "e \<in> set es" "local_change g ord v w (fst s)" "f e s = Some s'"
    then have "local_change g ord v (fst s) (fst s')" using assms(2) [OF e(1), of "fst s" "snd s" "fst s'" "snd s'"] by simp
    then show "local_change g ord v w (fst s')" by (rule local_trans [OF e(2)])
  qed simp
  then show ?thesis by simp
qed

lemma local_block:
  assumes "process_block E D call cfgs k ord s (w, an) = Some (s', w', an')" and "graph_ok (c_graph (cfgs ! k))"
    "wl_cur w < g_count (c_graph (cfgs ! k))"
  shows "local_change (c_graph (cfgs ! k)) ord (wl_cur w) w w'"
proof (cases "c_blocks (cfgs ! k) ! wl_cur w")
  case (BSynth callee)
  then obtain s1 an1 where "foldM (\<lambda>e. an_check D (c_graph (cfgs ! k)) ord e s1) (succs (c_graph (cfgs ! k)) (wl_cur w)) (w, an1) =
      Some (w', an')"
    using assms(1) by (auto simp: process_block_def bindE Let_def)
  then show ?thesis by (rule local_fold) (rule local_check [OF _ assms(2,3)])
qed (use assms(1) in \<open>auto simp: process_block_def bindE Let_def\<close>)

lemma local_cur: "local_change g ord v w w' \<Longrightarrow> wl_cur w' = wl_cur w"
proof -
  assume "local_change g ord v w w'"
  then have "changes g ord w w'" by (simp add: local_change_def)
  then show ?thesis
  proof (induction rule: changes.induct)
    case (change w w' e s w'')
    then show ?case by (auto simp: wl_change_def wl_push_def bindE split: if_splits)
  qed simp
qed

lemma processBB_local:
  assumes "processBB E man call cfgs k ord (w, hs, an) = Some (w', hs', an')" and g: "graph_ok (c_graph (cfgs ! k))"
    "wl_cur w < g_count (c_graph (cfgs ! k))"
  shows "local_change (c_graph (cfgs ! k)) ord (wl_cur w) w w'"
proof -
  let ?c = "cfgs ! k"
  obtain s hs1 an1 where i: "block_input E man k ?c w hs an = Some (s, hs1, an1)"
    using assms(1) by (cases "block_input E man k ?c w hs an") (auto simp: processBB_def)
  show ?thesis
  proof (cases "isBottom E s")
    case True
    then show ?thesis using assms(1) i by (simp add: processBB_def)
  next
    case False
    then obtain s2 w2 an2 where b: "process_block E (man_domain E man) call cfgs k ord s (w, an1) = Some (s2, w2, an2)"
      and e: "foldM (process_edge E (man_domain E man) ?c ord s2) (edge_order ?c (wl_cur w2)) (w2, an2) = Some (w', an')"
      using assms(1) i by (auto simp: processBB_def bindE Let_def)
    note l = local_block [OF b g]
    have cur: "wl_cur w2 = wl_cur w" by (rule local_cur [OF l])
    have "local_change (c_graph ?c) ord (wl_cur w) w2 w'"
    proof (rule local_fold [OF e])
      fix a x y x' y'
      assume "a \<in> set (edge_order ?c (wl_cur w2))" "process_edge E (man_domain E man) ?c ord s2 a (x, y) = Some (x', y')"
      then show "local_change (c_graph ?c) ord (wl_cur w) x x'"
        by (intro local_edge [OF _ g]) (auto simp: edge_order_def cur)
    qed
    then show ?thesis by (rule local_trans [OF l])
  qed
qed

text \<open>So a block of the analysis is a step of the driver.\<close>

interpretation pbb: block_step "c_graph (cfgs ! k)" ord "processBB E man call cfgs k ord" for E man call cfgs k ord
proof
  fix w r w' r'
  assume *: "graph_ok (c_graph (cfgs ! k))" "wl_cur w < g_count (c_graph (cfgs ! k))"
    "processBB E man call cfgs k ord (w, r) = Some (w', r')"
  obtain hs an hs' an' where "r = (hs, an)" "r' = (hs', an')" by (cases r, cases r')
  then show "changes (c_graph (cfgs ! k)) ord w w' \<and>
      (\<forall>e. e \<notin> set (succs (c_graph (cfgs ! k)) (wl_cur w)) \<longrightarrow> wl_store w' e = wl_store w e)"
    using processBB_local [of E man call cfgs k ord w hs an w' hs' an'] * by (simp add: local_change_def)
qed

subsection \<open>The result of a graph\<close>

lemma processCFG_run:
  assumes "processCFG (Suc depth) rounds E cfgs orders k isEntry summarize s an = Some (s', an')"
  obtains man w0 w hs an0 e where "wl_init (man_domain E man) (c_graph (cfgs ! k)) (Some (isBefore (orders ! k))) = Some w0"
    and "run_driver rounds (c_graph (cfgs ! k))
      (processBB E man (\<lambda>sub. processCFG depth rounds E cfgs orders sub False False) cfgs k (Some (isBefore (orders ! k))))
      (w0, ht_new default_size, an0) = Some (w, hs, an')"
    and "first_in (c_graph (cfgs ! k)) (g_exit (c_graph (cfgs ! k))) = Some e"
    and "isEntry \<and> \<not> summarize \<Longrightarrow> s' = es_get (man_domain E man) (wl_store w) e"
    and "\<not> (isEntry \<and> \<not> summarize) \<Longrightarrow> \<exists>safe s1. doLeaveFunction E (es_get (man_domain E man) (wl_store w) e) = Some (safe, s1) \<and>
      doFinalizeUpdate E s1 = Some s'"
  using assms by (auto simp: bindE Let_def split: if_splits)

subsection \<open>More rounds and deeper calls\<close>

lemma process_call_mono:
  assumes "process_call call cfgs k callee s an = Some r" and "\<And>sub s an r. call sub s an = Some r \<Longrightarrow> call' sub s an = Some r"
  shows "process_call call' cfgs k callee s an = Some r"
  using assms(1) by (auto simp: process_call_def bindE Let_def split: if_splits dest: assms(2))

lemma process_block_mono:
  assumes "process_block E D call cfgs k ord s x = Some r" and "\<And>sub s an r. call sub s an = Some r \<Longrightarrow> call' sub s an = Some r"
  shows "process_block E D call' cfgs k ord s x = Some r"
proof (cases "c_blocks (cfgs ! k) ! wl_cur (fst x)")
  case (BSynth callee)
  obtain w an where x: "x = (w, an)" by (cases x)
  obtain s1 an1 where "process_call call cfgs k callee s an = Some (s1, an1)"
    using assms(1) BSynth x by (cases "process_call call cfgs k callee s an") (auto simp: process_block_def Let_def)
  with process_call_mono [OF this assms(2)] show ?thesis using assms(1) BSynth x by (simp add: process_block_def Let_def)
qed (use assms(1) in \<open>auto simp: process_block_def Let_def split: prod.splits\<close>)

lemma processBB_mono:
  assumes "processBB E man call cfgs k ord x = Some r" and "\<And>sub s an r. call sub s an = Some r \<Longrightarrow> call' sub s an = Some r"
  shows "processBB E man call' cfgs k ord x = Some r"
proof -
  obtain w hs an where x: "x = (w, hs, an)" by (cases x)
  obtain s hs1 an1 where i: "block_input E man k (cfgs ! k) w hs an = Some (s, hs1, an1)"
    using assms(1) x by (cases "block_input E man k (cfgs ! k) w hs an") (auto simp: processBB_def)
  show ?thesis
  proof (cases "isBottom E s")
    case False
    then obtain q where q: "process_block E (man_domain E man) call cfgs k ord s (w, an1) = Some q"
      using assms(1) x i by (cases "process_block E (man_domain E man) call cfgs k ord s (w, an1)") (auto simp: processBB_def Let_def)
    note process_block_mono [OF q assms(2)]
    then show ?thesis using assms(1) x i False q by (simp add: processBB_def Let_def)
  qed (use assms(1) x i in \<open>simp add: processBB_def Let_def\<close>)
qed

lemma bind_mono: "do { x \<leftarrow> m; f x } = Some y \<Longrightarrow> (\<And>x. f x = Some y \<Longrightarrow> f' x = Some y) \<Longrightarrow> do { x \<leftarrow> m; f' x } = Some y"
  by (cases m) simp_all

lemma bind_mono2: "do { x \<leftarrow> m; f x } = Some y \<Longrightarrow> (\<And>x. m = Some x \<Longrightarrow> m' = Some x) \<Longrightarrow> do { x \<leftarrow> m'; f x } = Some y"
  by (cases m) simp_all

lemma processCFG_mono:
  assumes "processCFG depth rounds E cfgs orders k isEntry summarize s an = Some r" and "depth \<le> depth'" and "rounds \<le> rounds'"
  shows "processCFG depth' rounds' E cfgs orders k isEntry summarize s an = Some r"
  using assms(1,2)
proof (induction depth arbitrary: depth' k isEntry summarize s an r)
  case (Suc depth)
  obtain d where d: "depth' = Suc d" "depth \<le> d" using Suc.prems(2) by (cases depth') auto
  let ?g = "c_graph (cfgs ! k)" and ?ord = "Some (isBefore (orders ! k))"
  have run: "run_driver rounds' ?g (processBB E man (\<lambda>sub. processCFG d rounds' E cfgs orders sub False False) cfgs k ?ord) x = Some y"
    if "run_driver rounds ?g (processBB E man (\<lambda>sub. processCFG depth rounds E cfgs orders sub False False) cfgs k ?ord) x = Some y"
    for man x y
    by (rule run_driver_mono [OF that assms(3)], erule processBB_mono, rule Suc.IH [OF _ d(2)])
  show ?case
    using Suc.prems(1) unfolding d(1) processCFG.simps Let_def
    by (auto split: prod.splits elim!: bind_mono elim: bind_mono2 [OF _ run])
qed simp

end
