(* ===== verification/Merge_Sound.thy ===== *)
theory Merge_Sound
  imports Domain_Merge Sem_Inst_Sound
begin

text \<open>
  Joining, widening and comparing states that hold registers only, which is what remains of
  unification when no memory location is involved: the result covers both states, and states
  that compare equal are included in each other.
\<close>

definition reg_only :: "'p domain \<Rightarrow> bool" where
  "reg_only d \<longleftrightarrow> (\<forall>i iv. im_find1 (d_idmap d) i = Some iv \<longrightarrow> id_type i \<notin> set mem_types)"

text \<open>Both states have the identifier: \<open>g\<close> is its variable on the left, \<open>h\<close> on the right.\<close>

definition partners :: "'p domain \<Rightarrow> 'p domain \<Rightarrow> guid \<Rightarrow> guid \<Rightarrow> bool" where
  "partners l r g h \<longleftrightarrow> (\<exists>i iv iv2. im_find1 (d_idmap l) i = Some iv \<and> im_find1 (d_idmap r) i = Some iv2 \<and>
     g = iv_g iv \<and> h = iv_g iv2)"

text \<open>A variable of each state that stands for the same identifier survives unification.\<close>

definition share_register :: "'p domain \<Rightarrow> 'p domain \<Rightarrow> bool" where
  "share_register d r \<longleftrightarrow> (\<exists>g \<in> wp_dom (d_poly d). \<exists>h \<in> wp_dom (d_poly r). partners d r g h)"

subsection \<open>Bounds\<close>

lemma setBound_simps [simp]:
  "d_poly (setBound E k b d) = d_poly d" "d_idmap (setBound E k b d) = d_idmap d"
  "d_victims (setBound E k b d) = d_victims d" "d_num_axis (setBound E k b d) = d_num_axis d"
  "d_compare_reg (setBound E k b d) = d_compare_reg d"
  by (simp_all add: setBound_def Let_def)

lemma merge_bounds_simps [simp]:
  "d_poly (merge_bounds E r d) = d_poly d" "d_idmap (merge_bounds E r d) = d_idmap d"
  "d_victims (merge_bounds E r d) = d_victims d" "d_num_axis (merge_bounds E r d) = d_num_axis d"
proof -
  have "d_poly (fold (\<lambda>i l1. setBound E i (getBound r i) l1) is d) = d_poly d \<and>
    d_idmap (fold (\<lambda>i l1. setBound E i (getBound r i) l1) is d) = d_idmap d \<and>
    d_victims (fold (\<lambda>i l1. setBound E i (getBound r i) l1) is d) = d_victims d \<and>
    d_num_axis (fold (\<lambda>i l1. setBound E i (getBound r i) l1) is d) = d_num_axis d" for "is"
    by (induction "is" arbitrary: d) simp_all
  then show "d_poly (merge_bounds E r d) = d_poly d" "d_idmap (merge_bounds E r d) = d_idmap d"
    "d_victims (merge_bounds E r d) = d_victims d" "d_num_axis (merge_bounds E r d) = d_num_axis d"
    by (simp_all add: merge_bounds_def)
qed

lemma merge_bounds_ok: "dom_ok E gen (merge_bounds E r d) = dom_ok E gen d"
  and merge_bounds_models: "models E (merge_bounds E r d) = models E d"
  by (simp_all add: dom_ok_def models_def fun_eq_iff)

subsection \<open>Renaming a state\<close>

lemma idents_fold:
  assumes "im_ok m" and "distinct (map fst ps)"
    and "\<And>i iv. (i, iv) \<in> set ps \<Longrightarrow> im_find1 m i = None"
    and "\<And>i iv j g s. (i, iv) \<in> set ps \<Longrightarrow> im_find1 m j = Some (idval_t g s) \<Longrightarrow> f (iv_g iv) \<noteq> Some g"
    and "\<And>i iv j jv g. (i, iv) \<in> set ps \<Longrightarrow> (j, jv) \<in> set ps \<Longrightarrow> f (iv_g iv) = Some g \<Longrightarrow>
      f (iv_g jv) = Some g \<Longrightarrow> i = j"
  defines "res \<equiv> fold (\<lambda>(i, iv) m. case f (iv_g iv) of Some g \<Rightarrow> im_add i (idval_t g (iv_s iv)) m | None \<Rightarrow> m) ps m"
  shows "im_ok res" and "im_find1 res = im_find1 m ++
    map_of (concat (map (\<lambda>(i, iv). case f (iv_g iv) of Some g \<Rightarrow> [(i, idval_t g (iv_s iv))] | None \<Rightarrow> []) ps))"
proof -
  let ?c = "\<lambda>ps. concat (map (\<lambda>(i, iv). case f (iv_g iv) of Some g \<Rightarrow> [(i, idval_t g (iv_s iv))] | None \<Rightarrow> []) ps)"
  let ?F = "fold (\<lambda>(i, iv) m. case f (iv_g iv) of Some g \<Rightarrow> im_add i (idval_t g (iv_s iv)) m | None \<Rightarrow> m)"
  have "im_ok (?F ps m) \<and> im_find1 (?F ps m) = im_find1 m ++ map_of (?c ps)"
    using assms(1-5)
  proof (induction ps arbitrary: m)
    case (Cons p ps)
    obtain i iv where p: "p = (i, iv)" by (cases p)
    show ?case
    proof (cases "f (iv_g iv)")
      case None
      have "im_ok (?F ps m) \<and> im_find1 (?F ps m) = im_find1 m ++ map_of (?c ps)"
      proof (rule Cons.IH [OF Cons.prems(1)])
        show "distinct (map fst ps)" using Cons.prems(2) by simp
        show "im_find1 m j = None" if "(j, jv) \<in> set ps" for j jv using Cons.prems(3) [of j jv] that by simp
        show "f (iv_g jv) \<noteq> Some h" if "(j, jv) \<in> set ps" "im_find1 m k = Some (idval_t h s)" for j jv k h s
          using Cons.prems(4) [of j jv k h s] that by simp
        show "j = k" if "(j, jv) \<in> set ps" "(k, kv) \<in> set ps" "f (iv_g jv) = Some h" "f (iv_g kv) = Some h" for j jv k kv h
          using Cons.prems(5) [of j jv k kv h] that by simp
      qed
      then show ?thesis using None by (simp add: p)
    next
      case (Some g)
      let ?m = "im_add i (idval_t g (iv_s iv)) m"
      have ps: "(i, iv) \<in> set (p # ps)" using p by simp
      have no: "im_find1 m j \<noteq> Some (idval_t g (iv_s iv))" for j
        using Cons.prems(4) [OF ps, of j g "iv_s iv"] Some by auto
      have m: "im_ok ?m" "im_find1 ?m = (im_find1 m)(i \<mapsto> idval_t g (iv_s iv))"
        using im_add_finds [OF Cons.prems(1), of i "idval_t g (iv_s iv)"] no by auto
      have fresh: "j \<noteq> i" if "(j, jv) \<in> set ps" for j jv using Cons.prems(2) that p by force
      have "im_ok (?F ps ?m) \<and> im_find1 (?F ps ?m) = im_find1 ?m ++ map_of (?c ps)"
      proof (rule Cons.IH [OF m(1)])
        show "distinct (map fst ps)" using Cons.prems(2) by simp
        show "im_find1 ?m j = None" if "(j, jv) \<in> set ps" for j jv
          using Cons.prems(3) [of j jv] fresh [OF that] that m(2) by simp
        show "f (iv_g jv) \<noteq> Some h" if "(j, jv) \<in> set ps" "im_find1 ?m k = Some (idval_t h s)" for j jv k h s
        proof (cases "k = i")
          case True
          then have "h = g" using that(2) m(2) by simp
          then show ?thesis using Cons.prems(5) [OF ps, of j jv g] Some fresh [OF that(1)] that(1) by auto
        next
          case False
          then show ?thesis using Cons.prems(4) [of j jv k h s] that m(2) by simp
        qed
        show "j = k" if "(j, jv) \<in> set ps" "(k, kv) \<in> set ps" "f (iv_g jv) = Some h" "f (iv_g kv) = Some h" for j jv k kv h
          using Cons.prems(5) [of j jv k kv h] that by simp
      qed
      moreover have "i \<notin> dom (map_of (?c ps))"
      proof -
        have "x \<noteq> i" if "(x, y) \<in> set (?c ps)" for x y
          using that fresh by (auto split: option.splits)
        then have "i \<notin> fst ` set (?c ps)" by force
        then show ?thesis by (simp only: dom_map_of_conv_image_fst not_False_eq_True)
      qed
      then have "(im_find1 m)(i \<mapsto> idval_t g (iv_s iv)) ++ map_of (?c ps) =
          im_find1 m ++ (map_of (?c ps))(i \<mapsto> idval_t g (iv_s iv))"
        by (auto simp: fun_eq_iff map_add_def split: option.split)
      ultimately show ?thesis using m(2) Some by (simp add: p) (simp add: fun_eq_iff map_add_def split: option.split)
    qed
  qed simp
  then show "im_ok res" and "im_find1 res = im_find1 m ++ map_of (?c ps)" by (simp_all add: res_def)
qed

lemma map_of_renamed:
  assumes "distinct (map fst ps)"
  shows "map_of (concat (map (\<lambda>(i, iv). case f (iv_g iv) of Some g \<Rightarrow> [(i, idval_t g (iv_s iv))] | None \<Rightarrow> []) ps)) i =
    (case map_of ps i of None \<Rightarrow> None | Some iv \<Rightarrow> map_option (\<lambda>g. idval_t g (iv_s iv)) (f (iv_g iv)))"
  using assms
proof (induction ps)
  case (Cons p ps)
  obtain j jv where p: "p = (j, jv)" by (cases p)
  show ?case
  proof (cases "i = j")
    case True
    then have "map_of ps i = None" using Cons.prems p by (simp add: map_of_eq_None_iff)
    then show ?thesis using Cons True p by (auto split: option.split)
  next
    case False
    then show ?thesis using Cons p by (auto split: option.split)
  qed
qed simp

lemma mapIdents_find:
  assumes ok: "im_ok (d_idmap d)"
    and inj: "\<And>i j iv jv g. im_find1 (d_idmap d) i = Some iv \<Longrightarrow> im_find1 (d_idmap d) j = Some jv \<Longrightarrow>
      f (iv_g iv) = Some g \<Longrightarrow> f (iv_g jv) = Some g \<Longrightarrow> i = j"
  shows "im_ok (d_idmap (doMapIdents f d))"
    and "im_find1 (d_idmap (doMapIdents f d)) i = (case im_find1 (d_idmap d) i of None \<Rightarrow> None
      | Some iv \<Rightarrow> map_option (\<lambda>g. idval_t g (iv_s iv)) (f (iv_g iv)))"
proof -
  let ?ps = "im_pairs (d_idmap d)"
  let ?m = "fold (\<lambda>(i, iv) m. case f (iv_g iv) of Some g \<Rightarrow> im_add i (idval_t g (iv_s iv)) m | None \<Rightarrow> m) ?ps im_new"
  have ht: "ht_ok hash_ident (id2guid (d_idmap d))" using ok by (simp add: im_ok_def)
  have dist: "distinct (map fst ?ps)" using hident.pairs_distinct [OF ht] by (simp add: im_pairs_def)
  have mem: "(i, iv) \<in> set ?ps \<longleftrightarrow> im_find1 (d_idmap d) i = Some iv" for i iv by (rule im_pairs_iff [OF ok])
  have look: "map_of ?ps i = im_find1 (d_idmap d) i" for i
    using mem map_of_eq_Some_iff [OF dist, of i] by (metis not_None_eq)
  have fld: "im_ok ?m" "im_find1 ?m = im_find1 im_new ++
      map_of (concat (map (\<lambda>(i, iv). case f (iv_g iv) of Some g \<Rightarrow> [(i, idval_t g (iv_s iv))] | None \<Rightarrow> []) ?ps))"
    by (rule idents_fold [OF im_new_ok dist]; use inj mem in \<open>auto simp: im_new_find\<close>)+
  have e: "d_idmap (doMapIdents f d) = im_copy ?m" by (simp add: doMapIdents_def)
  show "im_ok (d_idmap (doMapIdents f d))" unfolding e by (rule im_copy_ok(1) [OF fld(1)])
  show "im_find1 (d_idmap (doMapIdents f d)) i = (case im_find1 (d_idmap d) i of None \<Rightarrow> None
      | Some iv \<Rightarrow> map_option (\<lambda>g. idval_t g (iv_s iv)) (f (iv_g iv)))"
    unfolding e im_copy_ok(2) [OF fld(1)] fld(2)
    by (simp add: map_add_def im_new_find map_of_renamed [OF dist] look split: option.split)
qed

context poly_env
begin

lemma doMap_ok:
  assumes ok: "dom_ok E gen d" and ro: "reg_only d" and nb: "d_num_axis d \<noteq> -1"
    and f: "inj_on f {g. f g \<noteq> None}" and less: "\<And>g h. f g = Some h \<Longrightarrow> h < gen"
  obtains d' where "doMap E f d = Some d'" and "dom_ok E gen d'"
    and "wp_dom (d_poly d') = {h. \<exists>g \<in> wp_dom (d_poly d). f g = Some h}"
    and "\<And>i. im_find1 (d_idmap d') i = (case im_find1 (d_idmap d) i of None \<Rightarrow> None
      | Some iv \<Rightarrow> map_option (\<lambda>g. idval_t g (iv_s iv)) (f (iv_g iv)))"
    and "\<And>v \<rho> v'. models E d v \<rho> \<Longrightarrow> (\<And>g h. f g = Some h \<Longrightarrow> v' h = v g) \<Longrightarrow> models E d' v' \<rho>"
    and "d_num_axis d' = d_num_axis d"
proof -
  note found = that
  have w: "wp_ok (e_ppl E) (d_poly d)" and m: "im_ok (d_idmap d)" by (rule dom_okD [OF ok])+
  have inj_f: "g = h" if "f g = Some k" "f h = Some k" for g h k
    using inj_onD [OF f, of g h] that by simp
  have "inj_on f {g \<in> wp_dom (d_poly d). f g \<noteq> None}" using f by (rule inj_on_subset) auto
  then obtain p where p: "doMapPoly E f d = Some (d\<lparr>d_poly := p\<rparr>)" "wp_ok (e_ppl E) p"
    "wp_dom p = {h. \<exists>g \<in> wp_dom (d_poly d). f g = Some h}"
    "\<forall>v v'. v \<in> wsem (e_ppl E) (d_poly d) \<longrightarrow>
      (\<forall>g \<in> wp_dom (d_poly d). \<forall>h. f g = Some h \<longrightarrow> v' h = v g) \<longrightarrow> v' \<in> wsem (e_ppl E) p"
    by (rule doMapPoly_ok [OF w])
  let ?d = "d\<lparr>d_poly := p\<rparr>" and ?d' = "doMapIdents f (d\<lparr>d_poly := p\<rparr>)"
  have step: "iv_s iv = NO_STEP" if "im_find1 (d_idmap d) i = Some iv" for i iv
    using ro dom_okD(6) [OF ok that] that by (auto simp: reg_only_def mem_types_def)
  have inj: "i = j" if "im_find1 (d_idmap ?d) i = Some iv" "im_find1 (d_idmap ?d) j = Some jv"
    "f (iv_g iv) = Some g" "f (iv_g jv) = Some g" for i j iv jv g
  proof -
    have "iv_g iv = iv_g jv" using inj_f that(3,4) by blast
    moreover have "iv_s iv = iv_s jv" using step that(1,2) by simp
    ultimately have "iv = jv" by simp
    then show ?thesis using im_inj [OF m] that(1,2) by simp
  qed
  have m': "im_ok (d_idmap ?d)" using m by simp
  have idm: "im_ok (d_idmap ?d')" "\<And>i. im_find1 (d_idmap ?d') i = (case im_find1 (d_idmap d) i of None \<Rightarrow> None
      | Some iv \<Rightarrow> map_option (\<lambda>g. idval_t g (iv_s iv)) (f (iv_g iv)))"
  proof -
    show "im_ok (d_idmap ?d')" by (rule mapIdents_find(1) [OF m']) (rule inj)
    show "im_find1 (d_idmap ?d') i = (case im_find1 (d_idmap d) i of None \<Rightarrow> None
      | Some iv \<Rightarrow> map_option (\<lambda>g. idval_t g (iv_s iv)) (f (iv_g iv)))" for i
      using mapIdents_find(2) [OF m', of f i] inj by simp
  qed
  have "dom_ok E gen ?d'"
  proof -
    have rest: "d_poly ?d' = p" "d_victims ?d' = d_victims d" "d_num_axis ?d' = d_num_axis d"
      by (simp_all add: doMapIdents_def)
    have "wp_dom p \<subseteq> {..<gen}" using p(3) less by auto
    moreover have "iv_g iv' < gen \<and> (iv_s iv' = NO_STEP \<longleftrightarrow> id_type i \<noteq> ID_MEM_ADDR)"
      if "im_find1 (d_idmap ?d') i = Some iv'" for i iv'
      using that idm(2) [where i = i] less dom_okD(6) [OF ok, of i] by (auto split: option.splits)
    ultimately show ?thesis
      using idm(1) p(2) dom_okD(4) [OF ok] nb unfolding dom_ok_def rest by auto
  qed
  moreover have "models E ?d' v' \<rho>" if "models E d v \<rho>" "\<And>g h. f g = Some h \<Longrightarrow> v' h = v g" for v v' \<rho>
    using that p(4) idm(2)
    by (auto simp: models_def doMapIdents_def split: option.splits)
  moreover have "doMap E f d = Some ?d'" using p(1) by (simp add: doMap_def)
  moreover have "wp_dom (d_poly ?d') = {h. \<exists>g \<in> wp_dom (d_poly d). f g = Some h}"
    using p(3) by (simp add: doMapIdents_def)
  ultimately show thesis
    using idm(2) by (intro found [of ?d']) (simp_all, simp add: doMapIdents_def)
qed

end

subsection \<open>Unification of registers\<close>

text \<open>
  What the loop over the registers adds to the renaming \<open>t0\<close>: \<open>r\<close> is the mapping of
  the other state.
\<close>

definition renamed ::
  "'p env \<Rightarrow> (ident \<Rightarrow> idval option) \<Rightarrow> (ident \<times> idval) list \<Rightarrow> (guid, guid) htable \<Rightarrow> (guid, guid) htable \<Rightarrow> bool" where
  "renamed E r ps t0 t \<longleftrightarrow> ht_wf (hash_guid E) t \<and>
     (\<forall>g h. ht_find (hash_guid E) t g = Some h \<longrightarrow> ht_find (hash_guid E) t0 g = Some h \<or>
       (\<exists>i iv iv2. (i, iv) \<in> set ps \<and> r i = Some iv2 \<and> g = iv_g iv \<and> h = iv_g iv2)) \<and>
     (\<forall>g. ht_find (hash_guid E) t0 g \<noteq> None \<longrightarrow> ht_find (hash_guid E) t g \<noteq> None) \<and>
     (\<forall>i iv. (i, iv) \<in> set ps \<longrightarrow> r i \<noteq> None \<longrightarrow> ht_find (hash_guid E) t (iv_g iv) \<noteq> None)"

context poly_env
begin

lemma collect_total: "wp_ok (e_ppl E) w \<Longrightarrow> \<exists>vs. collectPolyVars E w = Some vs"
  by (rule constraints [of w]) (auto simp: collectPolyVars_def)

lemma independent_total:
  assumes ok: "wp_ok (e_ppl E) w"
  shows "\<exists>vs. independent_vars E w cs = Some vs"
proof -
  have "\<exists>vs. independent_vars E w cs = Some vs \<and> True"
    unfolding independent_vars_def
  proof (rule foldM_total)
    fix v :: guid and indep :: oset
    obtain w' where f: "wp_filter_lambda (e_ppl E) (\<lambda>g. g = v \<or> g \<in> set indep) w = Some w'" "wp_ok (e_ppl E) w'"
      using filter_lambda [OF ok] by metis
    obtain ks where "wp_constraints (e_ppl E) w' = Some ks" using constraints [OF f(2)] by metis
    then show "\<exists>t. (do { temp \<leftarrow> wp_filter_lambda (e_ppl E) (\<lambda>g. g = v \<or> g \<in> set indep) w;
        cs \<leftarrow> wp_constraints (e_ppl E) temp;
        Some (if List.find is_equality cs = None then os_insert v indep else indep) }) = Some t \<and> True"
      using f(1) by simp
  qed simp
  then show ?thesis by blast
qed

lemma identify_nothing:
  assumes ok: "dom_ok E gen d" and ro: "reg_only d"
  shows "identifyPolyVars E d vars indep t ID_MEM_ADDR = Some t"
proof -
  have one: "identify_one E d indep ID_MEM_ADDR v step t = Some t" for v step
  proof (cases "isVarMapped d v step")
    case True
    then obtain i where i: "im_find2 (d_idmap d) (idval_t v step) = Some i"
      by (auto simp: isVarMapped_def im_has2_def im_find2_def ht_hasKey_def ht_at_def)
    then have "im_find1 (d_idmap d) i = Some (idval_t v step)"
      using im_ok_inv [OF dom_okD(1) [OF ok]] by blast
    then have "id_type i \<noteq> ID_MEM_ADDR" using ro by (auto simp: reg_only_def mem_types_def)
    then show ?thesis using True i by (simp add: identify_one_def getIdent_def)
  qed (simp add: identify_one_def)
  have "foldM (identify_one E d indep ID_MEM_ADDR v) steps t = Some t" for v steps
    by (induction steps) (simp_all add: one)
  then show ?thesis unfolding identifyPolyVars_def by (induction vars) simp_all
qed

lemma same_nothing:
  assumes ok: "im_ok (d_idmap (u_left u))" and ro: "reg_only (u_left u)"
  shows "same_variables E u = Some u"
proof -
  have "foldM (same_one E) ps (u, rm) = Some (u, rm)"
    if "fst ` set ps \<subseteq> set (im_pairs (d_idmap (u_left u)))" for ps rm
    using that
  proof (induction ps)
    case (Cons p ps)
    obtain i iv j jv where p: "p = ((i, iv), (j, jv))" by (cases p; cases "fst p"; cases "snd p") auto
    have "im_find1 (d_idmap (u_left u)) i = Some iv" using Cons.prems im_pairs_iff [OF ok] by (auto simp: p)
    then have "id_type i \<notin> set mem_types" using ro by (auto simp: reg_only_def)
    then have "same_one E p (u, rm) = Some (u, rm)" by (simp add: same_one_def p)
    then show ?case using Cons by simp
  qed simp
  then show ?thesis by (auto simp: same_variables_def)
qed

lemma unify_memory_nothing:
  assumes l: "dom_ok E gen l" "reg_only l" and r: "dom_ok E gen r" "reg_only r"
    and common: "wp_dom (d_poly l) \<inter> wp_dom (d_poly r) \<noteq> {}"
    and u: "u_left u = l" "u_right u = r"
  shows "unify_memory E avcreate u = Some u"
proof -
  note wl = dom_okD(2) [OF l(1)] and wr = dom_okD(2) [OF r(1)]
  obtain vl vr where v: "collectPolyVars E (d_poly l) = Some vl" "collectPolyVars E (d_poly r) = Some vr"
    using collect_total [OF wl] collect_total [OF wr] by auto
  obtain p where p: "wp_hull (e_ppl E) (d_poly l) (d_poly r) = Some p" "wp_ok (e_ppl E) p"
    using hull [OF wl wr common] by metis
  obtain vs where vs: "independent_vars E p (os_intersection vl vr) = Some vs" using independent_total [OF p(2)] by blast
  have "same_variables E u = Some u" by (rule same_nothing) (use l u dom_okD(1) [OF l(1)] in simp_all)
  moreover have "u\<lparr>u_left := l, u_right := r\<rparr> = u" using u by simp
  ultimately show ?thesis
    unfolding unify_memory_def u v p(1) vs identify_nothing [OF l] identify_nothing [OF r]
    by (simp add: inverse_forms_def doMatchGlobals_def v p(1) vs identify_nothing [OF l] identify_nothing [OF r])
qed

text \<open>Without locations there are no avatars to remove, and a settled state stays as it is.\<close>

lemma avatars_nothing:
  assumes ok: "dom_ok E gen d" and ro: "reg_only d"
  shows "doRemoveUselessAvatars E d = Some d" and "doRemoveAllAvatars d = Some d"
proof -
  have mem: "id_type i \<noteq> ID_MEM_ADDR" if "(i, iv) \<in> set (im_pairs (d_idmap d))" for i iv
    using that ro im_pairs_iff [OF dom_okD(1) [OF ok]] by (auto simp: reg_only_def mem_types_def)
  have skip: "foldM (useless_avatar E) js (d, ks) = Some (d, ks)" if "\<forall>i \<in> set js. id_type i \<noteq> ID_MEM_ADDR" for js ks
    using that by (induction js) (simp_all add: useless_avatar_def)
  have "foldM (useless_avatar E) (map fst (im_pairs (d_idmap d))) (d, []) = Some (d, [])"
    by (rule skip) (use mem in auto)
  then show "doRemoveUselessAvatars E d = Some d" by (simp add: doRemoveUselessAvatars_def)
  have "concat (map (\<lambda>(i, iv). if id_type i = ID_MEM_ADDR \<and> \<not> hasIdent d (Ident (id_num i) ID_MEM_VAL)
      then mem_idents (id_num i) else []) (im_pairs (d_idmap d))) = []"
    using mem by (auto split: if_splits)
  then show "doRemoveAllAvatars d = Some d" by (simp only: doRemoveAllAvatars_def foldM.simps)
qed

lemma finalize_nothing: "\<not> isBottom E d \<Longrightarrow> d_victims d = [] \<Longrightarrow> doFinalizeUpdate E d = Some d"
  by (simp add: doFinalizeUpdate_def)

lemma finalize_shape:
  assumes "doFinalizeUpdate E d = Some m"
  shows "d_victims m = []" and "reg_only d \<Longrightarrow> reg_only m"
proof -
  have "reg_only (dom_bottom E)" by (simp add: reg_only_def dom_bottom_def)
  then show "d_victims m = []" "reg_only d \<Longrightarrow> reg_only m"
    using assms by (auto simp: doFinalizeUpdate_def setBottom_def bindE reg_only_def split: if_splits) (simp_all add: dom_bottom_def)
qed

lemma unify_avcreate:
  assumes l: "dom_ok E gen l" "reg_only l" "\<not> isBottom E l" "d_victims l = []" and r: "dom_ok E gen r" "reg_only r"
    and common: "wp_dom (d_poly l) \<inter> wp_dom (d_poly r) \<noteq> {}"
  shows "doUnify E False avcreate l r gen = doUnify E False False l r gen"
  using avatars_nothing [OF l(1,2)] finalize_nothing [OF l(3,4)] unify_memory_nothing [OF l(1,2) r common]
  by (simp add: doUnify_def)

text \<open>The renaming: the variable of a register in one state becomes its variable in the other.\<close>

lemma renamedD:
  assumes "renamed E r ps t0 t"
  shows "ht_find (hash_guid E) t g = Some h \<Longrightarrow> ht_find (hash_guid E) t0 g = None \<Longrightarrow>
      \<exists>i iv iv2. (i, iv) \<in> set ps \<and> r i = Some iv2 \<and> g = iv_g iv \<and> h = iv_g iv2"
    and "(i, iv) \<in> set ps \<Longrightarrow> r i = Some iv2 \<Longrightarrow> \<exists>h. ht_find (hash_guid E) t (iv_g iv) = Some h"
proof -
  assume "ht_find (hash_guid E) t g = Some h" "ht_find (hash_guid E) t0 g = None"
  then show "\<exists>i iv iv2. (i, iv) \<in> set ps \<and> r i = Some iv2 \<and> g = iv_g iv \<and> h = iv_g iv2"
    using assms unfolding renamed_def by (metis option.distinct(1))
next
  assume "(i, iv) \<in> set ps" "r i = Some iv2"
  then have "ht_find (hash_guid E) t (iv_g iv) \<noteq> None" using assms unfolding renamed_def by blast
  then show "\<exists>h. ht_find (hash_guid E) t (iv_g iv) = Some h" by blast
qed

lemma renamed_skip:
  assumes "r i = None" and t: "renamed E r ps t0 t"
  shows "renamed E r ((i, iv) # ps) t0 t"
  unfolding renamed_def
proof (intro conjI allI impI)
  show "ht_find (hash_guid E) t (iv_g jv) \<noteq> None" if "(j, jv) \<in> set ((i, iv) # ps)" "r j \<noteq> None" for j jv
  proof -
    have "(j, jv) \<in> set ps" using that assms(1) by auto
    then show ?thesis using t that(2) unfolding renamed_def by blast
  qed
  show "ht_find (hash_guid E) t0 g = Some h \<or>
      (\<exists>j jv iv2. (j, jv) \<in> set ((i, iv) # ps) \<and> r j = Some iv2 \<and> g = iv_g jv \<and> h = iv_g iv2)"
    if "ht_find (hash_guid E) t g = Some h" for g h
    using t that unfolding renamed_def by (meson list.set_intros(2))
qed (use t in \<open>unfold renamed_def, blast\<close>)+

lemma renamed_add:
  assumes t: "renamed E r ps t1 t" and t1: "ht_find (hash_guid E) t1 = (ht_find (hash_guid E) t0)(iv_g iv \<mapsto> iv_g iv2)"
    and i: "r i = Some iv2"
  shows "renamed E r ((i, iv) # ps) t0 t"
  unfolding renamed_def
proof (intro conjI allI impI)
  have known: "ht_find (hash_guid E) t g \<noteq> None" if "g = iv_g iv \<or> ht_find (hash_guid E) t0 g \<noteq> None" for g
  proof -
    have "ht_find (hash_guid E) t1 g \<noteq> None" using that t1 by auto
    then show ?thesis using t unfolding renamed_def by blast
  qed
  then show "ht_find (hash_guid E) t g \<noteq> None" if "ht_find (hash_guid E) t0 g \<noteq> None" for g using that by blast
  show "ht_find (hash_guid E) t (iv_g jv) \<noteq> None" if "(j, jv) \<in> set ((i, iv) # ps)" "r j \<noteq> None" for j jv
  proof (cases "(j, jv) \<in> set ps")
    case True
    then show ?thesis using t that(2) unfolding renamed_def by blast
  next
    case False
    then show ?thesis using that(1) known by auto
  qed
  show "ht_find (hash_guid E) t0 g = Some h \<or>
      (\<exists>j jv iv2. (j, jv) \<in> set ((i, iv) # ps) \<and> r j = Some iv2 \<and> g = iv_g jv \<and> h = iv_g iv2)"
    if "ht_find (hash_guid E) t g = Some h" for g h
  proof -
    have "ht_find (hash_guid E) t1 g = Some h \<or>
        (\<exists>j jv iv2. (j, jv) \<in> set ps \<and> r j = Some iv2 \<and> g = iv_g jv \<and> h = iv_g iv2)"
      using t that unfolding renamed_def by blast
    then show ?thesis using t1 i by (auto split: if_splits)
  qed
qed (use t in \<open>unfold renamed_def, blast\<close>)

lemma rename_fold:
  assumes "ht_wf (hash_guid E) (u_rename u)"
    and "\<And>i iv. (i, iv) \<in> set ps \<Longrightarrow> id_type i \<notin> set mem_types \<and> iv_s iv = NO_STEP"
    and "\<And>i iv. im_find1 (d_idmap (u_right u)) i = Some iv \<Longrightarrow> id_type i \<notin> set mem_types \<Longrightarrow> iv_s iv = NO_STEP"
  shows "\<exists>t. foldM (rename_register E) ps u = Some (u\<lparr>u_rename := t\<rparr>) \<and>
    renamed E (im_find1 (d_idmap (u_right u))) ps (u_rename u) t"
  using assms
proof (induction ps arbitrary: u)
  case Nil
  then show ?case by (intro exI [of _ "u_rename u"]) (simp add: renamed_def)
next
  case (Cons p ps)
  obtain i iv where p: "p = (i, iv)" by (cases p)
  have here: "id_type i \<notin> set mem_types" "iv_s iv = NO_STEP" using Cons.prems(2) p by auto
  have rest: "id_type j \<notin> set mem_types \<and> iv_s jv = NO_STEP" if "(j, jv) \<in> set ps" for j jv
    using Cons.prems(2) [of j jv] that by simp
  show ?case
  proof (cases "im_find1 (d_idmap (u_right u)) i")
    case None
    then have "rename_register E p u = Some u" using here by (simp add: rename_register_def p)
    moreover have "\<exists>t. foldM (rename_register E) ps u = Some (u\<lparr>u_rename := t\<rparr>) \<and>
        renamed E (im_find1 (d_idmap (u_right u))) ps (u_rename u) t"
      by (rule Cons.IH [OF Cons.prems(1) rest]) (use Cons.prems(3) in blast)+
    ultimately show ?thesis
      using renamed_skip [where r = "im_find1 (d_idmap (u_right u))", OF None] by (auto simp: p)
  next
    case (Some iv2)
    let ?u = "u_add E (iv_g iv) (iv_g iv2) u"
    have step: "rename_register E p u = Some ?u"
      using here Some Cons.prems(3) [OF Some] by (simp add: rename_register_def p)
    have right: "u_right ?u = u_right u" by (simp add: u_add_def)
    have add: "ht_wf (hash_guid E) (u_rename ?u)"
      "ht_find (hash_guid E) (u_rename ?u) = (ht_find (hash_guid E) (u_rename u))(iv_g iv \<mapsto> iv_g iv2)"
      using hashing.make_find [OF hash_guid_hashing Cons.prems(1)] hashing.make_wf [OF hash_guid_hashing Cons.prems(1)]
      by (simp_all add: u_add_def ht_add_def)
    have "renamed E (im_find1 (d_idmap (u_right u))) (p # ps) (u_rename u) t"
      if t: "renamed E (im_find1 (d_idmap (u_right u))) ps (u_rename ?u) t" for t
      unfolding p by (rule renamed_add [where r = "im_find1 (d_idmap (u_right u))", OF t add(2) Some])
    moreover have "?u\<lparr>u_rename := t\<rparr> = u\<lparr>u_rename := t\<rparr>" for t by (simp add: u_add_def)
    moreover have "\<exists>t. foldM (rename_register E) ps ?u = Some (?u\<lparr>u_rename := t\<rparr>) \<and>
        renamed E (im_find1 (d_idmap (u_right ?u))) ps (u_rename ?u) t"
      by (rule Cons.IH [OF add(1) rest]) (use Cons.prems(3) in \<open>unfold right, blast\<close>)+
    ultimately show ?thesis using step unfolding right by auto
  qed
qed

lemma unify_regs:
  assumes l: "dom_ok E gen l" "reg_only l" "d_num_axis l \<noteq> -1"
    and r: "dom_ok E gen r" "reg_only r"
    and common: "noPtr \<or> wp_dom (d_poly l) \<inter> wp_dom (d_poly r) \<noteq> {}"
  obtains l' where "doUnify E noPtr False l r gen = Some (l', r, gen)" and "dom_ok E gen l'"
    and "wp_dom (d_poly l') = {h. \<exists>g \<in> wp_dom (d_poly l). partners l r g h}"
    and "\<And>i. im_find1 (d_idmap l') i =
      (if im_find1 (d_idmap l) i = None then None else im_find1 (d_idmap r) i)"
    and "\<And>v \<rho>. models E l v \<rho> \<Longrightarrow> \<exists>v'. models E l' v' \<rho> \<and> (\<forall>g h. partners l r g h \<longrightarrow> v' h = v g)"
    and "d_num_axis l' = d_num_axis l"
proof -
  note found = that
  have step: "iv_s iv = NO_STEP \<and> id_type i \<notin> set mem_types"
    if "im_find1 (d_idmap d) i = Some iv" "dom_ok E gen d" "reg_only d" for d :: "'p domain" and i iv
    using that dom_okD(6) [OF that(2,1)] by (auto simp: reg_only_def mem_types_def)
  have m: "im_ok (d_idmap l)" "im_ok (d_idmap r)" by (rule dom_okD(1) [OF l(1)], rule dom_okD(1) [OF r(1)])
  let ?u = "\<lparr>u_left = l, u_right = r, u_rename = ht_new default_size, u_gen = gen\<rparr>"
  have mem: "(if noPtr then Some ?u else unify_memory E False ?u) = Some ?u"
    by (cases noPtr) (use unify_memory_nothing [OF l(1,2) r, of ?u] common in simp_all)
  have wf: "ht_wf (hash_guid E) (u_rename ?u)" by (simp add: ht_wf_new [OF default_size_ok])
  have "\<exists>t. foldM (rename_register E) (im_pairs (d_idmap l)) ?u = Some (?u\<lparr>u_rename := t\<rparr>) \<and>
      renamed E (im_find1 (d_idmap (u_right ?u))) (im_pairs (d_idmap l)) (u_rename ?u) t"
    by (rule rename_fold [OF wf])
      (use im_pairs_iff [OF m(1)] step [OF _ l(1,2)] step [OF _ r] in auto)
  then obtain t where t: "foldM (rename_register E) (im_pairs (d_idmap l)) ?u = Some (?u\<lparr>u_rename := t\<rparr>)"
    "renamed E (im_find1 (d_idmap r)) (im_pairs (d_idmap l)) (ht_new default_size) t" by auto
  have empty: "ht_find (hash_guid E) (ht_new default_size) g = (None :: guid option)" for g
    by (simp add: hashing.find_new [OF hash_guid_hashing default_size_ok])
  have pairs: "(i, iv) \<in> set (im_pairs (d_idmap l)) \<longleftrightarrow> im_find1 (d_idmap l) i = Some iv" for i iv
    by (rule im_pairs_iff [OF m(1)])
  let ?f = "map_guid E t"
  have uniq: "i = j" if "im_find1 (d_idmap d) i = Some iv" "im_find1 (d_idmap d) j = Some jv" "iv_g iv = iv_g jv"
    "dom_ok E gen d" "reg_only d" for d :: "'p domain" and i j iv jv
  proof -
    have "iv = jv" using step [OF that(1,4,5)] step [OF that(2,4,5)] that(3) by simp
    then show ?thesis using im_inj [OF dom_okD(1) [OF that(4)]] that(1,2) by blast
  qed
  have f: "?f g = Some h \<longleftrightarrow> partners l r g h" for g h
  proof
    assume "?f g = Some h"
    then show "partners l r g h"
      using renamedD(1) [OF t(2) _ empty, of g h] by (auto simp: map_guid_def partners_def pairs)
  next
    assume "partners l r g h"
    then obtain i iv iv2 where i: "im_find1 (d_idmap l) i = Some iv" "im_find1 (d_idmap r) i = Some iv2"
      "g = iv_g iv" "h = iv_g iv2" by (auto simp: partners_def)
    then obtain h' where h': "ht_find (hash_guid E) t g = Some h'" using renamedD(2) [OF t(2)] pairs by blast
    then obtain j jv jv2 where j: "im_find1 (d_idmap l) j = Some jv" "im_find1 (d_idmap r) j = Some jv2"
      "g = iv_g jv" "h' = iv_g jv2"
      using renamedD(1) [OF t(2) h' empty] pairs by blast
    have "i = j" using uniq [OF i(1) j(1) _ l(1,2)] i(3) j(3) by simp
    then have "h = h'" using i(2,4) j(2,4) by simp
    then show "?f g = Some h" using h' by (simp add: map_guid_def)
  qed
  have inv: "g = g'" if gh: "partners l r g h" "partners l r g' h" for g g' h
  proof -
    obtain i iv iv2 where i: "im_find1 (d_idmap l) i = Some iv" "im_find1 (d_idmap r) i = Some iv2"
      "g = iv_g iv" "h = iv_g iv2" using gh(1) by (auto simp: partners_def)
    obtain j jv jv2 where j: "im_find1 (d_idmap l) j = Some jv" "im_find1 (d_idmap r) j = Some jv2"
      "g' = iv_g jv" "h = iv_g jv2" using gh(2) by (auto simp: partners_def)
    have "i = j" using uniq [OF i(2) j(2) _ r] i(4) j(4) by simp
    then show ?thesis using i(1,3) j(1,3) by simp
  qed
  have inj: "inj_on ?f {g. ?f g \<noteq> None}"
  proof (rule inj_onI)
    fix g g'
    assume "g \<in> {g. ?f g \<noteq> None}" and e: "?f g = ?f g'"
    then obtain h where h: "?f g = Some h" by blast
    then have "?f g' = Some h" using e by simp
    with h show "g = g'" unfolding f by (rule inv)
  qed
  have less: "h < gen" if "?f g = Some h" for g h
    using that dom_okD(5) [OF r(1)] by (auto simp: f partners_def)
  show thesis
  proof (rule doMap_ok [OF l inj], erule less)
  fix l'
  assume l': "doMap E ?f l = Some l'" "dom_ok E gen l'"
    "wp_dom (d_poly l') = {h. \<exists>g \<in> wp_dom (d_poly l). ?f g = Some h}"
    "\<And>i. im_find1 (d_idmap l') i = (case im_find1 (d_idmap l) i of None \<Rightarrow> None
      | Some iv \<Rightarrow> map_option (\<lambda>g. idval_t g (iv_s iv)) (?f (iv_g iv)))"
    "\<And>v \<rho> v'. models E l v \<rho> \<Longrightarrow> (\<And>g h. ?f g = Some h \<Longrightarrow> v' h = v g) \<Longrightarrow> models E l' v' \<rho>"
    "d_num_axis l' = d_num_axis l"
  have "doUnify E noPtr False l r gen = Some (l', r, gen)"
    using mem t(1) l'(1) by (auto simp: doUnify_def)
  moreover have "im_find1 (d_idmap l') i =
      (if im_find1 (d_idmap l) i = None then None else im_find1 (d_idmap r) i)" for i
  proof (cases "im_find1 (d_idmap l) i")
    case (Some iv)
    show ?thesis
    proof (cases "im_find1 (d_idmap r) i")
      case None
      have "\<not> partners l r (iv_g iv) h" for h
        using uniq [OF _ Some _ l(1,2)] None by (auto simp: partners_def)
      then have "?f (iv_g iv) = None" using f [of "iv_g iv"] by fastforce
      then show ?thesis using Some None l'(4) by simp
    next
      case r2: (Some iv2)
      then have "?f (iv_g iv) = Some (iv_g iv2)" using f Some by (auto simp: partners_def)
      moreover have "iv_s iv = NO_STEP" "iv_s iv2 = NO_STEP" using step [OF Some l(1,2)] step [OF r2 r] by auto
      ultimately show ?thesis using Some r2 l'(4) by simp
    qed
  qed (simp add: l'(4))
  moreover have "\<exists>v'. models E l' v' \<rho> \<and> (\<forall>g h. partners l r g h \<longrightarrow> v' h = v g)" if v: "models E l v \<rho>" for v \<rho>
  proof -
    define v' where "v' h = v (THE g. partners l r g h)" for h
    have v': "v' h = v g" if "partners l r g h" for g h
    proof -
      have "(THE g. partners l r g h) = g" using that inv by blast
      then show ?thesis by (simp add: v'_def)
    qed
    then show ?thesis using l'(5) [OF v, of v'] f by blast
  qed
  ultimately show thesis using l'(2,3,6) f by (intro found [of l']) simp_all
  qed
qed

subsection \<open>Joining and widening\<close>

lemma merge_covers_both:
  assumes d: "dom_ok E gen d" "reg_only d" "\<not> isBottom E d"
    and r: "dom_ok E gen r" "reg_only r" "\<not> isBottom E r"
    and common: "wp_dom (d_poly d) \<inter> wp_dom (d_poly r) \<noteq> {}" and reg: "share_register d r"
    and av: "avcreate \<Longrightarrow> d_victims d = []"
  obtains d' where "onMerge E d r widen avcreate gen = Some (d', gen)" and "dom_ok E gen d'"
    and "dom_sem E d \<subseteq> dom_sem E d'" and "dom_sem E r \<subseteq> dom_sem E d'"
    and "reg_only d'" and "d_victims d' = []"
proof -
  note found = that
  obtain d0 where d0: "dom_copy d = Some d0" "dom_ok E gen d0" "im_find1 (d_idmap d0) = im_find1 (d_idmap d)"
    "d_poly d0 = d_poly d" "d_num_axis d0 = d_num_axis d" "d_victims d0 = d_victims d" using dom_copy_ok [OF d(1)] by metis
  obtain r0 where r0: "dom_copy r = Some r0" "dom_ok E gen r0" "im_find1 (d_idmap r0) = im_find1 (d_idmap r)"
    "d_poly r0 = d_poly r" using dom_copy_ok [OF r(1)] by metis
  have ro: "reg_only d0" "reg_only r0" using d(2) r(2) d0(3) r0(3) by (simp_all add: reg_only_def)
  have nb: "d_num_axis d0 \<noteq> -1" using d(3) d0(5) by (simp add: isBottom_def)
  have same: "doUnify E False avcreate d0 r0 gen = doUnify E False False d0 r0 gen"
    using unify_avcreate [OF d0(2) ro(1) _ _ r0(2) ro(2)] d(3) d0(4-6) av common r0(4) by (cases avcreate) (simp_all add: isBottom_def)
  have cm: "False \<or> wp_dom (d_poly d0) \<inter> wp_dom (d_poly r0) \<noteq> {}" using common d0(4) r0(4) by simp
  show thesis
  proof (rule unify_regs [OF d0(2) ro(1) nb r0(2) ro(2) cm])
    fix l
    assume l: "doUnify E False False d0 r0 gen = Some (l, r0, gen)" "dom_ok E gen l"
      "wp_dom (d_poly l) = {h. \<exists>g \<in> wp_dom (d_poly d0). partners d0 r0 g h}"
      "\<And>i. im_find1 (d_idmap l) i = (if im_find1 (d_idmap d0) i = None then None else im_find1 (d_idmap r0) i)"
      "\<And>v \<rho>. models E d0 v \<rho> \<Longrightarrow> \<exists>v'. models E l v' \<rho> \<and> (\<forall>g h. partners d0 r0 g h \<longrightarrow> v' h = v g)"
      "d_num_axis l = d_num_axis d0"
    let ?l = "merge_bounds E r0 l"
    have wl: "wp_ok (e_ppl E) (d_poly l)" by (rule dom_okD [OF l(2)])
    have wr: "wp_ok (e_ppl E) (d_poly r0)" by (rule dom_okD [OF r0(2)])
    have part: "partners d0 r0 = partners d r" using d0(3) r0(3) by (simp add: partners_def fun_eq_iff)
    have ne: "wp_dom (d_poly l) \<inter> wp_dom (d_poly r0) \<noteq> {}"
      using reg unfolding share_register_def l(3) part d0(4) r0(4) by blast
    obtain p where p: "wp_hull (e_ppl E) (d_poly l) (d_poly r0) = Some p" "wp_ok (e_ppl E) p"
      "wp_dom p = wp_dom (d_poly l) \<inter> wp_dom (d_poly r0)"
      "wsem (e_ppl E) (d_poly l) \<union> wsem (e_ppl E) (d_poly r0) \<subseteq> wsem (e_ppl E) p" by (rule hull [OF wl wr ne])
    obtain q where q: "(if widen then wp_h79 (e_ppl E) p (d_poly r0) else Some p) = Some q" "wp_ok (e_ppl E) q"
      "wp_dom q = wp_dom p" "wsem (e_ppl E) p \<subseteq> wsem (e_ppl E) q"
    proof (cases widen)
      case True
      have "wp_dom p \<inter> wp_dom (d_poly r0) \<noteq> {}" using ne p(3) by blast
      then obtain q where "wp_h79 (e_ppl E) p (d_poly r0) = Some q" "wp_ok (e_ppl E) q"
        "wp_dom q = wp_dom p \<inter> wp_dom (d_poly r0)" "wsem (e_ppl E) p \<subseteq> wsem (e_ppl E) q"
        by (rule h79 [OF p(2) wr])
      then show thesis using that [of q] True p(3) by auto
    qed (use that [of p] p in simp)
    let ?m = "?l\<lparr>d_poly := q\<rparr>"
    have ok: "dom_ok E gen ?m"
      using l(2) q(2,3) p(3) nb l(6) unfolding dom_ok_def by auto
    have cover: "models E ?m v \<rho>" if "v \<in> wsem (e_ppl E) (d_poly l) \<union> wsem (e_ppl E) (d_poly r0)"
      "\<And>i iv. im_find1 (d_idmap l) i = Some iv \<Longrightarrow> v (iv_g iv) = \<rho> i" for v \<rho>
    proof -
      have "v \<in> wsem (e_ppl E) q" using that(1) p(4) q(4) by blast
      then show ?thesis using that(2) by (simp add: models_def)
    qed
    show thesis
    proof (rule finalize_ok [OF ok])
      fix m
      assume m: "doFinalizeUpdate E ?m = Some m" "dom_ok E gen m" "\<And>v \<rho>. models E ?m v \<rho> \<Longrightarrow> models E m v \<rho>"
      show thesis
      proof (rule found [of "merge_bounds E r0 m"])
        show "onMerge E d r widen avcreate gen = Some (merge_bounds E r0 m, gen)"
          using d(3) r(3) d0(1) r0(1) l(1) p(1) q(1) m(1) same by (simp add: onMerge_def)
        show "dom_ok E gen (merge_bounds E r0 m)" using m(2) by (simp add: merge_bounds_ok)
        have "reg_only ?m" using l(4) ro(1) by (auto simp: reg_only_def split: if_splits)
        then show "reg_only (merge_bounds E r0 m)" using finalize_shape(2) [OF m(1)] by (simp add: reg_only_def)
        show "d_victims (merge_bounds E r0 m) = []" using finalize_shape(1) [OF m(1)] by simp
        show "dom_sem E d \<subseteq> dom_sem E (merge_bounds E r0 m)"
        proof
          fix \<rho>
          assume "\<rho> \<in> dom_sem E d"
          then obtain v where "models E d v \<rho>" by (auto simp: dom_sem_def)
          then have "models E d0 v \<rho>" using models_cong [of d0 d] d0(3,4) by simp
          then obtain v' where "models E l v' \<rho>" using l(5) by blast
          then have "models E ?m v' \<rho>" by (intro cover) (auto simp: models_def)
          from m(3) [OF this] show "\<rho> \<in> dom_sem E (merge_bounds E r0 m)"
            by (intro models_dom_sem [of _ _ v']) (simp add: merge_bounds_models)
        qed
        show "dom_sem E r \<subseteq> dom_sem E (merge_bounds E r0 m)"
        proof
          fix \<rho>
          assume "\<rho> \<in> dom_sem E r"
          then obtain v where v: "models E r v \<rho>" by (auto simp: dom_sem_def)
          have "models E ?m v \<rho>"
          proof (rule cover)
            show "v \<in> wsem (e_ppl E) (d_poly l) \<union> wsem (e_ppl E) (d_poly r0)" using v r0(4) by (simp add: models_def)
            show "v (iv_g iv) = \<rho> i" if "im_find1 (d_idmap l) i = Some iv" for i iv
              using that v unfolding l(4) r0(3) by (simp add: models_def split: if_splits)
          qed
          from m(3) [OF this] show "\<rho> \<in> dom_sem E (merge_bounds E r0 m)"
            by (intro models_dom_sem [of _ _ v]) (simp add: merge_bounds_models)
        qed
      qed
    qed
  qed
qed

text \<open>Joining with an unreachable state gives the other one.\<close>

lemma merge_bottom:
  assumes "dom_ok E gen d" and "isBottom E r"
  obtains d' where "onMerge E d r widen avcreate gen = Some (d', gen)" and "dom_ok E gen d'"
    and "dom_sem E d' = dom_sem E d"
proof -
  obtain d' where d': "dom_copy d = Some d'" "dom_ok E gen d'"
    "im_find1 (d_idmap d') = im_find1 (d_idmap d)" "d_poly d' = d_poly d" using dom_copy_ok [OF assms(1)] by metis
  show thesis
    by (rule that [of d']) (use d' assms(2) models_cong [of d' d] in \<open>simp_all add: onMerge_def dom_sem_def\<close>)
qed

subsection \<open>Equality\<close>

lemma unify_no_common:
  assumes "wp_ok (e_ppl E) (d_poly l)" and "wp_ok (e_ppl E) (d_poly r)"
    and "wp_dom (d_poly l) \<inter> wp_dom (d_poly r) = {}"
  shows "doUnify E False False l r gen = None"
  using no_common_variable(1) [OF assms] collect_total [OF assms(1)] collect_total [OF assms(2)]
  by (auto simp: doUnify_def unify_memory_def)

lemma im_finite_dom: "im_ok m \<Longrightarrow> finite (dom (im_find1 m))"
proof -
  assume "im_ok m"
  then have "finite (dom (ht_find hash_ident (id2guid m)))"
    by (intro hident.tab.finite_dom) (simp add: im_ok_def)
  moreover have "im_find1 m = ht_find hash_ident (id2guid m)" by (simp add: im_finds fun_eq_iff)
  ultimately show ?thesis by simp
qed

lemma equals_included:
  assumes d: "dom_ok E gen d" "reg_only d" and b: "dom_ok E gen b" "reg_only b"
    and eq: "dom_equals E d b gen = Some (True, gen')"
  shows "dom_sem E d \<subseteq> dom_sem E b" and "\<not> isBottom E d \<Longrightarrow> hasIdent d = hasIdent b"
proof -
  obtain d0 where d0: "dom_copy d = Some d0" "dom_ok E gen d0" "im_find1 (d_idmap d0) = im_find1 (d_idmap d)"
    "d_poly d0 = d_poly d" "d_num_axis d0 = d_num_axis d" using dom_copy_ok [OF d(1)] by metis
  obtain b0 where b0: "dom_copy b = Some b0" "dom_ok E gen b0" "im_find1 (d_idmap b0) = im_find1 (d_idmap b)"
    "d_poly b0 = d_poly b" using dom_copy_ok [OF b(1)] by metis
  have ro: "reg_only d0" "reg_only b0" using d(2) b(2) d0(3) b0(3) by (simp_all add: reg_only_def)
  let ?dom = "\<lambda>d. dom (im_find1 (d_idmap d))"
  have all: "dom_sem E d \<subseteq> dom_sem E b \<and> hasIdent d = hasIdent b" if nb: "\<not> isBottom E d"
  proof -
    have na: "d_num_axis d0 \<noteq> -1" using nb d0(5) by (simp add: isBottom_def)
    obtain cd cb gen1 where c: "im_count (d_idmap d) = Some cd" "im_count (d_idmap b) = Some cb" "cd = cb"
      and u1: "\<exists>l r. doUnify E True False d0 b0 gen = Some (l, r, gen1)"
      and full: "equals_full E d b cd cb gen1 = Some (True, gen')"
      using eq d0(1) b0(1) by (auto simp: dom_equals_def bindE Let_def split: if_splits)
    have "\<exists>l. doUnify E True False d0 b0 gen = Some (l, b0, gen)"
      using unify_regs [OF d0(2) ro(1) na b0(2) ro(2), of True] by metis
    with u1 have g1: "gen1 = gen" by auto
    obtain l r gen2 where u2: "doUnify E False False d0 b0 gen = Some (l, r, gen2)"
      and cl: "im_count (d_idmap l) = Some cd" and cr: "im_count (d_idmap r) = Some cb"
      and weq: "wp_equals (e_ppl E) (d_poly l) (d_poly r) = Some True"
      using full d0(1) b0(1) by (auto simp: equals_full_def g1 bindE split: if_splits)
    have "wp_dom (d_poly d0) \<inter> wp_dom (d_poly b0) \<noteq> {}"
    proof
      assume "wp_dom (d_poly d0) \<inter> wp_dom (d_poly b0) = {}"
      from unify_no_common [OF dom_okD(2) [OF d0(2)] dom_okD(2) [OF b0(2)] this] show False using u2 by simp
    qed
    then have cm: "False \<or> wp_dom (d_poly d0) \<inter> wp_dom (d_poly b0) \<noteq> {}" by simp
    have "\<exists>l'. doUnify E False False d0 b0 gen = Some (l', b0, gen) \<and> dom_ok E gen l' \<and>
        (\<forall>i. im_find1 (d_idmap l') i =
          (if im_find1 (d_idmap d0) i = None then None else im_find1 (d_idmap b0) i)) \<and>
        (\<forall>v \<rho>. models E d0 v \<rho> \<longrightarrow> (\<exists>v'. models E l' v' \<rho>))"
      by (rule unify_regs [OF d0(2) ro(1) na b0(2) ro(2) cm]) blast
    then have l: "r = b0" "dom_ok E gen l"
      "\<And>i. im_find1 (d_idmap l) i = (if im_find1 (d_idmap d0) i = None then None else im_find1 (d_idmap b0) i)"
      "\<And>v \<rho>. models E d0 v \<rho> \<Longrightarrow> \<exists>v'. models E l v' \<rho>"
      using u2 by auto
    have dl: "?dom l = ?dom d \<inter> ?dom b" using l(3) d0(3) b0(3) by (auto simp: dom_def)
    have fin: "finite (?dom d)" "finite (?dom b)"
      by (rule im_finite_dom [OF dom_okD(1) [OF d(1)]], rule im_finite_dom [OF dom_okD(1) [OF b(1)]])
    have "card (?dom l) = card (?dom d)" "card (?dom d) = card (?dom b)"
      using cl c im_count_total [OF dom_okD(1) [OF l(2)]] im_count_total [OF dom_okD(1) [OF d(1)]]
        im_count_total [OF dom_okD(1) [OF b(1)]] by simp_all
    note cards = this
    have "?dom l = ?dom d" by (rule card_subset_eq [OF fin(1)]) (use cards dl in simp_all)
    moreover have "?dom l = ?dom b" by (rule card_subset_eq [OF fin(2)]) (use cards dl in simp_all)
    ultimately have same: "?dom d = ?dom b" by simp
    have look: "im_find1 (d_idmap l) = im_find1 (d_idmap b)"
    proof
      fix i
      have "im_find1 (d_idmap d) i = None \<longleftrightarrow> im_find1 (d_idmap b) i = None"
        using same by (metis domIff)
      then show "im_find1 (d_idmap l) i = im_find1 (d_idmap b) i" unfolding l(3) d0(3) b0(3) by simp
    qed
    have "wsem (e_ppl E) (d_poly l) = wsem (e_ppl E) (d_poly b)"
      using equals_sem [OF dom_okD(2) [OF l(2)] dom_okD(2) [OF b0(2)]] weq l(1) b0(4) by simp
    then have "models E l = models E b" using look by (simp add: models_def fun_eq_iff)
    moreover have "models E d = models E d0" using models_cong [of d0 d] d0(3,4) by simp
    ultimately have "dom_sem E d \<subseteq> dom_sem E b" using l(4) by (auto simp: dom_sem_def)
    moreover have "hasIdent d = hasIdent b"
      using same by (auto simp: fun_eq_iff hasIdent_iff dom_def set_eq_iff)
    ultimately show ?thesis by blast
  qed
  show "dom_sem E d \<subseteq> dom_sem E b"
  proof (cases "isBottom E d")
    case True
    have "wsem (e_ppl E) (d_poly d) = {}" using True d(1) empty_sound by (auto simp: isBottom_def dom_ok_def)
    then show ?thesis by (simp add: dom_sem_def models_def)
  qed (use all in blast)
  show "\<not> isBottom E d \<Longrightarrow> hasIdent d = hasIdent b" using all by blast
qed

text \<open>Two unreachable states cannot be compared: the unification joins their empty polyhedra.\<close>

lemma bottom_equals_aborts: "dom_equals E (dom_bottom E) (dom_bottom E) gen = None"
proof -
  let ?b = "dom_bottom E" and ?c = "(dom_bottom E)\<lparr>d_idmap := im_copy im_new\<rparr>"
  have poly: "d_poly ?b = wp_new (e_ppl E) True" and maps: "d_idmap ?b = im_new" by (simp_all add: dom_bottom_def)
  have copy: "dom_copy ?b = Some ?c"
    using im_equal_iff [OF im_copy_ok(1) [OF im_new_ok] im_new_ok] im_copy_ok [OF im_new_ok]
    by (simp add: dom_copy_def maps)
  have no: "p \<notin> set (im_pairs (im_copy im_new))" for p
    using im_pairs_iff [OF im_copy_ok(1) [OF im_new_ok]] im_copy_ok(2) [OF im_new_ok] by (cases p) simp
  have none: "im_pairs (im_copy im_new) = []"
  proof (rule ccontr)
    assume "im_pairs (im_copy im_new) \<noteq> []"
    then have "hd (im_pairs (im_copy im_new)) \<in> set (im_pairs (im_copy im_new))" by simp
    with no show False by blast
  qed
  have cnt: "im_count im_new = Some 0" "im_count (im_copy im_new) = Some 0"
    using im_count_total [OF im_new_ok] im_count_total [OF im_copy_ok(1) [OF im_new_ok]] im_copy_ok(2) [OF im_new_ok]
    by (simp_all add: dom_def)
  have pairs: "im_pairs im_new = []" by (simp add: im_pairs_def im_new_def)
  have vars: "wp_variable_count (e_ppl E) (wp_new (e_ppl E) True) = 0"
    by (simp add: wp_variable_count_def wp_new_def empty0_dim)
  have "doUnify E True False ?c ?c gen = Some (?c, ?c, gen)"
    by (simp add: doUnify_def none doMap_def doMapPoly_def doMapIdents_def poly vars)
  moreover have "doUnify E False False ?c ?c gen = None"
    by (rule unify_no_common) (simp_all add: poly new_ok, simp add: wp_dom_def wp_new_def)
  ultimately show ?thesis
    by (simp add: dom_equals_def equals_full_def copy cnt maps pairs Let_def)
qed

end

end
