(* ===== verification/Header_Sound.thy ===== *)
theory Header_Sound
  imports Analysis_Run Merge_Sound
begin

text \<open>
  Loop headers on states over registers: the state that \<open>processHeader\<close> computes covers what
  enters the loop and what comes back, and the next visit finds a header that still covers its
  entry. \<open>plain\<close> states are well-formed, over registers, with nothing to project out;
  \<open>mergeable\<close> ones have a variable in common, which \<open>combine\<close> needs in order not to abort.
\<close>

definition plain :: "'p env \<Rightarrow> guid \<Rightarrow> 'p domain \<Rightarrow> bool" where
  "plain E gen d \<longleftrightarrow> dom_ok E gen d \<and> reg_only d \<and> d_victims d = []"

definition mergeable :: "'p env \<Rightarrow> 'p domain \<Rightarrow> 'p domain \<Rightarrow> bool" where
  "mergeable E d r \<longleftrightarrow> isBottom E d \<or> isBottom E r \<or>
     wp_dom (d_poly d) \<inter> wp_dom (d_poly r) \<noteq> {} \<and> share_register d r"

definition header_ok :: "'p env \<Rightarrow> guid \<Rightarrow> 'p header_state \<Rightarrow> bool" where
  "header_ok E gen h \<longleftrightarrow> plain E gen (hs_state h) \<and> plain E gen (hs_entry h) \<and>
     dom_sem E (hs_entry h) \<subseteq> dom_sem E (hs_state h)"

lemma plain_mono: "plain E gen d \<Longrightarrow> gen \<le> gen' \<Longrightarrow> plain E gen' d"
  using dom_ok_mono by (auto simp: plain_def)

lemma plain_setBound [simp]: "plain E gen (setBound E k b d) = plain E gen d"
  and isBottom_setBound [simp]: "isBottom E (setBound E k b d) = isBottom E d"
  and models_setBound [simp]: "models E (setBound E k b d) = models E d"
  and dom_sem_setBound [simp]: "dom_sem E (setBound E k b d) = dom_sem E d"
  and hasIdent_setBound [simp]: "hasIdent (setBound E k b d) = hasIdent d"
  and mergeable_setBound [simp]: "mergeable E (setBound E k b d) r = mergeable E d r"
  by (simp_all add: plain_def dom_ok_def reg_only_def isBottom_def models_def dom_sem_def mergeable_def
      share_register_def partners_def hasIdent_def fun_eq_iff)

context poly_env
begin

lemma bottom_sem: "dom_ok E gen d \<Longrightarrow> isBottom E d \<Longrightarrow> dom_sem E d = {}"
proof -
  assume "dom_ok E gen d" "isBottom E d"
  then have "wsem (e_ppl E) (d_poly d) = {}" using empty_sound by (auto simp: isBottom_def dom_ok_def)
  then show ?thesis by (simp add: dom_sem_def models_def)
qed

lemma copy_plain:
  assumes "plain E gen d"
  obtains d' where "dom_copy d = Some d'" and "plain E gen d'" and "dom_sem E d' = dom_sem E d"
proof -
  obtain d' where d': "dom_copy d = Some d'" "dom_ok E gen d'" "im_find1 (d_idmap d') = im_find1 (d_idmap d)"
    "d_poly d' = d_poly d" "d_victims d' = d_victims d"
    using dom_copy_ok assms unfolding plain_def by metis
  show thesis
    by (rule that [OF d'(1)]) (use d' assms models_cong [of d' d] in \<open>simp_all add: plain_def reg_only_def dom_sem_def\<close>)
qed

lemma merge_plain:
  assumes d: "plain E gen d" and r: "plain E gen r" and m: "mergeable E d r"
  obtains s where "onMerge E d r widen avcreate gen = Some (s, gen)" and "plain E gen s"
    and "dom_sem E d \<subseteq> dom_sem E s" and "dom_sem E r \<subseteq> dom_sem E s"
proof -
  note found = that
  consider "isBottom E r" | "\<not> isBottom E r" "isBottom E d" | "\<not> isBottom E r" "\<not> isBottom E d" by blast
  then show thesis
  proof cases
    case 1
    obtain d' where "dom_copy d = Some d'" "plain E gen d'" "dom_sem E d' = dom_sem E d" by (rule copy_plain [OF d])
    then show thesis using found [of d'] 1 bottom_sem [of gen r] r by (simp add: onMerge_def plain_def)
  next
    case 2
    obtain r' where "dom_copy r = Some r'" "plain E gen r'" "dom_sem E r' = dom_sem E r" by (rule copy_plain [OF r])
    then show thesis using found [of r'] 2 bottom_sem [of gen d] d by (simp add: onMerge_def plain_def)
  next
    case 3
    then have c: "wp_dom (d_poly d) \<inter> wp_dom (d_poly r) \<noteq> {}" "share_register d r" using m by (auto simp: mergeable_def)
    have dd: "dom_ok E gen d" "reg_only d" "d_victims d = []" and rr: "dom_ok E gen r" "reg_only r"
      using d r by (simp_all add: plain_def)
    show thesis
      by (rule merge_covers_both [OF dd(1,2) 3(2) rr 3(1) c, of avcreate]) (use dd(3) in \<open>auto simp: plain_def intro: found\<close>)
  qed
qed

text \<open>A comparison of reachable states takes no fresh variable.\<close>

lemma equals_gen:
  assumes d: "dom_ok E gen d" "reg_only d" and b: "dom_ok E gen b" "reg_only b" and nb: "\<not> isBottom E d"
    and eq: "dom_equals E d b gen = Some (x, gen')"
  shows "gen' = gen"
proof -
  obtain d0 where d0: "dom_copy d = Some d0" "dom_ok E gen d0" "im_find1 (d_idmap d0) = im_find1 (d_idmap d)"
    "d_poly d0 = d_poly d" "d_num_axis d0 = d_num_axis d" using dom_copy_ok [OF d(1)] by metis
  obtain b0 where b0: "dom_copy b = Some b0" "dom_ok E gen b0" "im_find1 (d_idmap b0) = im_find1 (d_idmap b)"
    "d_poly b0 = d_poly b" using dom_copy_ok [OF b(1)] by metis
  have ro: "reg_only d0" "reg_only b0" using d(2) b(2) d0(3) b0(3) by (simp_all add: reg_only_def)
  have na: "d_num_axis d0 \<noteq> -1" using nb d0(5) by (simp add: isBottom_def)
  have keep: "g = gen" if "doUnify E p False d0 b0 gen = Some (l, r, g)" for p l r g
  proof (cases "p \<or> wp_dom (d_poly d0) \<inter> wp_dom (d_poly b0) \<noteq> {}")
    case True
    have "\<exists>l'. doUnify E p False d0 b0 gen = Some (l', b0, gen)"
      by (rule unify_regs [OF d0(2) ro(1) na b0(2) ro(2) True]) blast
    then show ?thesis using that by simp
  next
    case False
    then show ?thesis using unify_no_common [OF dom_okD(2) [OF d0(2)] dom_okD(2) [OF b0(2)]] that by simp
  qed
  have full: "g = gen" if "equals_full E d b cd cb gen = Some (y, g)" for cd cb y g
    using that d0(1) b0(1) by (auto simp: equals_full_def bindE split: if_splits dest!: keep)
  show ?thesis
    using eq d0(1) b0(1) by (auto simp: dom_equals_def bindE Let_def split: if_splits dest!: keep full)
qed

lemma loop_bound_total: "isBottom E d \<or> hasIdent d (Ident header ID_LOOP) \<Longrightarrow> \<exists>b. getLoopBound E d header = Some b"
  by (cases "getRange E d (iv_g (the (im_find1 (d_idmap d) (Ident header ID_LOOP))))")
    (auto simp: getLoopBound_def getRangeIdent_def getVar_def hasIdent_iff)

lemma header_update_ok:
  assumes e: "plain E gen entry" "\<not> isBottom E entry"
    and old: "\<And>h. ht_find hash_int hs header = Some h \<Longrightarrow> header_ok E gen h"
    and upd: "header_update E D header entry hs gen = Some (h, gen')"
  shows "gen' = gen" and "header_ok E gen h" and "dom_sem E entry \<subseteq> dom_sem E (hs_state h)"
proof -
  have "gen' = gen \<and> header_ok E gen h \<and> dom_sem E entry \<subseteq> dom_sem E (hs_state h)"
  proof (cases "ht_find hash_int hs header")
    case None
    have "dom_equals E entry (dom_bottom E) gen = Some (False, gen)"
      using e by (simp add: dom_equals_def plain_def) (simp add: isBottom_def dom_bottom_def)
    then show ?thesis using upd None e by (auto simp: header_update_def header_ok_def)
  next
    case (Some h0)
    note ok = old [OF Some]
    obtain eq where eq: "dom_equals E entry (hs_entry h0) gen = Some (eq, gen')"
      and h: "h = (if \<not> eq then \<lparr>hs_avcreate = True, hs_state = entry, hs_entry = entry\<rparr> else h0)"
      using upd Some by (auto simp: header_update_def bindE)
    have p: "dom_ok E gen entry" "reg_only entry" "dom_ok E gen (hs_entry h0)" "reg_only (hs_entry h0)"
      using e(1) ok by (simp_all add: plain_def header_ok_def)
    have "dom_sem E entry \<subseteq> dom_sem E (hs_entry h0)" if eq
      by (rule equals_included(1) [OF p, where gen' = gen']) (use eq that in simp)
    then show ?thesis using equals_gen [OF p e(2) eq] ok e(1) h by (auto simp: header_ok_def)
  qed
  then show "gen' = gen" "header_ok E gen h" "dom_sem E entry \<subseteq> dom_sem E (hs_state h)" by blast+
qed

text \<open>Every step after the update of the header returns, and the new state covers both inputs.\<close>

lemma header_covers:
  assumes inp: "header_inputs (man_domain E man) c v st (an_gen an) = Some (entry, back, gen)"
    and e: "plain E gen entry" "\<not> isBottom E entry" and b: "plain E gen back"
    and old: "\<And>h. ht_find hash_int hs (block_id c v) = Some h \<Longrightarrow> header_ok E gen h"
    and upd: "header_update E (man_domain E man) (block_id c v) entry hs gen = Some (h, gen')"
    and m: "mergeable E back (hs_state h)"
    and counter: "isBottom E back \<or> hasIdent back (Ident (block_id c v) ID_LOOP)"
    and lbs: "om_ok (an_bounds an)" and hs: "ht_ok hash_int hs"
  obtains s hs' an' h' where "processHeader E man c v st hs an = Some (s, hs', an')" and "plain E (an_gen an') s"
    and "dom_sem E entry \<subseteq> dom_sem E s" and "dom_sem E back \<subseteq> dom_sem E s"
    and "ht_find hash_int hs' (block_id c v) = Some h'" and "header_ok E (an_gen an') h'" and "hs_state h' = s"
proof -
  note found = that
  let ?H = "block_id c v"
  note h = header_update_ok [OF e old upd]
  obtain bound where bound: "getLoopBound E back ?H = Some bound" using loop_bound_total [OF counter] by blast
  let ?b = "setBound E (nat ?H) bound back"
  have bok: "dom_ok E gen ?b" using b plain_setBound [of E gen] unfolding plain_def by blast
  have bc: "isBottom E ?b \<or> hasIdent ?b (Ident ?H ID_LOOP)" using counter by simp
  obtain lbs' where lbs': "computeParamBound E ?b ?H (an_bounds an) = Some lbs'" by (rule param_bound [OF bok bc lbs])
  obtain s where s: "onMerge E ?b (hs_state h) True (hs_avcreate h) gen = Some (s, gen)" "plain E gen s"
    "dom_sem E ?b \<subseteq> dom_sem E s" "dom_sem E (hs_state h) \<subseteq> dom_sem E s"
    by (rule merge_plain [of gen ?b "hs_state h" True "hs_avcreate h"]) (use b h(2) m in \<open>simp_all add: header_ok_def\<close>)
  let ?h = "h\<lparr>hs_state := s, hs_avcreate := hs_avcreate h \<and> isBottom E ?b\<rparr>"
  have an: "an_gen (header_context ?H an) = an_gen an" "an_bounds (header_context ?H an) = an_bounds an"
    by (simp_all add: header_context_def Let_def)
  have run: "\<exists>an'. processHeader E man c v st hs an = Some (s, ht_assign hash_int ?H ?h hs, an') \<and> an_gen an' = gen"
    using inp upd bound lbs' s(1) h(1) by (simp add: processHeader_def Let_def an m_widening_def)
  then obtain an' where an': "processHeader E man c v st hs an = Some (s, ht_assign hash_int ?H ?h hs, an')" "an_gen an' = gen"
    by blast
  show thesis
  proof (rule found [OF an'(1)])
    show "ht_find hash_int (ht_assign hash_int ?H ?h hs) ?H = Some ?h"
      by (simp add: hint.assign_put hint.put_find [OF ht_ok_wf [OF hs]])
    show "header_ok E (an_gen an') ?h" using h(2) s(2,4) an'(2) by (auto simp: header_ok_def)
  qed (use s h(3) an'(2) in auto)
qed

end

end
