(* ===== verification/PPL_Lists.thy ===== *)
theory PPL_Lists
  imports PPL_Interface
begin

text \<open>
  A small polyhedra library that obeys the laws of \<open>ppl_laws\<close>, so that the hypotheses of
  the development hold of something that computes: a polyhedron is a dimension and a list of
  constraints, projection is Gauss and Fourier-Motzkin elimination, optimisation eliminates
  every dimension but the objective. It is not a model of the library the program links with;
  its hull and widening keep the constraints of one argument that hold in the other.
\<close>

subsection \<open>Arithmetic of linear expressions\<close>

fun add_lists :: "int list \<Rightarrow> int list \<Rightarrow> int list" where
  "add_lists [] ys = ys"
| "add_lists xs [] = xs"
| "add_lists (x # xs) (y # ys) = (x + y) # add_lists xs ys"

definition pl_plus :: "plin \<Rightarrow> plin \<Rightarrow> plin" where
  "pl_plus a b = (add_lists (fst a) (fst b), snd a + snd b)"

definition pl_times :: "int \<Rightarrow> plin \<Rightarrow> plin" where
  "pl_times k a = (map ((*) k) (fst a), k * snd a)"

lemma add_lists_length [simp]: "length (add_lists xs ys) = max (length xs) (length ys)"
  by (induction xs ys rule: add_lists.induct) auto

lemma pl_coef_Cons: "pl_coef (x # xs, k) i = (case i of 0 \<Rightarrow> x | Suc j \<Rightarrow> pl_coef (xs, k) j)"
  by (simp split: nat.split)

lemma add_lists_coef: "pl_coef (add_lists xs ys, k) i = pl_coef (xs, l) i + pl_coef (ys, m) i"
proof (induction xs ys arbitrary: i rule: add_lists.induct)
  case (3 x xs y ys)
  then show ?case by (simp only: add_lists.simps pl_coef_Cons split: nat.split) simp
qed simp_all

lemma pl_coef_plus [simp]: "pl_coef (pl_plus a b) i = pl_coef a i + pl_coef b i"
  using add_lists_coef [of "fst a" "fst b" _ i "snd a" "snd b"]
  by (simp add: pl_plus_def del: pl_coef.simps)

lemma pl_coef_times [simp]: "pl_coef (pl_times k a) i = k * pl_coef a i"
  by (cases a) (simp add: pl_times_def)

lemma pl_plus_times_simps [simp]:
  "snd (pl_plus a b) = snd a + snd b" "snd (pl_times k a) = k * snd a"
  "length (fst (pl_plus a b)) = max (length (fst a)) (length (fst b))"
  "length (fst (pl_times k a)) = length (fst a)"
  by (simp_all add: pl_plus_def pl_times_def)

lemma pl_eval_plus [simp]: "pl_eval x (pl_plus a b) = pl_eval x a + pl_eval x b"
proof -
  let ?n = "max (length (fst a)) (length (fst b))"
  show ?thesis
    using pl_eval_coef [of "pl_plus a b" ?n x] pl_eval_coef [of a ?n x] pl_eval_coef [of b ?n x]
    by (simp add: distrib_right sum.distrib)
qed

lemma pl_eval_times [simp]: "pl_eval x (pl_times k a) = of_int k * pl_eval x a"
  using pl_eval_coef [of "pl_times k a" "length (fst a)" x] pl_eval_coef [of a "length (fst a)" x]
  by (simp add: distrib_left sum_distrib_left mult.assoc)

subsection \<open>Elimination of a dimension\<close>

fun pc_times_plus :: "int \<Rightarrow> pcons \<Rightarrow> plin \<Rightarrow> pcons" where
  "pc_times_plus k (PEq e) f = PEq (pl_plus (pl_times k e) f)"
| "pc_times_plus k (PGe e) f = PGe (pl_plus (pl_times k e) f)"

definition pc_coef :: "pcons \<Rightarrow> dim \<Rightarrow> int" where
  "pc_coef c d = pl_coef (pc_expr c) d"

text \<open>Use an equality that mentions \<open>d\<close> to remove \<open>d\<close> from another constraint.\<close>

definition gauss :: "dim \<Rightarrow> plin \<Rightarrow> pcons \<Rightarrow> pcons" where
  "gauss d e c =
     (let k = pl_coef e d; m = pc_coef c d in
      if m = 0 then c else pc_times_plus \<bar>k\<bar> c (pl_times (- sgn k * m) e))"

definition pc_combine :: "dim \<Rightarrow> pcons \<Rightarrow> pcons \<Rightarrow> pcons" where
  "pc_combine d p q =
     PGe (pl_plus (pl_times (- pc_coef q d) (pc_expr p)) (pl_times (pc_coef p d) (pc_expr q)))"

definition pl_elim :: "dim \<Rightarrow> pcons list \<Rightarrow> pcons list" where
  "pl_elim d cs =
     (case find (\<lambda>c. pc_is_equality c \<and> pc_coef c d \<noteq> 0) cs of
        Some c \<Rightarrow> map (gauss d (pc_expr c)) (remove1 c cs)
      | None \<Rightarrow> filter (\<lambda>c. pc_coef c d = 0) cs @
          [pc_combine d p q. p \<leftarrow> filter (\<lambda>c. pc_coef c d > 0) cs, q \<leftarrow> filter (\<lambda>c. pc_coef c d < 0) cs])"

lemma psat_times_plus:
  "0 < k \<Longrightarrow> pl_eval x f = 0 \<Longrightarrow> psat x c \<Longrightarrow> psat x (pc_times_plus k c f)"
  by (cases c) auto

lemma pl_elim_sound:
  assumes "\<forall>c \<in> set cs. psat x c" and "c \<in> set (pl_elim d cs)"
  shows "psat x c"
proof (cases "find (\<lambda>c. pc_is_equality c \<and> pc_coef c d \<noteq> 0) cs")
  case None
  then have ineq: "psat x c' \<and> pc_coef c' d \<noteq> 0 \<Longrightarrow> pl_eval x (pc_expr c') \<ge> 0"
    if "c' \<in> set cs" for c'
    by (cases c') auto
  show ?thesis
  proof (cases "c \<in> set (filter (\<lambda>c. pc_coef c d = 0) cs)")
    case False
    then obtain p q where pq: "p \<in> set cs" "q \<in> set cs" "0 < pc_coef p d" "pc_coef q d < 0" "c = pc_combine d p q"
      using assms(2) None by (auto simp: pl_elim_def)
    then have "pl_eval x (pc_expr p) \<ge> 0" "pl_eval x (pc_expr q) \<ge> 0"
      using ineq assms(1) by auto
    moreover have "rat_of_int (- pc_coef q d) \<ge> 0" "rat_of_int (pc_coef p d) \<ge> 0"
      using pq(3,4) by simp_all
    ultimately have "0 \<le> rat_of_int (- pc_coef q d) * pl_eval x (pc_expr p) +
        rat_of_int (pc_coef p d) * pl_eval x (pc_expr q)"
      by (intro add_nonneg_nonneg mult_nonneg_nonneg)
    then show ?thesis using pq(5) by (simp add: pc_combine_def)
  qed (use assms(1) in auto)
next
  case (Some e)
  then have e: "e \<in> set cs" "pc_is_equality e" "pc_coef e d \<noteq> 0"
    by (auto simp: find_Some_iff)
  have "pl_eval x (pc_expr c') = 0" if "pc_is_equality c'" "psat x c'" for c'
    using that by (cases c') simp_all
  then have "pl_eval x (pc_expr e) = 0" using assms(1) e(1,2) by simp
  moreover obtain c' where "c' \<in> set cs" "c = gauss d (pc_expr e) c'"
    using assms(2) Some set_remove1_subset [of e cs] by (auto simp: pl_elim_def)
  ultimately show ?thesis
    using assms(1) e(3) by (auto simp: gauss_def Let_def pc_coef_def intro!: psat_times_plus)
qed

lemma pl_elims_sound:
  assumes "\<forall>c \<in> set cs. psat x c" and "c \<in> set (fold pl_elim ds cs)"
  shows "psat x c"
  using assms
proof (induction ds arbitrary: cs)
  case (Cons d ds)
  then show ?case using pl_elim_sound by (metis fold_simps(2))
qed simp

subsection \<open>Queries\<close>

type_synonym clist = "nat \<times> pcons list"

fun pc_contradiction :: "pcons \<Rightarrow> bool" where
  "pc_contradiction (PEq e) = (list_all ((=) 0) (fst e) \<and> snd e \<noteq> 0)"
| "pc_contradiction (PGe e) = (list_all ((=) 0) (fst e) \<and> snd e < 0)"

definition cl_cons :: "clist \<Rightarrow> pcons list" where
  "cl_cons p = filter (\<lambda>c. pc_dim c \<le> fst p) (snd p)"

definition cl_is_empty :: "clist \<Rightarrow> bool" where
  "cl_is_empty p = list_ex pc_contradiction (fold pl_elim [0..<fst p] (cl_cons p))"

text \<open>The bounds that the constraints put on an expression, as fractions.\<close>

definition cl_project :: "clist \<Rightarrow> plin \<Rightarrow> nat \<times> pcons list" where
  "cl_project p e =
     (let n = max (fst p) (length (fst e))
      in (n, filter (\<lambda>c. list_all (\<lambda>i. pc_coef c i = 0) [0..<n] \<and> pc_dim c \<le> Suc n)
        (fold pl_elim [0..<n] (PEq (pl_add_term (-1) n e) # cl_cons p))))"

fun upper_bound :: "nat \<Rightarrow> pcons \<Rightarrow> (int \<times> int) list" where
  "upper_bound n (PGe e) = (if pl_coef e n < 0 then [(snd e, - pl_coef e n)] else [])"
| "upper_bound n (PEq e) = (if pl_coef e n = 0 then []
     else [(- sgn (pl_coef e n) * snd e, \<bar>pl_coef e n\<bar>)])"

fun lower_bound :: "nat \<Rightarrow> pcons \<Rightarrow> (int \<times> int) list" where
  "lower_bound n (PGe e) = (if pl_coef e n > 0 then [(- snd e, pl_coef e n)] else [])"
| "lower_bound n (PEq e) = (if pl_coef e n = 0 then []
     else [(- sgn (pl_coef e n) * snd e, \<bar>pl_coef e n\<bar>)])"

fun best :: "(int \<times> int \<Rightarrow> int \<times> int \<Rightarrow> bool) \<Rightarrow> (int \<times> int) list \<Rightarrow> (int \<times> int \<times> bool) option" where
  "best r [] = None"
| "best r (b # bs) = (case best r bs of
     None \<Rightarrow> Some (fst b, snd b, True)
   | Some (n, d, _) \<Rightarrow> if r b (n, d) then Some (fst b, snd b, True) else Some (n, d, True))"

definition cl_maximize :: "clist \<Rightarrow> plin \<Rightarrow> (int \<times> int \<times> bool) option" where
  "cl_maximize p e = (let (n, cs) = cl_project p e in
     best (\<lambda>(a, b) (c, d). a * d < c * b) (concat (map (upper_bound n) cs)))"

definition cl_minimize :: "clist \<Rightarrow> plin \<Rightarrow> (int \<times> int \<times> bool) option" where
  "cl_minimize p e = (let (n, cs) = cl_project p e in
     best (\<lambda>(a, b) (c, d). a * d > c * b) (concat (map (lower_bound n) cs)))"

definition cl_nonneg :: "clist \<Rightarrow> plin \<Rightarrow> bool" where
  "cl_nonneg p e = (case cl_minimize p e of None \<Rightarrow> False | Some (n, d, _) \<Rightarrow> 0 \<le> n)"

fun cl_included :: "clist \<Rightarrow> pcons \<Rightarrow> bool" where
  "cl_included p (PGe e) = (cl_is_empty p \<or> cl_nonneg p e)"
| "cl_included p (PEq e) = (cl_is_empty p \<or> cl_nonneg p e \<and> cl_nonneg p (pl_times (-1) e))"

definition cl_add :: "clist \<Rightarrow> pcons \<Rightarrow> clist" where
  "cl_add p c = (fst p, List.insert c (snd p))"

text \<open>The constraints of one polyhedron, equalities split, that hold in another.\<close>

fun halves :: "pcons \<Rightarrow> pcons list" where
  "halves (PGe e) = [PGe e]"
| "halves (PEq e) = [PGe e, PGe (pl_times (-1) e)]"

definition cl_keep :: "clist \<Rightarrow> clist \<Rightarrow> pcons list" where
  "cl_keep p q = concat (map (\<lambda>c. if cl_included q c then [c] else filter (cl_included q) (halves c)) (cl_cons p))"

definition cl_rename :: "pfunc \<Rightarrow> nat \<Rightarrow> plin \<Rightarrow> plin" where
  "cl_rename f n e =
     fold (\<lambda>i r. case pf_maps f i of Some j \<Rightarrow> if pl_coef e i = 0 then r else pl_add_term (pl_coef e i) j r
       | None \<Rightarrow> r) [0..<n] ([], snd e)"

fun cl_rename_cons :: "pfunc \<Rightarrow> nat \<Rightarrow> pcons \<Rightarrow> pcons" where
  "cl_rename_cons f n (PGe e) = PGe (cl_rename f n e)"
| "cl_rename_cons f n (PEq e) = PEq (cl_rename f n e)"

definition cl_map :: "clist \<Rightarrow> pfunc \<Rightarrow> clist" where
  "cl_map p f =
     (if fst p = 0 then p
      else (nat (pf_max_in_codomain f + 1),
        map (cl_rename_cons f (fst p))
          (filter (\<lambda>c. list_all (\<lambda>i. pf_maps f i = None \<longrightarrow> pc_coef c i = 0) [0..<fst p])
            (fold pl_elim (filter (\<lambda>i. pf_maps f i = None) [0..<fst p]) (cl_cons p)))))"

definition clist_ppl :: "clist ppl" where
  "clist_ppl = \<lparr>
     pp_universe0 = (0, []),
     pp_empty0 = (0, [PEq ([], 1)]),
     pp_dim = fst,
     pp_minimized = cl_cons,
     pp_add = cl_add,
     pp_embed = (\<lambda>p n. (fst p + n, cl_cons p)),
     pp_map = cl_map,
     pp_is_empty = cl_is_empty,
     pp_is_universe = (\<lambda>p. cl_cons p = []),
     pp_included = cl_included,
     pp_disjoint = (\<lambda>p c. cl_is_empty (max (fst p) (pc_dim c), c # cl_cons p)),
     pp_maximize = cl_maximize,
     pp_minimize = cl_minimize,
     pp_intersection = (\<lambda>p q. (fst p, List.union (cl_cons p) (cl_cons q))),
     pp_hull = (\<lambda>p q. (fst p, List.union (cl_keep p q) (cl_keep q p))),
     pp_h79 = (\<lambda>p q. (fst p, cl_keep q p)),
     pp_equal = (\<lambda>p q. fst p = fst q \<and> list_all (cl_included q) (cl_cons p) \<and>
       list_all (cl_included p) (cl_cons q))\<rparr>"

subsection \<open>The laws hold\<close>

definition cl_sem :: "clist \<Rightarrow> point set" where
  "cl_sem p = {x. \<forall>c \<in> set (cl_cons p). psat x c}"

lemma clist_psem: "psem clist_ppl = cl_sem"
  by (simp add: psem_def cl_sem_def clist_ppl_def fun_eq_iff)

lemma cl_cons_dim: "c \<in> set (cl_cons p) \<Longrightarrow> pc_dim c \<le> fst p"
  by (simp add: cl_cons_def)

lemma pl_eval_no_coefs: "list_all ((=) 0) (fst e) \<Longrightarrow> pl_eval x e = of_int (snd e)"
  by (cases e) (auto simp: list_all_length intro!: sum.neutral)

lemma contradiction_unsat: "pc_contradiction c \<Longrightarrow> \<not> psat x c"
  by (cases c) (auto simp: pl_eval_no_coefs)

lemma cl_is_empty_sem: "cl_is_empty p \<Longrightarrow> cl_sem p = {}"
  using pl_elims_sound contradiction_unsat
  by (fastforce simp: cl_is_empty_def cl_sem_def list_ex_iff)

text \<open>A point of the polyhedron, extended by the value of the objective.\<close>

lemma cl_project_sound:
  assumes "cl_project p e = (n, cs)" and x: "x \<in> cl_sem p" and c: "c \<in> set cs"
  shows "psat (x(n := pl_eval x e)) c" and "pc_dim c \<le> Suc n" and "\<forall>i < n. pc_coef c i = 0"
proof -
  let ?y = "x(n := pl_eval x e)"
  have n: "n = max (fst p) (length (fst e))"
    and cs: "cs = filter (\<lambda>c. list_all (\<lambda>i. pc_coef c i = 0) [0..<n] \<and> pc_dim c \<le> Suc n)
        (fold pl_elim [0..<n] (PEq (pl_add_term (-1) n e) # cl_cons p))"
    using assms(1) by (auto simp: cl_project_def Let_def)
  have "pl_eval ?y e = pl_eval x e" using n by (intro pl_eval_cong) auto
  moreover have "psat ?y c'" if "c' \<in> set (cl_cons p)" for c'
  proof -
    have "psat ?y c' = psat x c'" using cl_cons_dim [OF that] n by (intro psat_cong) auto
    then show ?thesis using that x by (simp add: cl_sem_def)
  qed
  ultimately have "\<forall>c \<in> set (PEq (pl_add_term (-1) n e) # cl_cons p). psat ?y c" by simp
  then show "psat ?y c" using pl_elims_sound c cs by fastforce
  show "pc_dim c \<le> Suc n" "\<forall>i < n. pc_coef c i = 0"
    using c cs by (auto simp: list_all_iff)
qed

lemma cl_project_value:
  assumes "cl_project p e = (n, cs)" and x: "x \<in> cl_sem p" and c: "c \<in> set cs"
  shows "pl_eval (x(n := pl_eval x e)) (pc_expr c) =
    of_int (snd (pc_expr c)) + of_int (pl_coef (pc_expr c) n) * pl_eval x e"
  using pl_eval_coef [of "pc_expr c" "Suc n" "x(n := pl_eval x e)"] cl_project_sound [OF assms]
  by (simp add: pc_dim_def pc_coef_def)

lemma best_in: "best r bs = Some (n, d, b) \<Longrightarrow> (n, d) \<in> set bs"
  by (induction bs arbitrary: n d b) (auto split: option.splits if_splits)

lemma sgn_div_bound:
  fixes k c :: int and v :: rat
  assumes "of_int c + of_int k * v = 0" and "k \<noteq> 0"
  shows "v * of_int \<bar>k\<bar> = of_int (- sgn k * c)"
proof (cases "k > 0")
  case True
  then show ?thesis using assms(1) by (simp add: algebra_simps add_eq_0_iff)
next
  case False
  then show ?thesis using assms by (simp add: algebra_simps add_eq_0_iff)
qed

lemma cl_maximize_sem:
  assumes m: "cl_maximize p e = Some (num, den, b)"
  shows "0 < den" and "x \<in> cl_sem p \<Longrightarrow> pl_eval x e * of_int den \<le> of_int num"
proof -
  obtain n cs where pr: "cl_project p e = (n, cs)" by (cases "cl_project p e")
  then obtain c where c: "c \<in> set cs" "(num, den) \<in> set (upper_bound n c)"
    using best_in m by (fastforce simp: cl_maximize_def)
  show "0 < den" using c(2) by (cases c) (auto split: if_splits)
  assume x: "x \<in> cl_sem p"
  show "pl_eval x e * of_int den \<le> of_int num"
    using cl_project_sound(1) [OF pr x c(1)] cl_project_value [OF pr x c(1)] c(2)
      sgn_div_bound [of "snd (pc_expr c)" "pl_coef (pc_expr c) n" "pl_eval x e"]
    by (cases c) (auto simp del: pl_coef.simps simp: algebra_simps split: if_splits)
qed

lemma cl_minimize_sem:
  assumes m: "cl_minimize p e = Some (num, den, b)"
  shows "0 < den" and "x \<in> cl_sem p \<Longrightarrow> of_int num \<le> pl_eval x e * of_int den"
proof -
  obtain n cs where pr: "cl_project p e = (n, cs)" by (cases "cl_project p e")
  then obtain c where c: "c \<in> set cs" "(num, den) \<in> set (lower_bound n c)"
    using best_in m by (fastforce simp: cl_minimize_def)
  show "0 < den" using c(2) by (cases c) (auto split: if_splits)
  assume x: "x \<in> cl_sem p"
  show "of_int num \<le> pl_eval x e * of_int den"
    using cl_project_sound(1) [OF pr x c(1)] cl_project_value [OF pr x c(1)] c(2)
      sgn_div_bound [of "snd (pc_expr c)" "pl_coef (pc_expr c) n" "pl_eval x e"]
    by (cases c) (auto simp del: pl_coef.simps simp: algebra_simps split: if_splits)
qed

lemma cl_nonneg_sem: "cl_nonneg p e \<Longrightarrow> x \<in> cl_sem p \<Longrightarrow> 0 \<le> pl_eval x e"
proof -
  assume a: "cl_nonneg p e" "x \<in> cl_sem p"
  then obtain n d b where m: "cl_minimize p e = Some (n, d, b)" "0 \<le> n"
    by (auto simp: cl_nonneg_def split: option.splits)
  have "0 \<le> pl_eval x e * of_int d" using cl_minimize_sem(2) [OF m(1) a(2)] m(2) by (meson of_int_0_le_iff order_trans)
  then show ?thesis using cl_minimize_sem(1) [OF m(1)] by (simp add: zero_le_mult_iff)
qed

lemma cl_included_sem: "cl_included p c \<Longrightarrow> x \<in> cl_sem p \<Longrightarrow> psat x c"
  using cl_is_empty_sem [of p] cl_nonneg_sem [of p]
  by (cases c) (fastforce dest: cl_nonneg_sem)+

lemma pf_fits_less:
  assumes "pf_fits n f" and "i < n" and "pf_maps f i = Some j"
  shows "j < nat (pf_max_in_codomain f + 1)"
proof -
  have "j \<in> {j. \<exists>i < n. pf_maps f i = Some j}" using assms(2,3) by blast
  then have "j \<in> {j. int j \<le> pf_max_in_codomain f}" using assms(1) by (simp only: pf_fits_def)
  then show ?thesis by (simp add: zless_nat_eq_int_zless)
qed

lemma pf_fits_0:
  assumes "pf_fits 0 f"
  shows "pf_max_in_codomain f = - 1"
proof -
  have "{j. \<exists>i < (0::nat). pf_maps f i = Some j} = {j. int j \<le> pf_max_in_codomain f}"
    using assms unfolding pf_fits_def by blast
  then have "(0::nat) \<notin> {j. int j \<le> pf_max_in_codomain f}" by auto
  moreover have "- 1 \<le> pf_max_in_codomain f" using assms by (simp add: pf_fits_def)
  ultimately show ?thesis by simp
qed

lemma cl_rename_fold:
  assumes fits: "pf_fits n f" and m: "m \<le> n"
  shows "pl_eval y (fold (\<lambda>i r. case pf_maps f i of
        Some j \<Rightarrow> if pl_coef e i = 0 then r else pl_add_term (pl_coef e i) j r | None \<Rightarrow> r) [0..<m] ([], k)) =
      of_int k + (\<Sum>i < m. of_int (pl_coef e i) * (case pf_maps f i of Some j \<Rightarrow> y j | None \<Rightarrow> 0))"
    and "length (fst (fold (\<lambda>i r. case pf_maps f i of
        Some j \<Rightarrow> if pl_coef e i = 0 then r else pl_add_term (pl_coef e i) j r | None \<Rightarrow> r) [0..<m] ([], k)))
      \<le> nat (pf_max_in_codomain f + 1)"
proof -
  show "pl_eval y (fold (\<lambda>i r. case pf_maps f i of
        Some j \<Rightarrow> if pl_coef e i = 0 then r else pl_add_term (pl_coef e i) j r | None \<Rightarrow> r) [0..<m] ([], k)) =
      of_int k + (\<Sum>i < m. of_int (pl_coef e i) * (case pf_maps f i of Some j \<Rightarrow> y j | None \<Rightarrow> 0))"
    by (induction m) (simp_all del: pl_coef.simps split: option.split)
  note pf_fits_less [OF fits]
  then show "length (fst (fold (\<lambda>i r. case pf_maps f i of
        Some j \<Rightarrow> if pl_coef e i = 0 then r else pl_add_term (pl_coef e i) j r | None \<Rightarrow> r) [0..<m] ([], k)))
      \<le> nat (pf_max_in_codomain f + 1)"
    using m by (induction m) (auto simp del: pl_coef.simps simp: Suc_le_eq split: option.split)
qed

lemma cl_rename_cons_sem:
  assumes fits: "pf_fits n f" and dim: "pc_dim c \<le> n"
    and keep: "\<And>i. i < n \<Longrightarrow> pf_maps f i = None \<Longrightarrow> pc_coef c i = 0"
    and y: "\<And>i j. i < n \<Longrightarrow> pf_maps f i = Some j \<Longrightarrow> y j = x i"
  shows "psat y (cl_rename_cons f n c) = psat x c"
    and "pc_dim (cl_rename_cons f n c) \<le> nat (pf_max_in_codomain f + 1)"
proof -
  let ?e = "pc_expr c"
  have "(\<Sum>i < n. of_int (pl_coef ?e i) * (case pf_maps f i of Some j \<Rightarrow> y j | None \<Rightarrow> 0)) =
      (\<Sum>i < n. of_int (pl_coef ?e i) * x i)"
    using keep y by (intro sum.cong refl) (auto simp: pc_coef_def split: option.split)
  then have "pl_eval y (cl_rename f n ?e) = pl_eval x ?e"
    using pl_eval_coef [of ?e n x] dim cl_rename_fold(1) [OF fits order_refl, of y ?e "snd ?e"]
    by (simp add: cl_rename_def pc_dim_def del: pl_coef.simps)
  then show "psat y (cl_rename_cons f n c) = psat x c" by (cases c) simp_all
  have "length (fst (cl_rename f n ?e)) \<le> nat (pf_max_in_codomain f + 1)"
    using cl_rename_fold(2) [OF fits order_refl, of ?e "snd ?e"] by (simp add: cl_rename_def)
  then show "pc_dim (cl_rename_cons f n c) \<le> nat (pf_max_in_codomain f + 1)"
    by (cases c) (simp_all add: pc_dim_def)
qed

text \<open>The elimination does not enlarge the constraints.\<close>

lemma pl_elim_dim: "\<forall>c \<in> set cs. pc_dim c \<le> n \<Longrightarrow> \<forall>c \<in> set (pl_elim d cs). pc_dim c \<le> n"
proof -
  assume a: "\<forall>c \<in> set cs. pc_dim c \<le> n"
  have t: "pc_dim (pc_times_plus k c e) = max (pc_dim c) (length (fst e))" for k c e
    by (cases c) (simp_all add: pc_dim_def)
  have g: "pc_dim (gauss d (pc_expr e) c) \<le> n" if "e \<in> set cs" "c \<in> set cs" for e c
    using a that by (auto simp: gauss_def Let_def t) (simp add: pc_dim_def)
  have p: "pc_dim (pc_combine d p q) \<le> n" if "p \<in> set cs" "q \<in> set cs" for p q
    using a that by (simp add: pc_combine_def pc_dim_def)
  show ?thesis
  proof (cases "find (\<lambda>c. pc_is_equality c \<and> pc_coef c d \<noteq> 0) cs")
    case None
    then show ?thesis using a p by (auto simp: pl_elim_def)
  next
    case (Some e)
    then have "e \<in> set cs" by (auto simp: find_Some_iff)
    then show ?thesis using Some g set_remove1_subset [of e cs] by (auto simp: pl_elim_def)
  qed
qed

lemma pl_elims_dim: "\<forall>c \<in> set cs. pc_dim c \<le> n \<Longrightarrow> \<forall>c \<in> set (fold pl_elim ds cs). pc_dim c \<le> n"
proof (induction ds arbitrary: cs)
  case (Cons d ds)
  then show ?case using pl_elim_dim [of cs n d] by simp
qed simp

text \<open>What the constraints of the image are.\<close>

definition cl_kept :: "clist \<Rightarrow> pfunc \<Rightarrow> pcons list" where
  "cl_kept p f = filter (\<lambda>c. list_all (\<lambda>i. pf_maps f i = None \<longrightarrow> pc_coef c i = 0) [0..<fst p])
     (fold pl_elim (filter (\<lambda>i. pf_maps f i = None) [0..<fst p]) (cl_cons p))"

lemma cl_kept_dim: "c \<in> set (cl_kept p f) \<Longrightarrow> pc_dim c \<le> fst p"
  using pl_elims_dim [of "cl_cons p" "fst p"] cl_cons_dim by (auto simp: cl_kept_def)

lemma cl_map_sem_iff:
  assumes fits: "pf_fits (fst p) f" and y: "\<And>i j. i < fst p \<Longrightarrow> pf_maps f i = Some j \<Longrightarrow> y j = x i"
  shows "y \<in> cl_sem (cl_map p f) \<longleftrightarrow> (\<forall>c \<in> set (cl_kept p f). psat x c)"
proof (cases "fst p = 0")
  case True
  then have "y \<in> cl_sem (cl_map p f) \<longleftrightarrow> (\<forall>c \<in> set (cl_cons p). psat y c)"
    by (simp add: cl_map_def cl_sem_def)
  also have "\<dots> \<longleftrightarrow> (\<forall>c \<in> set (cl_cons p). psat x c)"
    using True cl_cons_dim [of _ p] psat_cong [of _ x y] by fastforce
  finally show ?thesis using True by (simp add: cl_kept_def)
next
  case False
  have k: "psat y (cl_rename_cons f (fst p) c) = psat x c"
    "pc_dim (cl_rename_cons f (fst p) c) \<le> nat (pf_max_in_codomain f + 1)"
    if "c \<in> set (cl_kept p f)" for c
    using cl_rename_cons_sem [OF fits cl_kept_dim [OF that] _ y] that
    by (auto simp: cl_kept_def list_all_iff)
  have "cl_map p f = (nat (pf_max_in_codomain f + 1), map (cl_rename_cons f (fst p)) (cl_kept p f))"
    using False by (simp add: cl_map_def cl_kept_def)
  then show ?thesis using k by (auto simp: cl_sem_def cl_cons_def)
qed

lemma cl_map_sem:
  assumes fits: "pf_fits (fst p) f"
  shows "pf_image (fst p) f (cl_sem p) \<subseteq> cl_sem (cl_map p f)"
proof
  fix y
  assume "y \<in> pf_image (fst p) f (cl_sem p)"
  then obtain x where x: "x \<in> cl_sem p" and y: "\<And>i j. i < fst p \<Longrightarrow> pf_maps f i = Some j \<Longrightarrow> y j = x i"
    by (auto simp: pf_image_def)
  have "psat x c" if "c \<in> set (cl_kept p f)" for c
    using that x pl_elims_sound [of "cl_cons p" x c] by (auto simp: cl_kept_def cl_sem_def)
  then show "y \<in> cl_sem (cl_map p f)" using cl_map_sem_iff [where y = y and x = x, OF fits y] by blast
qed

lemma cl_map_rename:
  assumes fits: "pf_fits (fst p) f" and total: "\<And>i. i < fst p \<Longrightarrow> pf_maps f i \<noteq> None"
  shows "cl_sem (cl_map p f) \<subseteq> pf_image (fst p) f (cl_sem p)"
proof
  fix y
  assume a: "y \<in> cl_sem (cl_map p f)"
  define x where "x i = (case pf_maps f i of Some j \<Rightarrow> y j | None \<Rightarrow> 0)" for i
  have y: "y j = x i" if "pf_maps f i = Some j" for i j using that by (simp add: x_def)
  have "filter (\<lambda>i. pf_maps f i = None) [0..<fst p] = []" using total by (simp add: filter_empty_conv)
  then have "cl_kept p f = cl_cons p"
    using total by (force simp: cl_kept_def list_all_iff filter_id_conv)
  then have "x \<in> cl_sem p" using a cl_map_sem_iff [where y = y and x = x, OF fits y] by (auto simp: cl_sem_def)
  then show "y \<in> pf_image (fst p) f (cl_sem p)" using y by (auto simp: pf_image_def)
qed

lemma cl_keep_sem: "x \<in> cl_sem q \<Longrightarrow> c \<in> set (cl_keep p q) \<Longrightarrow> psat x c"
  "x \<in> cl_sem p \<Longrightarrow> c \<in> set (cl_keep p q) \<Longrightarrow> psat x c"
proof -
  have h: "psat x c' \<Longrightarrow> c \<in> set (halves c') \<Longrightarrow> psat x c" for c' by (cases c') auto
  show "x \<in> cl_sem q \<Longrightarrow> c \<in> set (cl_keep p q) \<Longrightarrow> psat x c"
    using cl_included_sem [of q] by (auto simp: cl_keep_def split: if_splits)
  show "x \<in> cl_sem p \<Longrightarrow> c \<in> set (cl_keep p q) \<Longrightarrow> psat x c"
    using h by (fastforce simp: cl_keep_def cl_sem_def split: if_splits)
qed

lemma cl_sem_subset: "(\<And>c. c \<in> set cs \<Longrightarrow> psat x c) \<Longrightarrow> x \<in> cl_sem (n, cs)"
  by (auto simp: cl_sem_def cl_cons_def)

interpretation clist: ppl_laws clist_ppl
proof (unfold_locales, unfold clist_psem)
  note d = clist_ppl_def
  fix p q :: clist and c e n f and x :: point and num den b
  show "pp_dim clist_ppl (pp_universe0 clist_ppl) = 0" "pp_dim clist_ppl (pp_empty0 clist_ppl) = 0"
    "cl_sem (pp_universe0 clist_ppl) = UNIV" "cl_sem (pp_empty0 clist_ppl) = {}"
    by (simp_all add: d cl_sem_def cl_cons_def pc_dim_def)
  show "c \<in> set (pp_minimized clist_ppl p) \<Longrightarrow> pc_dim c \<le> pp_dim clist_ppl p"
    by (simp add: d cl_cons_dim)
  show "pp_dim clist_ppl (pp_add clist_ppl p c) = pp_dim clist_ppl p" by (simp add: d cl_add_def)
  show "pc_dim c \<le> pp_dim clist_ppl p \<Longrightarrow> cl_sem (pp_add clist_ppl p c) = cl_sem p \<inter> {x. psat x c}"
    by (auto simp: d cl_add_def cl_sem_def cl_cons_def)
  show "pp_dim clist_ppl (pp_embed clist_ppl p n) = pp_dim clist_ppl p + n" by (simp add: d)
  show "cl_sem (pp_embed clist_ppl p n) = cl_sem p" by (auto simp: d cl_sem_def cl_cons_def)
  show "pf_fits (pp_dim clist_ppl p) f \<Longrightarrow> pp_dim clist_ppl (pp_map clist_ppl p f) = nat (pf_max_in_codomain f + 1)"
    using pf_fits_0 [of f] by (auto simp: d cl_map_def)
  show "pp_dim clist_ppl p = 0 \<Longrightarrow> pp_dim clist_ppl (pp_map clist_ppl p f) = 0"
    by (simp add: d cl_map_def)
  show "pf_fits (pp_dim clist_ppl p) f \<Longrightarrow>
    pf_image (pp_dim clist_ppl p) f (cl_sem p) \<subseteq> cl_sem (pp_map clist_ppl p f)"
    by (simp add: d cl_map_sem)
  show "pf_fits (pp_dim clist_ppl p) f \<Longrightarrow> (\<And>i. i < pp_dim clist_ppl p \<Longrightarrow> pf_maps f i \<noteq> None) \<Longrightarrow>
    cl_sem (pp_map clist_ppl p f) = pf_image (pp_dim clist_ppl p) f (cl_sem p)"
    using cl_map_sem [of p f] cl_map_rename [of p f] by (simp add: d)
  show "pp_is_empty clist_ppl p \<Longrightarrow> cl_sem p = {}" by (simp add: d cl_is_empty_sem)
  show "pp_included clist_ppl p c \<Longrightarrow> x \<in> cl_sem p \<Longrightarrow> psat x c" by (simp add: d cl_included_sem)
  show "pp_disjoint clist_ppl p c \<Longrightarrow> x \<in> cl_sem p \<Longrightarrow> \<not> psat x c"
    using cl_is_empty_sem [of "(max (fst p) (pc_dim c), c # cl_cons p)"]
    by (auto simp: d cl_sem_def cl_cons_def)
  show "pp_maximize clist_ppl p e = Some (num, den, b) \<Longrightarrow> 0 < den"
    "pp_maximize clist_ppl p e = Some (num, den, b) \<Longrightarrow> x \<in> cl_sem p \<Longrightarrow> pl_eval x e * of_int den \<le> of_int num"
    using cl_maximize_sem [of p e num den b] by (auto simp: d)
  show "pp_minimize clist_ppl p e = Some (num, den, b) \<Longrightarrow> 0 < den"
    "pp_minimize clist_ppl p e = Some (num, den, b) \<Longrightarrow> x \<in> cl_sem p \<Longrightarrow> of_int num \<le> pl_eval x e * of_int den"
    using cl_minimize_sem [of p e num den b] by (auto simp: d)
  show "pp_dim clist_ppl (pp_intersection clist_ppl p q) = pp_dim clist_ppl p"
    "pp_dim clist_ppl (pp_hull clist_ppl p q) = pp_dim clist_ppl p"
    "pp_dim clist_ppl (pp_h79 clist_ppl p q) = pp_dim clist_ppl p" by (simp_all add: d)
  show "pp_dim clist_ppl p = pp_dim clist_ppl q \<Longrightarrow>
    cl_sem (pp_intersection clist_ppl p q) = cl_sem p \<inter> cl_sem q"
    by (auto simp: d cl_sem_def cl_cons_def)
  show "cl_sem p \<union> cl_sem q \<subseteq> cl_sem (pp_hull clist_ppl p q)"
    using cl_keep_sem [where p = p and q = q] cl_keep_sem [where p = q and q = p] by (auto simp: d intro!: cl_sem_subset)
  show "cl_sem p \<subseteq> cl_sem (pp_h79 clist_ppl p q)"
    using cl_keep_sem [where p = q and q = p] by (auto simp: d intro!: cl_sem_subset)
  show "pp_equal clist_ppl p q \<Longrightarrow> pp_dim clist_ppl p = pp_dim clist_ppl q \<and> cl_sem p = cl_sem q"
    using cl_included_sem [of p] cl_included_sem [of q] by (auto simp: d cl_sem_def list_all_iff)
qed

end
