(* ===== verification/Sample_Env.thy ===== *)
theory Sample_Env
  imports Domain_Queries PPL_Lists
begin

text \<open>
  A concrete environment on which the model runs: the constraint-list library, the usual
  inversion of conditions, one read-only and one writable segment. It shows that the
  hypotheses of the development can be met, and the witnesses evaluate the model on it.
\<close>

fun invert_cond :: "cond \<Rightarrow> cond" where
  "invert_cond EQ = NE"
| "invert_cond NE = EQ"
| "invert_cond LT = GE"
| "invert_cond GE = LT"
| "invert_cond LE = GT"
| "invert_cond GT = LE"
| "invert_cond ULT = UGE"
| "invert_cond UGE = ULT"
| "invert_cond ULE = UGT"
| "invert_cond UGT = ULE"
| "invert_cond c = c"

definition sample_env :: "clist env" where
  "sample_env = \<lparr>e_ppl = clist_ppl, e_invert = invert_cond, e_guid_hash = word_of_nat, e_junk = 0,
     e_segments = [\<lparr>seg_address = 0x8000, seg_size = 0x1000, seg_writable = False\<rparr>,
       \<lparr>seg_address = 0x10000, seg_size = 0x100, seg_writable = True\<rparr>],
     e_segment_at = (\<lambda>a. if 0x8000 \<le> a \<and> a < 0x9000
         then Some \<lparr>seg_address = 0x8000, seg_size = 0x1000, seg_writable = False\<rparr> else None),
     e_initial = (\<lambda>a. if 0x8000 \<le> a \<and> a < 0x9000 then Some 7 else None)\<rparr>"

lemma sample_env_laws: "poly_env sample_env"
proof (rule poly_env.intro)
  show "ppl_laws (e_ppl sample_env)" by (simp add: sample_env_def clist.ppl_laws_axioms)
next
  fix c x
  assume "is_relation c"
  then show "is_relation (e_invert sample_env c) \<and>
    (cond_sat (e_invert sample_env c) x \<longleftrightarrow> \<not> cond_sat c x)"
    by (cases c) (auto simp: sample_env_def is_relation_def)
qed

interpretation sample: poly_env sample_env
  by (rule sample_env_laws)

text \<open>A well-formed state from a valuation of nothing: the top state.\<close>

lemma dom_top_ok: "poly_env E \<Longrightarrow> dom_ok E gen (dom_top E s)"
proof -
  assume "poly_env E"
  then have ok: "wp_ok (e_ppl E) (wp_new (e_ppl E) False)"
    using ppl_laws.new_ok [OF poly_env.laws] by blast
  moreover have "wp_dom (wp_new (e_ppl E) False) = {}" by (simp add: wp_dom_def wp_new_def)
  ultimately show ?thesis by (simp add: dom_ok_def dom_top_def)
qed

end
