(* ===== verification/Samples.thy ===== *)
theory Samples
  imports Sem_Inst_Sound Domain_Memory Sample_Env
begin

text \<open>
  Concrete states of the model, reached by running it on the sample environment: a straight-line
  program that leaves constants in r1 and r2 and their sum in r3, and the state in which a loop
  has been entered.
\<close>

definition sample_inst :: "opcode \<Rightarrow> int \<Rightarrow> int \<Rightarrow> int \<Rightarrow> sem_inst" where
  "sample_inst opc d a b = \<lparr>si_op = opc, si_d = d, si_a = a, si_b = b, si_cst = word_of_int b\<rparr>"

definition sample_code :: "sem_inst list" where
  "sample_code = [sample_inst SETI 1 0 5, sample_inst SETI 2 0 7, sample_inst ADD 3 1 2]"

definition sample_regs :: "clist domain" where
  "sample_regs = fst (the (sem_insts sample_env sample_code (dom_top sample_env None) 0))"

definition sample_loop :: "clist domain" where
  "sample_loop = fst (the (onLoopEntry sample_env 9 sample_regs 3))"

lemma no_filter_top: "\<not> hasFilter (dom_top E s)"
  by (simp add: hasFilter_def dom_top_def ident_invalid_def)

lemma sample_code_ok:
  "si \<in> set sample_code \<Longrightarrow> si_op si \<in> {SETI, SET, ADD, SUB, CMP, CMPU}"
  "reads_defined sample_code D"
  by (auto simp: sample_code_def sample_inst_def operands_def)

lemma sample_regs_ok:
  "dom_ok sample_env 3 sample_regs"
  "dom_sem sample_env sample_regs = regs_exec sample_code ` dom_sem sample_env (dom_top sample_env None)"
proof -
  have len: "0 + length sample_code = 3" by (simp add: sample_code_def)
  have "\<exists>d'. sem_insts sample_env sample_code (dom_top sample_env None) 0 = Some (d', 0 + length sample_code) \<and>
      dom_ok sample_env (0 + length sample_code) d' \<and>
      dom_sem sample_env d' = regs_exec sample_code ` dom_sem sample_env (dom_top sample_env None)"
    by (rule poly_env.straight_line_exact [OF sample_env_laws dom_top_ok [OF sample_env_laws]])
      (simp_all only: no_filter_top sample_code_ok not_False_eq_True)
  then show "dom_ok sample_env 3 sample_regs"
    "dom_sem sample_env sample_regs = regs_exec sample_code ` dom_sem sample_env (dom_top sample_env None)"
    unfolding len by (auto simp: sample_regs_def)
qed

lemma sample_regs_has:
  "hasIdent sample_regs (Reg 1)" "hasIdent sample_regs (Reg 2)" "hasIdent sample_regs (Reg 3)"
  "\<not> hasFilter sample_regs"
  by code_simp+

lemma sample_loop_ok: "dom_ok sample_env 4 sample_loop"
proof -
  obtain d' where "onLoopEntry sample_env 9 sample_regs 3 = Some (d', 3 + 1)" "dom_ok sample_env (3 + 1) d'"
    using poly_env.loop_entry [OF sample_env_laws sample_regs_ok(1)] by metis
  then show ?thesis by (simp add: sample_loop_def)
qed

lemma sample_loop_has: "hasIdent sample_loop (Ident 9 ID_LOOP)"
  by code_simp

text \<open>Polyhedra: v1 between 2 and 5 and v2 = v1; v1 at least 4; the first one again.\<close>

definition sample_poly :: "clist wpoly" where
  "sample_poly = fold (wp_add_constraint clist_ppl)
     [w_ge (V 1) (K 2), w_le (V 1) (K 5), w_eq (V 2) (V 1)] (wp_new clist_ppl False)"

definition sample_poly2 :: "clist wpoly" where
  "sample_poly2 = fold (wp_add_constraint clist_ppl)
     [w_ge (V 4) (V 1), w_ge (V 1) (K 4)] (wp_new clist_ppl False)"

definition sample_poly3 :: "clist wpoly" where
  "sample_poly3 = fold (wp_add_constraint clist_ppl)
     [w_eq (V 2) (V 1), w_ge (V 2) (K 2), w_ge (K 5) (V 2)] (wp_new clist_ppl False)"

lemmas clist_cons = ppl_laws.add_constraint [OF clist.ppl_laws_axioms] ppl_laws.new_ok [OF clist.ppl_laws_axioms]
  ppl_laws.new_sem [OF clist.ppl_laws_axioms]

lemma add_constraints_ok:
  "wp_ok clist_ppl w \<Longrightarrow> wp_ok clist_ppl (fold (wp_add_constraint clist_ppl) cs w)"
  by (induction cs arbitrary: w) (simp_all add: ppl_laws.add_constraint(1) [OF clist.ppl_laws_axioms])

lemma sample_poly_ok: "wp_ok clist_ppl sample_poly"
  and sample_poly2_ok: "wp_ok clist_ppl sample_poly2"
  and sample_poly3_ok: "wp_ok clist_ppl sample_poly3"
  by (simp_all only: sample_poly_def sample_poly2_def sample_poly3_def add_constraints_ok ppl_laws.new_ok [OF clist.ppl_laws_axioms])

lemma sample_poly_dom: "1 \<in> wp_dom sample_poly" "1 \<in> wp_dom sample_poly2"
proof -
  have "map_of (wp_adapter sample_poly) 1 \<noteq> None \<and> map_of (wp_adapter sample_poly2) 1 \<noteq> None"
    by code_simp
  then show "1 \<in> wp_dom sample_poly" "1 \<in> wp_dom sample_poly2" by (auto simp: wp_dom_def)
qed

lemma sample_poly3_eq: "wp_equals clist_ppl sample_poly sample_poly3 = Some True"
  by code_simp

lemma sample_poly_point: "(\<lambda>g. 2) \<in> wsem clist_ppl sample_poly"
  by (simp add: sample_poly_def clist_cons)

end
