(* ===== verification/Program_Samples.thy ===== *)
theory Program_Samples
  imports Header_Sound Samples
begin

text \<open>
  Concrete inputs of the analysis of a program: a state over a register and the counter of a
  loop, and the graph of a function with one loop.
\<close>

definition sample_state :: "clist domain" where
  "sample_state = (dom_top sample_env None)\<lparr>
     d_poly := fold (wp_add_constraint clist_ppl) [w_eq (V 0) (K 5), w_ge (V 1) (K 0)] (wp_new clist_ppl False),
     d_idmap := im_add (Ident 2 ID_LOOP) (idval_t 1 NO_STEP) (im_add (Reg 1) (idval_t 0 NO_STEP) im_new)\<rparr>"

lemma sample_find:
  "im_find1 (d_idmap sample_state) i =
     (if i = Ident 2 ID_LOOP then Some (idval_t 1 NO_STEP) else if i = Reg 1 then Some (idval_t 0 NO_STEP) else None)"
  by (simp add: sample_state_def im_add_finds)

lemma sample_poly_new: "wp_dom (wp_new clist_ppl False) = {}"
  by (simp add: wp_dom_def wp_new_def)

lemma sample_vars:
  "wc_vars (w_eq (V 0) (K 5)) = {0}" "wc_vars (w_ge (V 1) (K 0)) = {1}"
  by code_simp+

lemma sample_state_wp:
  "wp_ok clist_ppl (d_poly sample_state)" "wp_dom (d_poly sample_state) = {0, 1}"
  "wsem clist_ppl (d_poly sample_state) = {v. v 0 = 5 \<and> 0 \<le> v 1}"
  by (auto simp del: One_nat_def simp: sample_state_def clist_cons sample_poly_new sample_vars)

lemma sample_env_ppl [simp]: "e_ppl sample_env = clist_ppl"
  by (simp add: sample_env_def)

lemma sample_state_ok: "plain sample_env 2 sample_state"
  using sample_state_wp
  by (auto simp: plain_def dom_ok_def reg_only_def mem_types_def sample_find im_add_finds sample_state_def dom_top_def
      split: if_splits)

lemma sample_state_sem: "dom_sem sample_env sample_state = {\<rho>. \<rho> (Reg 1) = 5 \<and> 0 \<le> \<rho> (Ident 2 ID_LOOP)}"
proof -
  have "models sample_env sample_state v \<rho> \<longleftrightarrow> v 0 = 5 \<and> 0 \<le> v 1 \<and> \<rho> (Reg 1) = v 0 \<and> \<rho> (Ident 2 ID_LOOP) = v 1" for v \<rho>
    by (auto simp: models_def sample_state_wp sample_find)
  then show ?thesis
    by (auto simp: dom_sem_def intro: exI [of _ "\<lambda>g. if g = 0 then _ else _"])
qed

lemma sample_state_has:
  "hasIdent sample_state (Reg 1)" "hasIdent sample_state (Ident 2 ID_LOOP)"
  by (simp_all add: hasIdent_iff sample_find)

lemma sample_not_bottom: "\<not> isBottom sample_env sample_state"
proof
  assume "isBottom sample_env sample_state"
  moreover have "dom_ok sample_env 2 sample_state" using sample_state_ok by (simp add: plain_def)
  ultimately have "dom_sem sample_env sample_state = {}" by (rule poly_env.bottom_sem [OF sample_env_laws, rotated])
  moreover have "(\<lambda>_. 5) \<in> dom_sem sample_env sample_state" by (simp add: sample_state_sem)
  ultimately show False by simp
qed

lemma sample_mergeable: "share_register sample_state sample_state" "mergeable sample_env sample_state sample_state"
  by (auto simp: mergeable_def share_register_def partners_def sample_state_wp sample_find intro!: exI [of _ "Reg 1"])

text \<open>The state after a comparison: the register 1 holds the difference.\<close>

definition sample_compared :: "clist domain" where
  "sample_compared = sample_state\<lparr>d_compare_reg := Reg 1, d_compare_op := GE\<rparr>"

lemma sample_compared_ok:
  "dom_ok sample_env 2 sample_compared" "hasFilter sample_compared" "hasIdent sample_compared (Reg 1)"
  "d_compare_reg sample_compared = Reg 1" "d_compare_op sample_compared = GE"
  using sample_state_ok sample_state_has
  by (simp_all add: sample_compared_def plain_def dom_ok_def hasFilter_def hasIdent_def)

text \<open>The same states, with the variables the other way round.\<close>

definition sample_state2 :: "clist domain" where
  "sample_state2 = (dom_top sample_env None)\<lparr>
     d_poly := fold (wp_add_constraint clist_ppl) [w_ge (V 0) (K 0), w_eq (V 1) (K 5)] (wp_new clist_ppl False),
     d_idmap := im_add (Reg 1) (idval_t 1 NO_STEP) (im_add (Ident 2 ID_LOOP) (idval_t 0 NO_STEP) im_new)\<rparr>"

lemma sample_vars2:
  "wc_vars (w_eq (V 1) (K 5)) = {1}" "wc_vars (w_ge (V 0) (K 0)) = {0}"
  by code_simp+

lemma sample_state2_ok: "plain sample_env 2 sample_state2"
proof -
  have "wp_ok clist_ppl (d_poly sample_state2)" "wp_dom (d_poly sample_state2) = {0, 1}"
    by (auto simp del: One_nat_def simp: sample_state2_def clist_cons sample_poly_new sample_vars2)
  then show ?thesis
    by (auto simp: plain_def dom_ok_def reg_only_def mem_types_def im_add_finds sample_state2_def dom_top_def split: if_splits)
qed

lemma sample_states_equal: "dom_equals sample_env sample_state sample_state2 2 = Some (True, 2)"
  by code_simp

text \<open>A condition to be exported.\<close>

definition sample_condition :: conditional where
  "sample_condition = \<lparr>cd_block = Some 64, cd_taken = True, cd_text = ''b:0 >= 3''\<rparr>"

text \<open>
  A function: entry 0, block 1, the header 2 of a loop with the body 3, exit 4. The edge 3 goes
  back and the edge 4 leaves the loop.
\<close>

definition sample_graph :: graph where
  "sample_graph = \<lparr>g_count = 5, g_entry = 0, g_exit = 4, g_edges = [(0, 1), (1, 2), (2, 3), (3, 2), (2, 4)],
     g_outs = [[0], [1], [2, 4], [3], []], g_ins = [[], [0], [1, 3], [2], [4]]\<rparr>"

definition sample_loops :: loops where
  "sample_loops = \<lparr>li_header = (\<lambda>v. v = 2), li_enclosing = (\<lambda>v. if v = 3 then Some 2 else None), li_back = (\<lambda>e. e = 3),
     li_dominates = (\<lambda>a b. a = 2 \<and> b \<in> {2, 3}), li_exit = (\<lambda>e. if e = 4 then Some 2 else None)\<rparr>"

definition sample_cfg :: cfg where
  "sample_cfg = \<lparr>c_name = ''main'', c_offset = 0, c_graph = sample_graph,
     c_blocks = [BVirtual, BBasic [[sample_inst SETI 5 0 0, sample_inst SETI 7 0 3, sample_inst SETI 8 0 1]] (replicate 16 True),
       BBasic [[sample_inst CMP 6 5 7], [sample_inst IF 4 6 1]] (replicate 16 True),
       BBasic [[sample_inst ADD 5 5 8]] (replicate 16 True), BVirtual],
     c_control = int, c_loops = sample_loops, c_taken = (\<lambda>e. e = 4)\<rparr>"

text \<open>The conditions on graphs and loops, in a form that evaluates.\<close>

lemma graph_ok_eval:
  "graph_ok g \<longleftrightarrow> g_entry g < g_count g \<and> g_exit g < g_count g \<and>
     length (g_outs g) = g_count g \<and> length (g_ins g) = g_count g \<and>
     (\<forall>v \<in> set [0..<g_count g]. set (succs g v) = set (filter (\<lambda>e. sourceOf g e = v) [0..<length (g_edges g)])) \<and>
     (\<forall>v \<in> set [0..<g_count g]. set (preds g v) = set (filter (\<lambda>e. sinkOf g e = v) [0..<length (g_edges g)])) \<and>
     (\<forall>e \<in> set [0..<length (g_edges g)]. sourceOf g e < g_count g \<and> sinkOf g e < g_count g)"
  unfolding graph_ok_def by (simp add: set_eq_iff Ball_def)

lemma loops_ok_eval:
  "loops_ok g L rank depth \<longleftrightarrow>
     (\<forall>v \<in> set [0..<g_count g]. rank v < g_count g \<and> depth v < g_count g) \<and>
     (\<forall>e \<in> set [0..<length (g_edges g)]. \<not> li_back L e \<longrightarrow> rank (sourceOf g e) < rank (sinkOf g e)) \<and>
     (\<forall>v \<in> set [0..<g_count g]. case li_enclosing L v of None \<Rightarrow> True
        | Some h \<Rightarrow> h < g_count g \<and> li_header L h \<and> depth h < depth v)"
  unfolding loops_ok_def by (simp add: Ball_def split: option.splits) blast

lemma sample_graph_ok: "graph_ok sample_graph"
  unfolding graph_ok_eval by code_simp

lemma sample_loops_ok: "loops_ok sample_graph sample_loops (\<lambda>v. v) (\<lambda>v. if v = 3 then 1 else 0)"
  unfolding loops_ok_eval by code_simp

text \<open>A fork: the entry 0 leads to the blocks 1 and 2, which both lead to the exit 3.\<close>

definition sample_fork :: graph where
  "sample_fork = \<lparr>g_count = 4, g_entry = 0, g_exit = 3, g_edges = [(0, 1), (0, 2), (1, 3), (2, 3)],
     g_outs = [[0, 1], [2], [3], []], g_ins = [[], [0], [1], [2, 3]]\<rparr>"

definition no_loops :: loops where
  "no_loops = \<lparr>li_header = (\<lambda>v. False), li_enclosing = (\<lambda>v. None), li_back = (\<lambda>e. False),
     li_dominates = (\<lambda>a b. False), li_exit = (\<lambda>e. None)\<rparr>"

definition sample_order :: topo where
  "sample_order = the (getPseudoTopo sample_fork no_loops)"

definition sample_domain :: "(nat, nat) ai_domain" where
  "sample_domain = \<lparr>ad_init = 1, ad_bot = 0, ad_join = (\<lambda>a b x. Some (max a b, x)), ad_equals = (\<lambda>a b x. Some (a = b, x))\<rparr>"

definition sample_driver :: "nat driver" where
  "sample_driver = the (wl_init sample_domain sample_fork (Some (isBefore sample_order)))"

lemma sample_fork_ok: "graph_ok sample_fork"
  unfolding graph_ok_eval by code_simp

lemma sample_order_placed: "{..<g_count sample_fork} \<subseteq> placed sample_order"
proof -
  have "loops_ok sample_fork no_loops (\<lambda>v. v) (\<lambda>v. 0)" unfolding loops_ok_eval by code_simp
  from topo_complete [OF this sample_fork_ok] show ?thesis by (auto simp: sample_order_def)
qed

lemma sample_driven: "driven sample_domain sample_fork (Some (isBefore sample_order)) sample_driver (\<lambda>v. Map.empty)"
proof (rule driven.start)
  have "wl_init sample_domain sample_fork (Some (isBefore sample_order)) \<noteq> None" by code_simp
  then show "wl_init sample_domain sample_fork (Some (isBefore sample_order)) = Some sample_driver"
    by (auto simp: sample_driver_def)
qed

lemma sample_driver_waits: "\<not> wl_end sample_driver" "wl_cur sample_driver = 1" "2 \<in> set (wl_vertices sample_driver)"
  by code_simp+

text \<open>A function whose only block is 2, and its analysis from the top state: one round is enough.\<close>

definition straight_graph :: graph where
  "straight_graph = \<lparr>g_count = 3, g_entry = 0, g_exit = 1, g_edges = [(0, 2), (2, 1)],
     g_outs = [[0], [], [1]], g_ins = [[], [1], [0]]\<rparr>"

definition straight_cfg :: cfg where
  "straight_cfg = \<lparr>c_name = ''main'', c_offset = 0, c_graph = straight_graph,
     c_blocks = [BVirtual, BVirtual, BBasic [[sample_inst SETI 5 0 3], [sample_inst ADD 6 5 5]] (replicate 16 True)],
     c_control = int, c_loops = no_loops, c_taken = (\<lambda>e. False)\<rparr>"

definition sample_man :: "clist manager" where
  "sample_man = \<lparr>m_init = dom_top sample_env None, m_bot = dom_bottom sample_env, m_top = dom_top sample_env None\<rparr>"

definition straight_start :: "clist domain driver" where
  "straight_start = the (wl_init (man_domain sample_env sample_man) straight_graph None)"

definition sample_analysis :: "guid \<Rightarrow> clist analysis" where
  "sample_analysis gen = analysis_start (\<lambda>_. -1) gen"

definition straight_end :: "clist work" where
  "straight_end = the (run_driver 1 straight_graph (processBB sample_env sample_man (\<lambda>_ _ _. None) [straight_cfg] 0 None)
     (straight_start, ht_new default_size, sample_analysis 0))"

lemma straight_graph_ok: "graph_ok straight_graph"
  unfolding graph_ok_eval by code_simp

lemma straight_init: "wl_init (man_domain sample_env sample_man) straight_graph None = Some straight_start"
proof -
  have "wl_init (man_domain sample_env sample_man) straight_graph None \<noteq> None" by code_simp
  then show ?thesis by (auto simp: straight_start_def)
qed

lemma straight_run:
  "run_driver 1 straight_graph (processBB sample_env sample_man (\<lambda>_ _ _. None) [straight_cfg] 0 None)
     (straight_start, ht_new default_size, sample_analysis 0) = Some straight_end"
proof -
  have "run_driver 1 straight_graph (processBB sample_env sample_man (\<lambda>_ _ _. None) [straight_cfg] 0 None)
     (straight_start, ht_new default_size, sample_analysis 0) \<noteq> None" by code_simp
  then show ?thesis by (auto simp: straight_end_def)
qed

lemma straight_reached: "wl_store (fst straight_end) 0 \<noteq> None"
  by code_simp

text \<open>The header of the loop above, when the entry and the back edge both carry the state above.\<close>

definition sample_store :: "clist domain store" where
  "sample_store = [1 \<mapsto> sample_state, 3 \<mapsto> sample_state]"

definition sample_copied :: "clist domain" where
  "sample_copied = the (dom_copy sample_state)"

lemma sample_copied:
  "dom_copy sample_state = Some sample_copied" "plain sample_env 2 sample_copied"
  "im_find1 (d_idmap sample_copied) = im_find1 (d_idmap sample_state)" "d_poly sample_copied = d_poly sample_state"
  "d_num_axis sample_copied = d_num_axis sample_state" "d_victims sample_copied = []"
proof -
  have ok: "dom_ok sample_env 2 sample_state" "d_victims sample_state = []" "reg_only sample_state"
    using sample_state_ok by (simp_all add: plain_def)
  obtain d' where "dom_copy sample_state = Some d'" "dom_ok sample_env 2 d'"
    "im_find1 (d_idmap d') = im_find1 (d_idmap sample_state)" "d_poly d' = d_poly sample_state"
    "d_num_axis d' = d_num_axis sample_state" "d_victims d' = d_victims sample_state"
    using dom_copy_ok [OF ok(1)] by metis
  then show "dom_copy sample_state = Some sample_copied" "plain sample_env 2 sample_copied"
    "im_find1 (d_idmap sample_copied) = im_find1 (d_idmap sample_state)" "d_poly sample_copied = d_poly sample_state"
    "d_num_axis sample_copied = d_num_axis sample_state" "d_victims sample_copied = []"
    using ok by (simp_all add: sample_copied_def plain_def reg_only_def)
qed

lemma sample_copied_facts:
  "isBottom sample_env sample_copied = isBottom sample_env sample_state"
  "hasIdent sample_copied (Ident 2 ID_LOOP)" "mergeable sample_env sample_copied sample_copied"
  using sample_mergeable sample_state_has
  by (simp_all add: isBottom_def hasIdent_iff mergeable_def share_register_def partners_def sample_copied(3-5))

lemma sample_inputs:
  "header_inputs (man_domain sample_env sample_man) sample_cfg 2 sample_store (an_gen (sample_analysis 2)) =
     Some (sample_copied, sample_copied, 2)"
proof -
  have bot: "isBottom sample_env (dom_bottom sample_env)" by (simp add: isBottom_def dom_bottom_def)
  have "preds sample_graph 2 = [1, 3]" "sourceOf sample_graph 1 = 1" "sinkOf sample_graph 1 = 2"
    "sourceOf sample_graph 3 = 3" "sinkOf sample_graph 3 = 2"
    by (simp_all add: sample_graph_def preds_def sourceOf_def sinkOf_def)
  then show ?thesis
    using bot sample_not_bottom
    by (simp add: header_inputs_def sample_cfg_def sample_loops_def es_get_def sample_store_def man_domain_def m_join_def
        onMerge_def sample_man_def sample_copied(1) sample_analysis_def analysis_start_def)
qed

lemma sample_update:
  "header_update sample_env (man_domain sample_env sample_man) 2 sample_copied (ht_new default_size) 2 =
     Some (\<lparr>hs_avcreate = True, hs_state = sample_copied, hs_entry = sample_copied\<rparr>, 2)"
proof -
  have "isBottom sample_env (dom_bottom sample_env)" by (simp add: isBottom_def dom_bottom_def)
  then have "dom_equals sample_env sample_copied (dom_bottom sample_env) 2 = Some (False, 2)"
    using sample_not_bottom sample_copied_facts(1) by (simp add: dom_equals_def sample_copied(6))
  then show ?thesis by (simp add: header_update_def hint.find_new [OF default_size_ok])
qed

end
