(* ===== verification/Block_Sound.thy ===== *)
theory Block_Sound
  imports Header_Sound
begin

text \<open>
  Blocks of register code, on the states of a machine whose registers, arguments and loop
  counters are integers. \<open>covers\<close> says that an abstract state stands for a machine state, and
  that the bounds it records hold for the counters of the loops outside \<open>X\<close>. The lemmas are
  about what the code returns: where it aborts there is nothing to show.
\<close>

type_synonym mstate = "ident \<Rightarrow> int"

definition lift :: "mstate \<Rightarrow> ident \<Rightarrow> rat" where
  "lift \<rho> = (\<lambda>i. of_int (\<rho> i))"

text \<open>A recorded bound: \<open>UNBOUNDED\<close>, or a number, where negative ones mean that no iteration ends.\<close>

definition in_bound :: "int \<Rightarrow> int \<Rightarrow> bool" where
  "in_bound b x \<longleftrightarrow> b = UNBOUNDED \<or> x \<le> max 0 b"

definition counters_in :: "int set \<Rightarrow> 'p domain \<Rightarrow> mstate \<Rightarrow> bool" where
  "counters_in X d \<rho> \<longleftrightarrow> (\<forall>h. 0 \<le> h \<longrightarrow> h \<notin> X \<longrightarrow> in_bound (getBound d (nat h)) (\<rho> (Ident h ID_LOOP)))"

definition covers :: "'p env \<Rightarrow> int set \<Rightarrow> 'p domain \<Rightarrow> mstate \<Rightarrow> bool" where
  "covers E X d \<rho> \<longleftrightarrow> lift \<rho> \<in> dom_sem E d \<and> counters_in X d \<rho>"

text \<open>\<open>same_frame\<close>: the parts of a state that instructions over registers leave alone.\<close>

definition same_frame :: "'p domain \<Rightarrow> 'p domain \<Rightarrow> bool" where
  "same_frame d d' \<longleftrightarrow> d_bounds d' = d_bounds d \<and> d_compare_reg d' = d_compare_reg d \<and> d_compare_op d' = d_compare_op d"

lemma lift_upd [simp]: "lift (\<rho>(i := x)) = (lift \<rho>)(i := of_int x)"
  by (rule ext) (simp add: lift_def)

lemma lift_apply: "lift \<rho> i = of_int (\<rho> i)"
  by (simp add: lift_def)

lemma counters_in_cong: "d_bounds d' = d_bounds d \<Longrightarrow> counters_in X d' = counters_in X d"
  by (rule ext) (simp add: counters_in_def getBound_def)

lemma counters_in_reg [simp]: "id_type i \<noteq> ID_LOOP \<Longrightarrow> counters_in X d (\<rho>(i := x)) = counters_in X d \<rho>"
proof -
  assume "id_type i \<noteq> ID_LOOP"
  then have ne: "Ident h ID_LOOP \<noteq> i" for h by auto
  show ?thesis unfolding counters_in_def fun_upd_other [OF ne] ..
qed

lemma same_frame_refl [simp]: "same_frame d d"
  by (simp add: same_frame_def)

lemma same_frame_trans: "same_frame d d' \<Longrightarrow> same_frame d' d'' \<Longrightarrow> same_frame d d''"
  by (simp add: same_frame_def)

lemma same_frame_filter: "same_frame d d' \<Longrightarrow> hasFilter d' = hasFilter d"
  by (simp add: same_frame_def hasFilter_def)

lemma reg_only_has: "reg_only d \<longleftrightarrow> (\<forall>i. hasIdent d i \<longrightarrow> id_type i \<notin> set mem_types)"
  by (auto simp: reg_only_def hasIdent_iff)

subsection \<open>Instructions\<close>

definition int_value :: "sem_inst \<Rightarrow> mstate \<Rightarrow> int" where
  "int_value si \<rho> =
     (let a = \<rho> (Reg (si_a si)); b = \<rho> (Reg (si_b si)) in
      if si_op si = SETI then sint (si_cst si)
      else if si_op si = SET then a
      else if si_op si = ADD then a + b
      else if si_op si \<in> {SUB, CMP, CMPU} then a - b
      else a * b)"

text \<open>
  One instruction; the bitwise operations leave any value, and branches are taken at the end of
  the block.
\<close>

definition inst_step :: "sem_inst \<Rightarrow> mstate \<Rightarrow> mstate \<Rightarrow> bool" where
  "inst_step si \<rho> \<rho>' \<longleftrightarrow>
     (if si_op si \<in> {NOP, CONT, BRANCH, IF} then \<rho>' = \<rho>
      else if si_op si \<in> {AND_OP, OR_OP, XOR_OP} then \<rho>' = \<rho>(Reg (si_d si) := \<rho>' (Reg (si_d si)))
      else \<rho>' = \<rho>(Reg (si_d si) := int_value si \<rho>))"

definition supported :: "sem_inst \<Rightarrow> bool" where
  "supported si \<longleftrightarrow>
     si_op si \<in> {NOP, CONT, BRANCH, SETI, SET, ADD, SUB, CMP, CMPU, MUL, AND_OP, OR_OP, XOR_OP} \<or>
     si_op si = IF \<and> is_relation (cond_of_int (si_d si))"

definition reads :: "sem_inst \<Rightarrow> ident list" where
  "reads si = (if si_op si \<in> {NOP, CONT, BRANCH, SETI, IF} then []
     else if si_op si = SET then [Reg (si_a si)] else [Reg (si_a si), Reg (si_b si)])"

text \<open>What the transfer does to the parts that are not values.\<close>

lemma varNew_frame:
  assumes "varNew i step r d gen = Some (v, d', gen')"
  shows "same_frame d d'" and "gen' = gen + 1" and "d_summary d' = d_summary d"
  using assms by (auto simp: varNew_def bindE same_frame_def split: option.splits)

lemma doBinaryOp_frame:
  assumes "doBinaryOp E opc v a b d = Some d'"
  shows "same_frame d d'" and "d_idmap d' = d_idmap d" and "d_mem_ref d' = d_mem_ref d" and "d_num_axis d' = d_num_axis d"
  using assms
  by (auto simp: doBinaryOp_def doNewConstraint_def same_frame_def bindE split: if_splits option.splits)

lemma copy_frame: "dom_copy d = Some d' \<Longrightarrow> same_frame d d'"
  by (auto simp: dom_copy_def bindE same_frame_def)

lemma constraint_frame [simp]: "same_frame d (doNewConstraint E c d)"
  by (simp add: same_frame_def doNewConstraint_def)

context poly_env
begin

lemma copy_same:
  assumes "dom_ok E gen d" and "dom_copy d = Some d'"
  shows "dom_ok E gen d'" and "im_find1 (d_idmap d') = im_find1 (d_idmap d)" and "d_poly d' = d_poly d"
    and "same_frame d d'" and "d_victims d' = d_victims d" and "d_num_axis d' = d_num_axis d"
  using dom_copy_ok [OF assms(1)] assms(2) copy_frame [OF assms(2)] by auto

lemma copy_has: "dom_ok E gen d \<Longrightarrow> dom_copy d = Some d' \<Longrightarrow> hasIdent d' = hasIdent d"
  by (rule ext) (simp only: hasIdent_iff copy_same(2))

lemma copy_models: "dom_ok E gen d \<Longrightarrow> dom_copy d = Some d' \<Longrightarrow> models E d' = models E d"
  by (rule models_cong [OF copy_same(2,3)])

lemma covers_copy: "dom_ok E gen d \<Longrightarrow> dom_copy d = Some d' \<Longrightarrow> covers E X d' = covers E X d"
  using copy_same(4) [of gen d d'] counters_in_cong [of d' d X] copy_models [of gen d d']
  by (intro ext) (simp add: covers_def dom_sem_def same_frame_def)

lemma constraint_has [simp]: "hasIdent (doNewConstraint E c d) = hasIdent d"
  by (rule ext) (simp add: hasIdent_def doNewConstraint_def)

lemma varNew_has:
  assumes "im_ok (d_idmap d)" and "varNew i step r d gen = Some (v, d', gen')" and "hasIdent d' j"
  shows "j = i \<or> hasIdent d j"
proof -
  have "d_idmap d' = im_add i (idval_t gen step) (d_idmap d)"
    using assms(2) by (auto simp: varNew_def bindE split: option.splits)
  then show ?thesis using assms(3) im_add_finds(2) [OF assms(1)] by (auto simp: hasIdent_iff split: if_splits)
qed

lemma varNew_rest:
  assumes "im_ok (d_idmap d)" and "varNew i step r d gen = Some (v, d', gen')"
  shows "j \<noteq> i \<Longrightarrow> im_find1 (d_idmap d) j \<noteq> Some (idval_t gen step) \<Longrightarrow> im_find1 (d_idmap d') j = im_find1 (d_idmap d) j"
    and "d_mem_ref d' = d_mem_ref d" and "d_num_axis d' = d_num_axis d"
proof -
  have "d_idmap d' = im_add i (idval_t gen step) (d_idmap d)"
    using assms(2) by (auto simp: varNew_def bindE split: option.splits)
  then show "j \<noteq> i \<Longrightarrow> im_find1 (d_idmap d) j \<noteq> Some (idval_t gen step) \<Longrightarrow> im_find1 (d_idmap d') j = im_find1 (d_idmap d) j"
    using im_add_finds(2) [OF assms(1)] by auto
qed (use assms(2) in \<open>auto simp: varNew_def bindE split: option.splits\<close>)

text \<open>The mapping changes at the destination only.\<close>

lemma inst_frame:
  assumes ok: "dom_ok E gen d" and run: "onSemInst E si d gen = Some (d', gen')"
    and op: "si_op si \<in> {SETI, SET} \<union> set binary_ops"
  shows "same_frame d d'" and "i \<noteq> Reg (si_d si) \<Longrightarrow> im_find1 (d_idmap d') i = im_find1 (d_idmap d) i"
    and "d_mem_ref d' = d_mem_ref d" and "d_num_axis d' = d_num_axis d"
proof -
  obtain d0 where d0: "dom_copy d = Some d0" using run by (auto simp: onSemInst_def bindE)
  note c = copy_same [OF ok d0] and m = dom_okD(1) [OF copy_same(1) [OF ok d0]]
  let ?ok = "\<lambda>d'. same_frame d0 d' \<and> d_mem_ref d' = d_mem_ref d0 \<and> d_num_axis d' = d_num_axis d0 \<and>
    (\<forall>i. i \<noteq> Reg (si_d si) \<longrightarrow> im_find1 (d_idmap d') i = im_find1 (d_idmap d0) i)"
  have fresh: "im_find1 (d_idmap d0) j \<noteq> Some (idval_t gen NO_STEP)" for j
    using dom_okD(5) [OF c(1), of j "idval_t gen NO_STEP"] by auto
  have new: "?ok d1" if "varNew (Reg (si_d si)) NO_STEP True d0 gen = Some (v, d1, gen1)" for v d1 gen1
    using varNew_frame(1) [OF that] varNew_rest [OF m that] fresh by blast
  have con: "?ok (doNewConstraint E k d1)" if "?ok d1" for k d1
    using that same_frame_trans [OF _ constraint_frame, of d0 d1] by (simp add: doNewConstraint_def)
  have bin: "?ok d2" if "?ok d1" "doBinaryOp E opc v a b d1 = Some d2" for opc v a b d1 d2
    using that(1) same_frame_trans [OF _ doBinaryOp_frame(1) [OF that(2)], of d0] doBinaryOp_frame(2-4) [OF that(2)] by simp
  have "sem_seti E si d0 gen = Some (d', gen') \<or> sem_set E si d0 gen = Some (d', gen') \<or> sem_binary E si d0 gen = Some (d', gen')"
    using run d0 op by (auto simp: onSemInst_def bindE binary_ops_def split: if_splits)
  then have "?ok d'"
  proof (elim disjE)
    assume "sem_seti E si d0 gen = Some (d', gen')"
    then obtain v d1 where "varNew (Reg (si_d si)) NO_STEP True d0 gen = Some (v, d1, gen')"
      and "d' = doNewConstraint E (w_eq (V v) (K (sint (si_cst si)))) d1" by (auto simp: sem_seti_def bindE)
    then show ?thesis using con [OF new] by blast
  next
    assume r: "sem_set E si d0 gen = Some (d', gen')"
    show ?thesis
    proof (cases "hasIdent d0 (Reg (si_a si))")
      case True
      then obtain w v d1 where "varNew (Reg (si_d si)) NO_STEP True d0 gen = Some (v, d1, gen')"
        and "d' = doNewConstraint E (w_eq (V v) (V w)) d1" using r by (auto simp: sem_set_def bindE)
      then show ?thesis using con [OF new] by blast
    qed (use r in \<open>simp add: sem_set_def\<close>)
  next
    assume r: "sem_binary E si d0 gen = Some (d', gen')"
    show ?thesis
    proof (cases "hasIdent d0 (Reg (si_a si)) \<and> hasIdent d0 (Reg (si_b si))")
      case True
      then obtain a b v d1 where "varNew (Reg (si_d si)) NO_STEP True d0 gen = Some (v, d1, gen')"
        and "doBinaryOp E (si_op si) v a b d1 = Some d'" using r by (auto simp: sem_binary_def bindE)
      then show ?thesis using bin [OF new] by blast
    qed (use r in \<open>auto simp: sem_binary_def\<close>)
  qed
  moreover have "d_mem_ref d0 = d_mem_ref d" using d0 by (auto simp: dom_copy_def bindE)
  ultimately show "same_frame d d'" "i \<noteq> Reg (si_d si) \<Longrightarrow> im_find1 (d_idmap d') i = im_find1 (d_idmap d) i"
    "d_mem_ref d' = d_mem_ref d" "d_num_axis d' = d_num_axis d"
    using same_frame_trans [OF c(4), of d'] c(2,6) by simp_all
qed

lemma inst_filter: "onSemInst E si d gen = Some (d', gen') \<Longrightarrow> hasFilter d \<Longrightarrow> si_op si = BRANCH"
  by (auto simp: onSemInst_def bindE)

lemma reg_only_same:
  assumes "reg_only d" and "\<forall>i. i \<noteq> Reg r \<longrightarrow> im_find1 (d_idmap d') i = im_find1 (d_idmap d) i"
  shows "reg_only d'"
  unfolding reg_only_def
proof (intro allI impI)
  fix i iv
  assume "im_find1 (d_idmap d') i = Some iv"
  then show "id_type i \<notin> set mem_types"
    using assms by (cases "i = Reg r") (auto simp: reg_only_def mem_types_def)
qed

text \<open>What one instruction gives: \<open>after_inst\<close> collects what is needed of the state that it returns.\<close>

definition after_inst :: "sem_inst \<Rightarrow> 'p domain \<Rightarrow> guid \<Rightarrow> 'p domain \<Rightarrow> guid \<Rightarrow> bool" where
  "after_inst si d gen d' gen' \<longleftrightarrow> gen \<le> gen' \<and> dom_ok E gen' d' \<and> d_bounds d' = d_bounds d \<and>
     (\<forall>i. i \<noteq> Reg (si_d si) \<longrightarrow> im_find1 (d_idmap d') i = im_find1 (d_idmap d) i) \<and>
     d_mem_ref d' = d_mem_ref d \<and> d_num_axis d' = d_num_axis d \<and>
     (\<forall>X \<rho> \<rho>'. covers E X d \<rho> \<longrightarrow> inst_step si \<rho> \<rho>' \<longrightarrow> covers E X d' \<rho>') \<and>
     (if si_op si = IF \<and> hasIdent d (Reg (si_a si))
      then d_compare_reg d' = Reg (si_a si) \<and> d_compare_op d' = cond_of_int (si_d si)
      else d_compare_reg d' = d_compare_reg d \<and> d_compare_op d' = d_compare_op d)"

lemma exact_step:
  assumes "lift \<rho> \<in> dom_sem E d" and "si_op si \<in> {SETI, SET, ADD, SUB, CMP, CMPU, MUL}" and "inst_step si \<rho> \<rho>'"
  shows "lift \<rho>' = reg_exec si (lift \<rho>)"
  using assms(2,3) by (auto simp: inst_step_def reg_exec_def reg_value_def int_value_def Let_def lift_apply)

lemma counters_reg:
  assumes "counters_in X d \<rho>" and "d_bounds d' = d_bounds d" and "\<rho>' = \<rho>(Reg r := x)"
  shows "counters_in X d' \<rho>'"
  using assms(1) counters_in_cong [OF assms(2)] counters_in_reg [of "Reg r" X d \<rho> x] unfolding assms(3) by simp

lemma inst_sound:
  assumes ok: "dom_ok E gen d" and sup: "supported si"
    and tracked: "\<forall>i \<in> set (reads si). hasIdent d i" and run: "onSemInst E si d gen = Some (d', gen')"
  shows "after_inst si d gen d' gen'"
proof -
  obtain d0 where d0: "dom_copy d = Some d0" using run by (auto simp: onSemInst_def bindE)
  note c = copy_same [OF ok d0]
  have mr0: "d_mem_ref d0 = d_mem_ref d" using d0 by (auto simp: dom_copy_def bindE)
  have bounds0: "d_bounds d0 = d_bounds d" and cmp0: "d_compare_reg d0 = d_compare_reg d" "d_compare_op d0 = d_compare_op d"
    using c(4) by (simp_all add: same_frame_def)
  consider "si_op si \<in> {NOP, CONT, BRANCH}" | "si_op si = IF" | "si_op si \<in> {SETI, SET, ADD, SUB, CMP, CMPU}"
    | "si_op si \<in> {MUL, AND_OP, OR_OP, XOR_OP}" using sup by (auto simp: supported_def)
  then show ?thesis
  proof cases
    case 1
    then have "d' = d0" "gen' = gen" using run d0 by (auto simp: onSemInst_def bindE)
    then show ?thesis
      using 1 c(1,2,6) mr0 bounds0 cmp0 covers_copy [OF ok d0] by (auto simp: after_inst_def inst_step_def)
  next
    case 2
    show ?thesis
    proof (cases "hasIdent d (Reg (si_a si))")
      case True
      let ?d = "d0\<lparr>d_compare_reg := Reg (si_a si), d_compare_op := cond_of_int (si_d si)\<rparr>"
      have "d' = ?d" "gen' = gen" using run 2 d0 True copy_has [OF ok d0] by (auto simp: onSemInst_def binary_ops_def sem_if_def bindE)
      moreover have "dom_ok E gen ?d" using c(1) by (simp add: dom_ok_def)
      moreover have "models E ?d = models E d0" by (rule models_cong) simp_all
      then have "covers E X ?d = covers E X d" for X
        using covers_copy [OF ok d0, of X] counters_in_cong [of ?d d0 X] by (simp add: covers_def dom_sem_def fun_eq_iff)
      ultimately show ?thesis using 2 True bounds0 c(2,6) mr0 by (simp add: after_inst_def inst_step_def)
    next
      case False
      have "d' = d0" "gen' = gen" using run 2 d0 False copy_has [OF ok d0] by (auto simp: onSemInst_def binary_ops_def sem_if_def bindE)
      then show ?thesis using 2 False c(1,2,6) mr0 bounds0 cmp0 covers_copy [OF ok d0] by (auto simp: after_inst_def inst_step_def)
    qed
  next
    case 3
    have nf: "\<not> hasFilter d" using inst_filter [OF run] 3 by auto
    have op: "si_op si \<in> {SETI, SET} \<union> set binary_ops" using 3 by (auto simp: binary_ops_def)
    have opnds: "\<And>i. i \<in> set (operands si) \<Longrightarrow> hasIdent d i" using tracked 3 by (auto simp: operands_def reads_def)
    obtain d1 where d1: "onSemInst E si d gen = Some (d1, gen + 1)" "dom_ok E (gen + 1) d1" "dom_sem E d1 = reg_exec si ` dom_sem E d"
      using register_exact [OF ok nf 3 opnds] by metis
    have e: "d' = d1" "gen' = gen + 1" using d1(1) run by simp_all
    note fr = inst_frame [OF ok run op]
    have b: "d_bounds d' = d_bounds d" "d_compare_reg d' = d_compare_reg d" "d_compare_op d' = d_compare_op d"
      using fr(1) by (simp_all add: same_frame_def)
    have "covers E X d' \<rho>'" if cov: "covers E X d \<rho>" and st: "inst_step si \<rho> \<rho>'" for X \<rho> \<rho>'
    proof -
      have "\<rho>' = \<rho>(Reg (si_d si) := int_value si \<rho>)" using st 3 by (auto simp: inst_step_def)
      then have "counters_in X d' \<rho>'" using counters_reg [OF _ b(1)] cov by (simp add: covers_def)
      moreover have "lift \<rho>' = reg_exec si (lift \<rho>)" using cov 3 st by (intro exact_step) (auto simp: covers_def)
      ultimately show ?thesis using cov d1(3) e by (auto simp: covers_def)
    qed
    then show ?thesis
      unfolding after_inst_def using 3 e d1(2) fr(2-4) b by auto
  next
    case 4
    have nf: "\<not> hasFilter d" using inst_filter [OF run] 4 by auto
    have op: "si_op si \<in> {SETI, SET} \<union> set binary_ops" using 4 by (auto simp: binary_ops_def)
    have opnds: "hasIdent d (Reg (si_a si))" "hasIdent d (Reg (si_b si))" using tracked 4 by (auto simp: reads_def)
    have "\<exists>d1. onSemInst E si d gen = Some (d1, gen + 1) \<and> dom_ok E (gen + 1) d1 \<and>
      (\<forall>\<rho> x. \<rho> \<in> dom_sem E d \<longrightarrow> (si_op si = MUL \<longrightarrow> x = \<rho> (Reg (si_a si)) * \<rho> (Reg (si_b si))) \<longrightarrow> \<rho>(Reg (si_d si) := x) \<in> dom_sem E d1)"
      by (rule other_binary_sound [OF ok nf 4 opnds]) blast
    then obtain d1 where d1: "onSemInst E si d gen = Some (d1, gen + 1)" "dom_ok E (gen + 1) d1"
      "\<And>\<rho> x. \<rho> \<in> dom_sem E d \<Longrightarrow> (si_op si = MUL \<longrightarrow> x = \<rho> (Reg (si_a si)) * \<rho> (Reg (si_b si))) \<Longrightarrow> \<rho>(Reg (si_d si) := x) \<in> dom_sem E d1"
      by blast
    have e: "d' = d1" "gen' = gen + 1" using d1(1) run by simp_all
    note fr = inst_frame [OF ok run op]
    have b: "d_bounds d' = d_bounds d" "d_compare_reg d' = d_compare_reg d" "d_compare_op d' = d_compare_op d"
      using fr(1) by (simp_all add: same_frame_def)
    have "covers E X d' \<rho>'" if cov: "covers E X d \<rho>" and st: "inst_step si \<rho> \<rho>'" for X \<rho> \<rho>'
    proof -
      let ?x = "\<rho>' (Reg (si_d si))"
      have st': "\<rho>' = \<rho>(Reg (si_d si) := ?x)" "si_op si = MUL \<longrightarrow> ?x = \<rho> (Reg (si_a si)) * \<rho> (Reg (si_b si))"
        using st 4 by (auto simp: inst_step_def int_value_def Let_def split: if_splits)
      then have "counters_in X d' \<rho>'" using counters_reg [OF _ b(1) st'(1)] cov by (simp add: covers_def)
      moreover have "lift \<rho>' = (lift \<rho>)(Reg (si_d si) := of_int ?x)" by (subst st'(1)) simp
      then have "lift \<rho>' \<in> dom_sem E d1"
        using d1(3) [of "lift \<rho>" "of_int ?x"] cov st'(2) by (simp add: covers_def lift_apply)
      ultimately show ?thesis using e by (simp add: covers_def)
    qed
    then show ?thesis
      unfolding after_inst_def using 4 e d1(2) fr(2-4) b by auto
  qed
qed

end

subsection \<open>Blocks\<close>

inductive sem_steps :: "sem_inst list \<Rightarrow> mstate \<Rightarrow> mstate \<Rightarrow> bool" where
  nil: "sem_steps [] \<rho> \<rho>"
| cons: "inst_step si \<rho> \<rho>1 \<Longrightarrow> sem_steps sis \<rho>1 \<rho>' \<Longrightarrow> sem_steps (si # sis) \<rho> \<rho>'"

inductive_cases sem_steps_nilE: "sem_steps [] \<rho> \<rho>'"
inductive_cases sem_steps_consE: "sem_steps (si # sis) \<rho> \<rho>'"

lemma sem_steps_append: "sem_steps (xs @ ys) \<rho> \<rho>' \<longleftrightarrow> (\<exists>\<rho>1. sem_steps xs \<rho> \<rho>1 \<and> sem_steps ys \<rho>1 \<rho>')"
  by (induction xs arbitrary: \<rho>) (auto intro: sem_steps.intros elim!: sem_steps_nilE sem_steps_consE, blast intro: sem_steps.intros)

text \<open>The branch that ends a block: its last conditional instruction.\<close>

definition branch_of :: "sem_inst list \<Rightarrow> sem_inst option" where
  "branch_of sis = (let ifs = filter (\<lambda>si. si_op si = IF) sis in if ifs = [] then None else Some (last ifs))"

lemma branch_of_snoc: "branch_of (sis @ [si]) = (if si_op si = IF then Some si else branch_of sis)"
  by (simp add: branch_of_def)

text \<open>The comparison that waits in a state is that of the branch.\<close>

definition pending :: "sem_inst list \<Rightarrow> 'p domain \<Rightarrow> bool" where
  "pending sis d \<longleftrightarrow> (hasFilter d \<longrightarrow> (\<exists>si \<in> set sis. branch_of sis = Some si \<and> si_op si = IF \<and>
     d_compare_reg d = Reg (si_a si) \<and> d_compare_op d = cond_of_int (si_d si)))"

lemma pending_frame:
  assumes "pending sis d" and "hasFilter d' \<Longrightarrow> same_frame d d'"
  shows "pending sis d'"
  unfolding pending_def
proof
  assume f: "hasFilter d'"
  have fr: "same_frame d d'" by (rule assms(2) [OF f])
  then have "hasFilter d" using f same_frame_filter by blast
  then show "\<exists>si \<in> set sis. branch_of sis = Some si \<and> si_op si = IF \<and>
      d_compare_reg d' = Reg (si_a si) \<and> d_compare_op d' = cond_of_int (si_d si)"
    using assms(1) fr by (simp add: pending_def same_frame_def)
qed

text \<open>The operands that the instructions read are tracked when they are read.\<close>

fun sem_tracked :: "'p env \<Rightarrow> sem_inst list \<Rightarrow> 'p domain \<times> guid \<Rightarrow> bool" where
  "sem_tracked E [] x = True"
| "sem_tracked E (si # sis) (s, gen) \<longleftrightarrow> list_all (hasIdent s) (reads si) \<and>
     (case onSemInst E si s gen of None \<Rightarrow> True | Some y \<Rightarrow> sem_tracked E sis y)"

fun insts_tracked :: "'p env \<Rightarrow> sem_inst list list \<Rightarrow> 'p domain \<times> guid \<Rightarrow> bool" where
  "insts_tracked E [] x = True"
| "insts_tracked E (sem # insts) x \<longleftrightarrow> sem_tracked E sem x \<and>
     (case process_inst E sem x of None \<Rightarrow> True | Some y \<Rightarrow> insts_tracked E insts y)"

lemma kill_frame: "varKillIdent i d = Some d' \<Longrightarrow> same_frame d d'"
  by (auto simp: varKillIdent_def varKill_def bindE same_frame_def)

context poly_env
begin

lemma covers_mono:
  assumes "\<And>v \<rho>. models E d v \<rho> \<Longrightarrow> models E d' v \<rho>" and "d_bounds d' = d_bounds d" and "covers E X d \<rho>"
  shows "covers E X d' \<rho>"
  using assms counters_in_cong [OF assms(2), of X] by (auto simp: covers_def dom_sem_def)

lemma kill_one:
  assumes ok: "dom_ok E gen d" and k: "varKillIdent i d = Some d'"
  shows "dom_ok E gen d'" and "im_find1 (d_idmap d') = (im_find1 (d_idmap d))(i := None)" and "d_poly d' = d_poly d"
proof -
  obtain iv where f: "im_find1 (d_idmap d) i = Some iv" using k by (auto simp: varKillIdent_def bindE)
  have "\<exists>d1. varKillIdent i d = Some d1 \<and> dom_ok E gen d1 \<and> im_find1 (d_idmap d1) = (im_find1 (d_idmap d))(i := None) \<and> d_poly d1 = d_poly d"
    by (rule varKill_ok [OF ok f]) blast
  then show "dom_ok E gen d'" "im_find1 (d_idmap d') = (im_find1 (d_idmap d))(i := None)" "d_poly d' = d_poly d"
    using k by auto
qed

lemma kill_sound:
  assumes "foldM varKillIdent js d = Some d'" and "dom_ok E gen d" and "reg_only d"
  shows "dom_ok E gen d'" and "reg_only d'" and "same_frame d d'" and "covers E X d \<rho> \<Longrightarrow> covers E X d' \<rho>"
proof -
  let ?I = "\<lambda>d'. dom_ok E gen d' \<and> reg_only d' \<and> same_frame d d' \<and> (\<forall>v \<rho>. models E d v \<rho> \<longrightarrow> models E d' v \<rho>)"
  have "?I d'"
    using assms(1)
  proof (rule foldM_invariant)
    show "?I d" using assms by simp
    fix i s s'
    assume s: "?I s" and k: "varKillIdent i s = Some s'"
    have "dom_ok E gen s" using s by blast
    note one = kill_one [OF this k]
    have "reg_only s'" using s one(2) by (simp add: reg_only_def)
    moreover have "models E s v \<rho> \<Longrightarrow> models E s' v \<rho>" for v \<rho> using one(2,3) by (simp add: models_def)
    ultimately show "?I s'" using s one(1) same_frame_trans [OF _ kill_frame [OF k]] by blast
  qed
  then show "dom_ok E gen d'" "reg_only d'" "same_frame d d'" "covers E X d \<rho> \<Longrightarrow> covers E X d' \<rho>"
    using covers_mono [of d d'] by (auto simp: same_frame_def)
qed

lemma bottom_covers: "dom_ok E gen d \<Longrightarrow> isBottom E d \<Longrightarrow> \<not> covers E X d \<rho>"
  using Header_Sound.poly_env.bottom_sem [OF poly_env_axioms] by (simp add: covers_def)

lemma finalize_sound:
  assumes "doFinalizeUpdate E d = Some d'" and ok: "dom_ok E gen d" and "reg_only d"
  shows "plain E gen d'" and "covers E X d \<rho> \<Longrightarrow> covers E X d' \<rho>" and "hasFilter d' \<Longrightarrow> same_frame d d'"
proof -
  have "\<exists>d1. doFinalizeUpdate E d = Some d1 \<and> dom_ok E gen d1 \<and> (\<forall>v \<rho>. models E d v \<rho> \<longrightarrow> models E d1 v \<rho>)"
    by (rule finalize_ok [OF ok]) blast
  then have m: "dom_ok E gen d'" "\<And>v \<rho>. models E d v \<rho> \<Longrightarrow> models E d' v \<rho>" using assms(1) by auto
  show "plain E gen d'" using m(1) finalize_shape [OF assms(1)] assms(3) by (simp add: plain_def)
  have fr: "same_frame d d'" if "\<not> isBottom E d"
    using assms(1) that by (auto simp: doFinalizeUpdate_def bindE same_frame_def)
  show "covers E X d \<rho> \<Longrightarrow> covers E X d' \<rho>"
    using covers_mono [of d d' X \<rho>] m(2) fr bottom_covers [OF ok, of X \<rho>] by (auto simp: same_frame_def)
  have "\<not> hasFilter (dom_bottom E)" by (simp add: hasFilter_def dom_bottom_def ident_invalid_def)
  then show "hasFilter d' \<Longrightarrow> same_frame d d'"
    using assms(1) fr by (auto simp: doFinalizeUpdate_def setBottom_def split: if_splits)
qed

text \<open>The instructions of one machine instruction, after those in \<open>pre\<close>.\<close>

lemma sems_sound:
  assumes "foldM (\<lambda>si (s, gen). onSemInst E si s gen) sem (s, gen) = Some (s', gen')"
    and "dom_ok E gen s" and "reg_only s" and "list_all supported sem" and "sem_tracked E sem (s, gen)" and "pending pre s"
  shows "gen \<le> gen' \<and> dom_ok E gen' s' \<and> reg_only s' \<and> pending (pre @ sem) s' \<and>
    (\<forall>X \<rho> \<rho>'. covers E X s \<rho> \<longrightarrow> sem_steps sem \<rho> \<rho>' \<longrightarrow> covers E X s' \<rho>')"
  using assms
proof (induction sem arbitrary: s gen pre)
  case Nil
  then show ?case by (auto elim: sem_steps_nilE)
next
  case (Cons si sem)
  obtain s1 gen1 where r: "onSemInst E si s gen = Some (s1, gen1)"
    "foldM (\<lambda>si (s, gen). onSemInst E si s gen) sem (s1, gen1) = Some (s', gen')"
    using Cons.prems(1) by (auto simp: bindE)
  have tr: "\<forall>i \<in> set (reads si). hasIdent s i" "sem_tracked E sem (s1, gen1)"
    using Cons.prems(5) r(1) by (auto simp: list_all_iff)
  have sup: "supported si" "list_all supported sem" using Cons.prems(4) by simp_all
  note a = inst_sound [OF Cons.prems(2) sup(1) tr(1) r(1), unfolded after_inst_def]
  have ro: "reg_only s1" by (rule reg_only_same [OF Cons.prems(3)]) (use a in blast)
  have "pending (pre @ [si]) s1"
    unfolding pending_def
  proof (intro impI)
    assume f: "hasFilter s1"
    show "\<exists>sj \<in> set (pre @ [si]). branch_of (pre @ [si]) = Some sj \<and> si_op sj = IF \<and>
        d_compare_reg s1 = Reg (si_a sj) \<and> d_compare_op s1 = cond_of_int (si_d sj)"
    proof (cases "si_op si = IF \<and> hasIdent s (Reg (si_a si))")
      case True
      then show ?thesis using a by (auto simp: branch_of_snoc)
    next
      case False
      then have same: "d_compare_reg s1 = d_compare_reg s" "d_compare_op s1 = d_compare_op s" using a by auto
      then have hf: "hasFilter s" using f by (simp add: hasFilter_def)
      then have "si_op si \<noteq> IF" using inst_filter [OF r(1)] by auto
      then show ?thesis using Cons.prems(6) hf same by (auto simp: branch_of_snoc pending_def)
    qed
  qed
  then have ih: "gen1 \<le> gen' \<and> dom_ok E gen' s' \<and> reg_only s' \<and> pending ((pre @ [si]) @ sem) s' \<and>
    (\<forall>X \<rho> \<rho>'. covers E X s1 \<rho> \<longrightarrow> sem_steps sem \<rho> \<rho>' \<longrightarrow> covers E X s' \<rho>')"
    using a ro by (intro Cons.IH [OF r(2) _ _ sup(2) tr(2)]) blast+
  have "covers E X s' \<rho>'" if "covers E X s \<rho>" "sem_steps (si # sem) \<rho> \<rho>'" for X \<rho> \<rho>'
    using that a ih by (elim sem_steps_consE) blast
  then show ?case using ih a by auto
qed

lemma process_inst_sound:
  assumes "process_inst E sem (s, gen) = Some (s', gen')"
    and "dom_ok E gen s" and "reg_only s" and "list_all supported sem" and "sem_tracked E sem (s, gen)" and "pending pre s"
  shows "gen \<le> gen' \<and> plain E gen' s' \<and> pending (pre @ sem) s' \<and>
    (\<forall>X \<rho> \<rho>'. covers E X s \<rho> \<longrightarrow> sem_steps sem \<rho> \<rho>' \<longrightarrow> covers E X s' \<rho>')"
proof -
  obtain s1 s2 where r: "foldM (\<lambda>si (s, gen). onSemInst E si s gen) sem (s, gen) = Some (s1, gen')"
    "doKillTemporaries s1 = Some s2" "doFinalizeUpdate E s2 = Some s'" using assms(1) by (auto simp: process_inst_def bindE)
  note a = sems_sound [OF r(1) assms(2-)]
  have ok1: "dom_ok E gen' s1" "reg_only s1" using a by blast+
  note k = kill_sound [OF r(2) [unfolded doKillTemporaries_def] ok1]
  note fin = finalize_sound [OF r(3) k(1,2)]
  have "pending (pre @ sem) s'"
    by (rule pending_frame [of _ s1]) (use a same_frame_trans [OF k(3) fin(3)] in blast)+
  moreover have "covers E X s' \<rho>'" if "covers E X s \<rho>" "sem_steps sem \<rho> \<rho>'" for X \<rho> \<rho>'
  proof -
    have "covers E X s1 \<rho>'" using a that by blast
    then show ?thesis by (intro fin(2) k(4))
  qed
  ultimately show ?thesis using a fin(1) by blast
qed

lemma insts_sound:
  assumes "foldM (process_inst E) insts (s, gen) = Some (s', gen')"
    and "plain E gen s" and "\<forall>sem \<in> set insts. list_all supported sem" and "insts_tracked E insts (s, gen)" and "pending pre s"
  shows "gen \<le> gen' \<and> plain E gen' s' \<and> pending (pre @ concat insts) s' \<and>
    (\<forall>X \<rho> \<rho>'. covers E X s \<rho> \<longrightarrow> sem_steps (concat insts) \<rho> \<rho>' \<longrightarrow> covers E X s' \<rho>')"
  using assms
proof (induction insts arbitrary: s gen pre)
  case Nil
  then show ?case by (auto elim: sem_steps_nilE)
next
  case (Cons sem insts)
  obtain s1 gen1 where r: "process_inst E sem (s, gen) = Some (s1, gen1)" "foldM (process_inst E) insts (s1, gen1) = Some (s', gen')"
    using Cons.prems(1) by (auto simp: bindE)
  have tr: "sem_tracked E sem (s, gen)" "insts_tracked E insts (s1, gen1)" using Cons.prems(4) r(1) by auto
  have ok: "dom_ok E gen s" "reg_only s" using Cons.prems(2) by (simp_all add: plain_def)
  have a: "gen \<le> gen1 \<and> plain E gen1 s1 \<and> pending (pre @ sem) s1 \<and>
      (\<forall>X \<rho> \<rho>'. covers E X s \<rho> \<longrightarrow> sem_steps sem \<rho> \<rho>' \<longrightarrow> covers E X s1 \<rho>')"
    using Cons.prems(3) by (intro process_inst_sound [OF r(1) ok _ tr(1) Cons.prems(5)]) simp
  have ih: "gen1 \<le> gen' \<and> plain E gen' s' \<and> pending ((pre @ sem) @ concat insts) s' \<and>
      (\<forall>X \<rho> \<rho>'. covers E X s1 \<rho> \<longrightarrow> sem_steps (concat insts) \<rho> \<rho>' \<longrightarrow> covers E X s' \<rho>')"
    using Cons.prems(3) a by (intro Cons.IH [OF r(2) _ _ tr(2)]) auto
  have "covers E X s' \<rho>'" if c: "covers E X s \<rho>" and st: "sem_steps (concat (sem # insts)) \<rho> \<rho>'" for X \<rho> \<rho>'
  proof -
    obtain \<rho>1 where 1: "sem_steps sem \<rho> \<rho>1" "sem_steps (concat insts) \<rho>1 \<rho>'" using st by (auto simp: sem_steps_append)
    have "covers E X s1 \<rho>1" using a c 1(1) by blast
    then show ?thesis using ih 1(2) by blast
  qed
  then show ?case using a ih by simp
qed

text \<open>Counting the memory variables changes nothing in a state over registers.\<close>

lemma count_nothing:
  assumes "foldM (count_ident E) is (d, c) = Some (d', c')" and "\<forall>i \<in> set is. id_type i \<noteq> ID_MEM_ADDR"
  shows "d' = d"
proof -
  have "fst (d', c') = d"
    using assms(1) by (rule foldM_invariant) (use assms(2) in \<open>auto simp: count_ident_def Let_def bindE\<close>)
  then show ?thesis by simp
qed

lemma list_memory_sound:
  assumes "listMemoryVariables E d = Some d'" and d: "plain E gen d"
  shows "plain E gen d'" and "covers E X d \<rho> \<Longrightarrow> covers E X d' \<rho>" and "hasFilter d' \<Longrightarrow> same_frame d d'"
proof -
  have ok: "dom_ok E gen d" "reg_only d" using d by (simp_all add: plain_def)
  obtain d1 c c' where r: "doFinalizeUpdate E d = Some d1" "foldM (count_ident E) (map fst (im_pairs (d_idmap d1))) (d1, c) = Some (d', c')"
    using assms(1) avatars_nothing(1) [OF ok] by (auto simp: listMemoryVariables_def bindE)
  note fin = finalize_sound [OF r(1) ok]
  have "id_type i \<noteq> ID_MEM_ADDR" if "i \<in> set (map fst (im_pairs (d_idmap d1)))" for i
    using that fin(1) im_pairs_iff [of "d_idmap d1"] by (auto simp: plain_def reg_only_def mem_types_def dom_ok_def)
  then have "d' = d1" using count_nothing [OF r(2)] by blast
  then show "plain E gen d'" "covers E X d \<rho> \<Longrightarrow> covers E X d' \<rho>" "hasFilter d' \<Longrightarrow> same_frame d d'" using fin by simp_all
qed

lemma basic_block_sound:
  assumes run: "process_basic E insts live s an = Some (s', an')" and s: "plain E (an_gen an) s" "\<not> hasFilter s"
    and sup: "\<forall>sem \<in> set insts. list_all supported sem" and tr: "insts_tracked E insts (s, an_gen an)"
  shows "an_gen an \<le> an_gen an'" and "plain E (an_gen an') s'" and "pending (concat insts) s'"
    and "covers E X s \<rho> \<Longrightarrow> sem_steps (concat insts) \<rho> \<rho>' \<Longrightarrow> covers E X s' \<rho>'"
proof -
  obtain s1 s2 s3 s4 gen where r: "foldM (process_inst E) insts (s, an_gen an) = Some (s1, gen)" "doKillRegisters live s1 = Some s2"
    "doRemoveUselessAvatars E s2 = Some s3" "doFinalizeUpdate E s3 = Some s4" "listMemoryVariables E s4 = Some s'" "an_gen an' = gen"
    using run by (auto simp: process_basic_def bindE Let_def)
  have "pending [] s" using s(2) by (simp add: pending_def)
  note a = insts_sound [OF r(1) s(1) sup tr this, simplified]
  have ok1: "dom_ok E gen s1" "reg_only s1" using a by (auto simp: plain_def)
  note k = kill_sound [OF r(2) [unfolded doKillRegisters_def] ok1]
  have e: "s3 = s2" using r(3) avatars_nothing(1) [OF k(1,2)] by simp
  note fin = finalize_sound [OF r(4) [unfolded e] k(1,2)]
  note lst = list_memory_sound [OF r(5) fin(1)]
  have fr: "same_frame s1 s'" if hf: "hasFilter s'"
  proof -
    have f4: "same_frame s4 s'" by (rule lst(3) [OF hf])
    then have "hasFilter s4" using hf same_frame_filter by blast
    then have "same_frame s2 s4" by (rule fin(3))
    then show ?thesis by (intro same_frame_trans [OF k(3)] same_frame_trans [OF _ f4])
  qed
  show "an_gen an \<le> an_gen an'" "plain E (an_gen an') s'" using a lst(1) r(6) by simp_all
  show "pending (concat insts) s'"
    by (rule pending_frame [of _ s1]) (use a fr in blast)+
  assume "covers E X s \<rho>" "sem_steps (concat insts) \<rho> \<rho>'"
  then have "covers E X s1 \<rho>'" using a by blast
  then show "covers E X s' \<rho>'" by (intro lst(2) fin(2) k(4))
qed

end

end
