(* ===== verification/Join_Sound.thy ===== *)
theory Join_Sound
  imports Block_Sound
begin

text \<open>
  Joins, widening, comparisons and bounds on covered machine states: whenever the code returns,
  what one operand stands for is kept, including the recorded bounds, whatever a growing vector
  of bounds leaves in its new cells.
\<close>

subsection \<open>Bounds\<close>

lemma in_bound_nonpos: "x \<le> 0 \<Longrightarrow> in_bound b x"
  by (simp add: in_bound_def max_def)

text \<open>A positive counter is in bound only of a recorded bound.\<close>

lemma in_bound_pos: "\<not> x \<le> 0 \<Longrightarrow> in_bound b x \<longleftrightarrow> b = UNBOUNDED \<or> x \<le> b"
  by (auto simp: in_bound_def)

lemma getBound_setBound:
  "getBound (setBound E k b d) i =
     (if b \<noteq> 0 \<and> i = k \<and> (length (d_bounds d) \<le> k \<or> getBound d k \<noteq> UNBOUNDED \<and> (getBound d k < b \<or> b = UNBOUNDED)) then b
      else if b \<noteq> 0 \<and> length (d_bounds d) \<le> i \<and> i < k then e_junk E
      else getBound d i)"
proof (cases "b = 0 \<or> \<not> length (d_bounds d) \<le> k")
  case True
  then show ?thesis by (auto simp: setBound_def getBound_def Let_def)
next
  case False
  then show ?thesis by (auto simp: setBound_def getBound_def Let_def nth_append nth_list_update)
qed

lemma setBound_keeps:
  assumes "in_bound (getBound d i) x"
  shows "in_bound (getBound (setBound E k b d) i) x"
proof (cases "x \<le> 0")
  case False
  have "i < length (d_bounds d)" using assms False by (auto simp: getBound_def in_bound_pos UNBOUNDED_def split: if_splits)
  then show ?thesis using assms False unfolding getBound_setBound in_bound_pos [OF False] by auto
qed (rule in_bound_nonpos)

lemma setBound_new:
  assumes "in_bound b x"
  shows "in_bound (getBound (setBound E i b d) i) x"
proof (cases "x \<le> 0")
  case False
  then show ?thesis using assms unfolding getBound_setBound in_bound_pos [OF False] by (auto simp: UNBOUNDED_def)
qed (rule in_bound_nonpos)

lemma merge_bounds_keeps:
  assumes "in_bound (getBound l i) x \<or> in_bound (getBound r i) x"
  shows "in_bound (getBound (merge_bounds E r l) i) x"
proof -
  let ?f = "\<lambda>is l. fold (\<lambda>j l1. setBound E j (getBound r j) l1) is l"
  have left: "in_bound (getBound (?f is l) i) x" if "in_bound (getBound l i) x" for "is" l
    using that by (induction "is" arbitrary: l) (simp_all add: setBound_keeps)
  have right: "in_bound (getBound (?f is l) i) x" if "i \<in> set is" "in_bound (getBound r i) x" for "is" l
    using that(1)
  proof (induction "is" arbitrary: l)
    case (Cons j js)
    show ?case
    proof (cases "j = i")
      case True
      then have "in_bound (getBound (setBound E j (getBound r j) l) i) x" using setBound_new [OF that(2)] by simp
      then show ?thesis using left by simp
    qed (use Cons in simp)
  qed simp
  show ?thesis
  proof (cases "i < length (d_bounds r)")
    case True
    then show ?thesis using assms left [of l] right [of "[0..<length (d_bounds r)]" l] by (auto simp: merge_bounds_def)
  next
    case False
    then have "in_bound (getBound l i) x" using assms by (auto simp: getBound_def in_bound_def UNBOUNDED_def)
    then show ?thesis using left by (simp add: merge_bounds_def)
  qed
qed

lemma setBound_frame [simp]: "hasFilter (setBound E k b d) = hasFilter d"
  by (simp add: hasFilter_def)

lemma merge_bounds_frame [simp]: "hasFilter (merge_bounds E r d) = hasFilter d"
proof -
  have "hasFilter (fold (\<lambda>i l1. setBound E i (getBound r i) l1) is d) = hasFilter d" for "is"
    by (induction "is" arbitrary: d) simp_all
  then show ?thesis by (simp add: merge_bounds_def)
qed

lemma covers_setBound: "covers E X d \<rho> \<Longrightarrow> covers E X (setBound E k b d) \<rho>"
  by (auto simp: covers_def counters_in_def setBound_keeps)

text \<open>On a back edge the counter of the loop is not yet bounded; the bound of the loop is.\<close>

lemma covers_back:
  assumes "covers E {h} d \<rho>" and "in_bound b (\<rho> (Ident h ID_LOOP))"
  shows "covers E {} (setBound E (nat h) b d) \<rho>"
  using assms setBound_new [OF assms(2)] setBound_keeps by (fastforce simp: covers_def counters_in_def)

lemma covers_weaken: "covers E X d \<rho> \<Longrightarrow> X \<subseteq> Y \<Longrightarrow> covers E Y d \<rho>"
  by (auto simp: covers_def counters_in_def)

subsection \<open>Unification and join\<close>

lemma rename_fold_frame:
  assumes "foldM (rename_register E) ps u = Some u'"
  shows "u_gen u' = u_gen u \<and> u_right u' = u_right u \<and> u_left u' = u_left u"
  using assms
  by (rule foldM_invariant) (auto simp: rename_register_def u_add_def bindE split: if_splits option.splits)

lemma doMap_frame: "doMap E f d = Some d' \<Longrightarrow> same_frame d d'"
  by (auto simp: doMap_def doMapPoly_def doMapIdents_def same_frame_def bindE split: if_splits)

context poly_env
begin

lemma unify_keeps:
  assumes l: "dom_ok E gen l" "reg_only l" and r: "dom_ok E gen r" "reg_only r"
    and run: "doUnify E noPtr False l r gen = Some (l', r', gen')"
  shows "gen' = gen" and "r' = r" and "same_frame l l'" and "noPtr \<or> wp_dom (d_poly l) \<inter> wp_dom (d_poly r) \<noteq> {}"
proof -
  let ?u = "\<lparr>u_left = l, u_right = r, u_rename = ht_new default_size, u_gen = gen\<rparr>"
  show common: "noPtr \<or> wp_dom (d_poly l) \<inter> wp_dom (d_poly r) \<noteq> {}"
    using unify_no_common [OF dom_okD(2) [OF l(1)] dom_okD(2) [OF r(1)]] run by (cases noPtr) auto
  have mem: "(if noPtr then Some ?u else unify_memory E False ?u) = Some ?u"
    using common unify_memory_nothing [OF l r, of ?u] by auto
  obtain u where u: "foldM (rename_register E) (im_pairs (d_idmap l)) ?u = Some u" "doMap E (map_guid E (u_rename u)) (u_left u) = Some l'"
    "r' = u_right u" "gen' = u_gen u" using run mem by (auto simp: doUnify_def bindE)
  then show "gen' = gen" "r' = r" "same_frame l l'" using rename_fold_frame [OF u(1)] doMap_frame [OF u(2)] by simp_all
qed

lemma equals_keeps:
  assumes d: "dom_ok E gen d" "reg_only d" and b: "dom_ok E gen b" "reg_only b"
    and eq: "dom_equals E d b gen = Some (x, gen')"
  shows "gen' = gen" and "x \<Longrightarrow> \<not> isBottom E d \<Longrightarrow> d_bounds d = d_bounds b"
proof -
  obtain d0 b0 where c: "dom_copy d = Some d0" "dom_copy b = Some b0" using dom_copy_ok [OF d(1)] dom_copy_ok [OF b(1)] by metis
  note dc = copy_same [OF d(1) c(1)] and bc = copy_same [OF b(1) c(2)]
  have ro: "reg_only d0" "reg_only b0" using d(2) b(2) dc(2) bc(2) by (simp_all add: reg_only_def)
  note keep = unify_keeps(1) [OF dc(1) ro(1) bc(1) ro(2)]
  have full: "g = gen" if "equals_full E d b cd cb gen = Some (y, g)" for cd cb y g
    using that c by (auto simp: equals_full_def bindE split: if_splits dest!: keep)
  show "gen' = gen"
    using eq c by (auto simp: dom_equals_def bindE Let_def split: if_splits dest!: keep full)
  show "x \<Longrightarrow> \<not> isBottom E d \<Longrightarrow> d_bounds d = d_bounds b"
    using eq by (auto simp: dom_equals_def bindE split: if_splits)
qed

text \<open>A join that returns found a variable and a register in common, so the totality lemma applies.\<close>

lemma unify_needs_common:
  assumes l: "plain E gen l" "\<not> isBottom E l" and r: "plain E gen r"
    and run: "doUnify E False avcreate l r gen = Some y"
  shows "wp_dom (d_poly l) \<inter> wp_dom (d_poly r) \<noteq> {}"
proof
  assume none: "wp_dom (d_poly l) \<inter> wp_dom (d_poly r) = {}"
  have ok: "dom_ok E gen l" "reg_only l" "d_victims l = []" "dom_ok E gen r" using l r by (simp_all add: plain_def)
  have "(if avcreate then do { l1 \<leftarrow> doRemoveUselessAvatars E l; l1 \<leftarrow> doRemoveAllAvatars l1; doFinalizeUpdate E l1 } else Some l) = Some l"
    using avatars_nothing [OF ok(1,2)] finalize_nothing [OF l(2) ok(3)] by simp
  then show False
    using run no_common_variable(1) [OF dom_okD(2) [OF ok(1)] dom_okD(2) [OF ok(4)] none]
      collect_total [OF dom_okD(2) [OF ok(1)]] collect_total [OF dom_okD(2) [OF ok(4)]]
    by (auto simp: doUnify_def unify_memory_def)
qed

lemma copy_plain_of:
  assumes "plain E gen d" and "dom_copy d = Some d'"
  shows "plain E gen d'" and "isBottom E d' = isBottom E d"
  using assms copy_same [of gen d d'] by (auto simp: plain_def reg_only_def isBottom_def)

lemma merge_unfold:
  assumes d: "plain E gen d" "\<not> isBottom E d" and r: "plain E gen r" "\<not> isBottom E r"
    and run: "onMerge E d r widen avcreate gen = Some (s, gen')"
  obtains d0 r0 l p m where "dom_copy d = Some d0" and "dom_copy r = Some r0" and "doUnify E False False d0 r0 gen = Some (l, r0, gen)"
    and "same_frame d l" and "wp_hull (e_ppl E) (d_poly (merge_bounds E r0 l)) (d_poly r0) \<noteq> None"
    and "doFinalizeUpdate E ((merge_bounds E r0 l)\<lparr>d_poly := p\<rparr>) = Some m" and "s = merge_bounds E r0 m"
    and "wp_dom (d_poly d) \<inter> wp_dom (d_poly r) \<noteq> {}"
proof -
  obtain d0 r0 where c: "dom_copy d = Some d0" "dom_copy r = Some r0" using run d(2) r(2) by (auto simp: onMerge_def bindE)
  have dp: "plain E gen d0" "\<not> isBottom E d0" and rp: "plain E gen r0" using copy_plain_of [OF d(1) c(1)] copy_plain_of [OF r(1) c(2)] d(2) by simp_all
  then have ok: "dom_ok E gen d0" "reg_only d0" "d_victims d0 = []" "dom_ok E gen r0" "reg_only r0" by (simp_all add: plain_def)
  obtain l r1 gen1 h p m where u: "doUnify E False avcreate d0 r0 gen = Some (l, r1, gen1)"
    and h: "wp_hull (e_ppl E) (d_poly l) (d_poly r1) = Some h"
    and fin: "doFinalizeUpdate E ((merge_bounds E r1 l)\<lparr>d_poly := p\<rparr>) = Some m" "s = merge_bounds E r1 m"
    using run d(2) r(2) c by (auto simp: onMerge_def bindE)
  have common: "wp_dom (d_poly d0) \<inter> wp_dom (d_poly r0) \<noteq> {}" by (rule unify_needs_common [OF dp rp u])
  have u': "doUnify E False False d0 r0 gen = Some (l, r1, gen1)"
    by (rule trans [OF unify_avcreate [OF ok(1,2) dp(2) ok(3,4,5) common, symmetric] u])
  note k = unify_keeps [OF ok(1,2,4,5) u']
  have "same_frame d l" by (rule same_frame_trans [OF copy_frame [OF c(1)] k(3)])
  moreover have "d_poly d0 = d_poly d" "d_poly r0 = d_poly r"
    using copy_same(3) [OF _ c(1)] copy_same(3) [OF _ c(2)] d(1) r(1) by (auto simp: plain_def)
  ultimately show thesis using that [OF c] u' k(1,2) h fin common by auto
qed

lemma merge_possible:
  assumes d: "plain E gen d" and r: "plain E gen r" and run: "onMerge E d r widen avcreate gen = Some (s, gen')"
  shows "mergeable E d r"
proof (cases "isBottom E d \<or> isBottom E r")
  case False
  then have nb: "\<not> isBottom E d" "\<not> isBottom E r" by blast+
  show ?thesis
  proof (rule merge_unfold [OF d nb(1) r nb(2) run])
    fix d0 r0 l p m
    assume c: "dom_copy d = Some d0" "dom_copy r = Some r0" and u: "doUnify E False False d0 r0 gen = Some (l, r0, gen)"
      and h: "wp_hull (e_ppl E) (d_poly (merge_bounds E r0 l)) (d_poly r0) \<noteq> None"
      and common: "wp_dom (d_poly d) \<inter> wp_dom (d_poly r) \<noteq> {}"
    have ok: "dom_ok E gen d" "dom_ok E gen r" "reg_only d" "reg_only r" using d r by (simp_all add: plain_def)
    note dc = copy_same [OF ok(1) c(1)] and rc = copy_same [OF ok(2) c(2)]
    have ro: "reg_only d0" "reg_only r0" using ok(3,4) dc(2) rc(2) by (simp_all add: reg_only_def)
    have nb0: "d_num_axis d0 \<noteq> -1" using nb(1) dc(6) by (simp add: isBottom_def)
    have cm: "False \<or> wp_dom (d_poly d0) \<inter> wp_dom (d_poly r0) \<noteq> {}" using common dc(3) rc(3) by simp
    have l: "dom_ok E gen l \<and> wp_dom (d_poly l) = {h. \<exists>g \<in> wp_dom (d_poly d0). partners d0 r0 g h}"
      by (rule unify_regs [OF dc(1) ro(1) nb0 rc(1) ro(2) cm]) (use u in simp)
    have "wp_dom (d_poly l) \<inter> wp_dom (d_poly r0) \<noteq> {}"
    proof
      assume "wp_dom (d_poly l) \<inter> wp_dom (d_poly r0) = {}"
      then show False using no_common_variable(1) [OF dom_okD(2) [OF conjunct1 [OF l]] dom_okD(2) [OF rc(1)]] h by simp
    qed
    moreover have "partners d0 r0 = partners d r" using dc(2) rc(2) by (simp add: partners_def fun_eq_iff)
    ultimately have "share_register d r" using l dc(3) rc(3) by (auto simp: share_register_def)
    then show "mergeable E d r" using common by (simp add: mergeable_def)
  qed
qed (auto simp: mergeable_def)

text \<open>\<open>settled_in E gen d\<close>: what the analysis keeps of every state that it stores.\<close>

definition settled_in :: "guid \<Rightarrow> 'p domain \<Rightarrow> bool" where
  "settled_in gen d \<longleftrightarrow> plain E gen d \<and> \<not> hasFilter d"

lemma settled_mono: "settled_in gen d \<Longrightarrow> gen \<le> gen' \<Longrightarrow> settled_in gen' d"
  using plain_mono by (auto simp: settled_in_def)

lemma merge_sound:
  assumes d: "settled_in gen d" and r: "settled_in gen r" and run: "onMerge E d r widen avcreate gen = Some (s, gen')"
  shows "gen' = gen" and "settled_in gen s" and "covers E X d \<rho> \<or> covers E X r \<rho> \<Longrightarrow> covers E X s \<rho>"
proof -
  have dr: "plain E gen d" "plain E gen r" "\<not> hasFilter d" "\<not> hasFilter r" using d r by (simp_all add: settled_in_def)
  have "\<exists>s1. onMerge E d r widen avcreate gen = Some (s1, gen) \<and> plain E gen s1 \<and> dom_sem E d \<subseteq> dom_sem E s1 \<and> dom_sem E r \<subseteq> dom_sem E s1"
    by (rule merge_plain [OF dr(1,2) merge_possible [OF dr(1,2) run], of widen avcreate]) blast
  then have m: "gen' = gen" "plain E gen s" "dom_sem E d \<subseteq> dom_sem E s" "dom_sem E r \<subseteq> dom_sem E s" using run by auto
  show "gen' = gen" by (rule m(1))
  have ok: "dom_ok E gen d" "dom_ok E gen r" "dom_ok E gen s" using dr m(2) by (simp_all add: plain_def)
  have both: "\<not> hasFilter s \<and> (\<forall>X \<rho>. covers E X d \<rho> \<or> covers E X r \<rho> \<longrightarrow> covers E X s \<rho>)"
  proof (cases "isBottom E d \<or> isBottom E r")
    case True
    have copy: "\<not> hasFilter s \<and> (\<forall>X. covers E X s = covers E X x)" if "dom_copy x = Some s" "dom_ok E gen x" "\<not> hasFilter x" for x
      using that same_frame_filter [OF copy_frame [OF that(1)]] covers_copy [OF that(2,1)] by simp
    show ?thesis
    proof (cases "isBottom E r")
      case True
      then have "dom_copy d = Some s" using run by (auto simp: onMerge_def bindE)
      then show ?thesis using copy [OF _ ok(1) dr(3)] bottom_covers [OF ok(2) True] by auto
    next
      case False
      then have b: "isBottom E d" and "dom_copy r = Some s" using run True by (auto simp: onMerge_def bindE)
      then show ?thesis using copy [OF _ ok(2) dr(4)] bottom_covers [OF ok(1) b] by auto
    qed
  next
    case False
    then have nb: "\<not> isBottom E d" "\<not> isBottom E r" by blast+
    show ?thesis
    proof (rule merge_unfold [OF dr(1) nb(1) dr(2) nb(2) run])
      fix d0 r0 l p m'
      assume c: "dom_copy d = Some d0" "dom_copy r = Some r0" and fr: "same_frame d l"
        and fin: "doFinalizeUpdate E ((merge_bounds E r0 l)\<lparr>d_poly := p\<rparr>) = Some m'" and s: "s = merge_bounds E r0 m'"
      have rb: "d_bounds r0 = d_bounds r" using copy_frame [OF c(2)] by (simp add: same_frame_def)
      let ?m = "(merge_bounds E r0 l)\<lparr>d_poly := p\<rparr>"
      have nfl: "\<not> hasFilter ?m" using same_frame_filter [OF fr] dr(3) merge_bounds_frame [of E r0 l] by (simp add: hasFilter_def)
      have "m' = dom_bottom E \<or> d_compare_reg m' = d_compare_reg ?m"
        using fin by (auto simp: doFinalizeUpdate_def setBottom_def bindE split: if_splits)
      then have "\<not> hasFilter m'" using nfl by (auto simp: hasFilter_def dom_bottom_def ident_invalid_def)
      then have nf: "\<not> hasFilter s" using s by simp
      have "covers E X s \<rho>" if cov: "covers E X d \<rho> \<or> covers E X r \<rho>" for X \<rho>
      proof -
        have sem: "lift \<rho> \<in> dom_sem E s" using cov m(3,4) by (auto simp: covers_def)
        have "d_bounds m' = d_bounds ?m"
        proof (rule ccontr)
          assume "d_bounds m' \<noteq> d_bounds ?m"
          then have "m' = dom_bottom E" using fin by (auto simp: doFinalizeUpdate_def setBottom_def bindE split: if_splits)
          then have "dom_sem E s = dom_sem E (dom_bottom E)" using s by (simp add: dom_sem_def merge_bounds_models)
          then have "dom_sem E s = {}" by simp
          then show False using sem by simp
        qed
        then have "getBound m' = getBound (merge_bounds E r0 l)" by (simp add: getBound_def fun_eq_iff)
        moreover have "getBound l = getBound d" "getBound r0 = getBound r" using fr rb by (simp_all add: getBound_def same_frame_def fun_eq_iff)
        ultimately have "in_bound (getBound d h) x \<or> in_bound (getBound r h) x \<Longrightarrow> in_bound (getBound s h) x" for h x
          using merge_bounds_keeps [of l h x r0 E] merge_bounds_keeps [of m' h x r0 E] s by simp
        then show ?thesis using sem cov by (auto simp: covers_def counters_in_def)
      qed
      then show ?thesis using nf by blast
    qed
  qed
  show "settled_in gen s" using m(2) both by (simp add: settled_in_def)
  show "covers E X d \<rho> \<or> covers E X r \<rho> \<Longrightarrow> covers E X s \<rho>" using both by blast
qed

end

end
