(* ===== verification/Edge_Sound.thy ===== *)
theory Edge_Sound
  imports Join_Sound
begin

text \<open>
  Edges: the condition of a branch, the counters of loops, the bound of a loop that is left, and
  the check that stores the state of an edge. Machine states that take the edge are covered by
  what the store holds for the edge afterwards.
\<close>

definition edge_taken :: "cfg \<Rightarrow> nat \<Rightarrow> sem_inst list \<Rightarrow> mstate \<Rightarrow> bool" where
  "edge_taken c e sis \<rho> \<longleftrightarrow> (case branch_of sis of None \<Rightarrow> True
     | Some si \<Rightarrow> cond_sat (cond_of_int (si_d si)) (of_int (\<rho> (Reg (si_a si)))) = c_taken c e)"

text \<open>The counter of a loop is 0 when the loop is entered and goes up on every back edge.\<close>

definition is_back :: "cfg \<Rightarrow> nat \<Rightarrow> bool" where
  "is_back c e \<longleftrightarrow> li_header (c_loops c) (sinkOf (c_graph c) e) \<and>
     li_dominates (c_loops c) (sinkOf (c_graph c) e) (sourceOf (c_graph c) e)"

definition loop_move :: "cfg \<Rightarrow> nat \<Rightarrow> mstate \<Rightarrow> mstate" where
  "loop_move c e \<rho> =
     (let i = Ident (block_id c (sinkOf (c_graph c) e)) ID_LOOP in
      if is_back c e then \<rho>(i := \<rho> i + 1)
      else if li_header (c_loops c) (sinkOf (c_graph c) e) then \<rho>(i := 0) else \<rho>)"

text \<open>The loop whose counter is not yet bounded on an edge.\<close>

definition back_of :: "cfg \<Rightarrow> nat \<Rightarrow> int set" where
  "back_of c e = (if is_back c e then {block_id c (sinkOf (c_graph c) e)} else {})"

definition bounds_fit :: "'p domain \<Rightarrow> bool" where
  "bounds_fit d \<longleftrightarrow> list_all (\<lambda>b. b < 2 ^ 31) (d_bounds d)"

lemma bounds_fit_get: "bounds_fit d \<Longrightarrow> getBound d k < 2 ^ 31"
  by (auto simp: bounds_fit_def getBound_def list_all_length)

text \<open>A bound that fits is not changed by the conversion to \<open>int\<close>; a negative one may be anything.\<close>

lemma exit_bound:
  assumes "in_bound b x" and "b < 2 ^ 31" and "0 \<le> to_int32 b"
  shows "x \<le> to_int32 b"
proof (cases "0 \<le> b")
  case True
  then have "to_int32 b = b" using assms(2) by (intro to_int32_exact) auto
  then show ?thesis using assms(1) True by (auto simp: in_bound_def UNBOUNDED_def)
next
  case False
  have "to_int32 (- 2) = - 2" by (rule to_int32_exact) simp_all
  then have "b \<noteq> UNBOUNDED" using assms(3) by (auto simp: UNBOUNDED_def)
  then show ?thesis using assms(1,3) False by (simp add: in_bound_def)
qed

lemma filter_reads:
  assumes "is_relation c" and "branch_filter E c d = Some d'"
  shows "\<exists>iv. im_find1 (d_idmap d) (d_compare_reg d) = Some iv"
proof -
  have "getVar0 d (d_compare_reg d) \<noteq> None"
    using assms by (auto simp: branch_filter_def Let_def is_relation_def bindE split: if_splits)
  then show ?thesis by (auto simp: getVar0_def getVar_def bindE)
qed

context poly_env
begin

lemma branch_partial:
  assumes run: "onBranch E taken addr d ctx = Some (d', ctx')" and ok: "dom_ok E gen d" and ro: "reg_only d"
    and t: "id_type (d_compare_reg d) = ID_REG" and rel: "is_relation (d_compare_op d)"
  shows "dom_ok E gen d'" and "reg_only d'" and "\<not> hasFilter d'" and "bounds_fit d \<Longrightarrow> bounds_fit d'"
    and "covers E X d \<rho> \<Longrightarrow> cond_sat (d_compare_op d) (of_int (\<rho> (d_compare_reg d))) = taken \<Longrightarrow> covers E X d' \<rho>"
proof -
  have bot: "reg_only (dom_bottom E)" "\<not> hasFilter (dom_bottom E)" "bounds_fit (dom_bottom E)"
    by (simp_all add: reg_only_def hasFilter_def dom_bottom_def ident_invalid_def bounds_fit_def)
  have all: "dom_ok E gen d' \<and> reg_only d' \<and> \<not> hasFilter d' \<and> (bounds_fit d \<longrightarrow> bounds_fit d') \<and>
    (\<forall>X \<rho>. covers E X d \<rho> \<longrightarrow> cond_sat (d_compare_op d) (of_int (\<rho> (d_compare_reg d))) = taken \<longrightarrow> covers E X d' \<rho>)"
  proof (cases "isBottom E d")
    case True
    then have "d' = dom_bottom E" using run by (simp add: onBranch_def)
    then show ?thesis using bot bottom_covers [OF ok True] by simp
  next
    case nb: False
    let ?op = "if taken then d_compare_op d else e_invert E (d_compare_op d)"
    obtain d0 d1 d2 where r: "dom_copy d = Some d0" "branch_filter E ?op d0 = Some d1"
      "varKillIdent (d_compare_reg d1) d1 = Some d2"
      and d': "d' = (let res = d2\<lparr>d_compare_reg := ident_invalid\<rparr> in if isBottom E res then dom_bottom E else res)"
      using run nb by (auto simp: onBranch_def bindE Let_def)
    note c = copy_same [OF ok r(1)]
    have op: "is_relation ?op" "cond_sat ?op x \<longleftrightarrow> cond_sat (d_compare_op d) x = taken" for x
      using invert [OF rel] rel by auto
    have c0: "d_compare_reg d0 = d_compare_reg d" using c(4) by (simp add: same_frame_def)
    have t0: "id_type (d_compare_reg d0) \<noteq> ID_MEM_ADDR" using t c0 by simp
    have nb0: "d_num_axis d0 \<noteq> -1" using nb c(6) by (simp add: isBottom_def)
    obtain iv where f: "im_find1 (d_idmap d0) (d_compare_reg d0) = Some iv" using filter_reads [OF op(1) r(2)] by blast
    have "\<exists>p. branch_filter E ?op d0 = Some (d0\<lparr>d_poly := p\<rparr>) \<and> dom_ok E gen (d0\<lparr>d_poly := p\<rparr>) \<and>
      (\<forall>v \<rho>. models E d0 v \<rho> \<longrightarrow> int_sat ?op (\<rho> (d_compare_reg d0)) \<longrightarrow> models E (d0\<lparr>d_poly := p\<rparr>) v \<rho>)"
      by (rule filter_ok [OF c(1) nb0 op(1) f t0]) blast
    then obtain p where p: "d1 = d0\<lparr>d_poly := p\<rparr>" "dom_ok E gen d1"
      "\<And>v \<rho>. models E d0 v \<rho> \<Longrightarrow> int_sat ?op (\<rho> (d_compare_reg d0)) \<Longrightarrow> models E d1 v \<rho>" using r(2) by auto
    note k = kill_one [OF p(2) r(3)]
    let ?d = "d2\<lparr>d_compare_reg := ident_invalid\<rparr>"
    have okd: "dom_ok E gen ?d" using k(1) by (simp add: dom_ok_def)
    have rod: "reg_only ?d" using ro c(2) k(2) p(1) by (simp add: reg_only_def)
    have bnd: "d_bounds ?d = d_bounds d"
      using c(4) kill_frame [OF r(3)] p(1) by (simp add: same_frame_def)
    have "covers E X ?d \<rho>" if cov: "covers E X d \<rho>" and sat: "cond_sat (d_compare_op d) (of_int (\<rho> (d_compare_reg d))) = taken" for X \<rho>
    proof -
      obtain v where "models E d v (lift \<rho>)" using cov by (auto simp: covers_def dom_sem_def)
      then have m0: "models E d0 v (lift \<rho>)" using copy_models [OF ok r(1)] by simp
      have "int_sat ?op (lift \<rho> (d_compare_reg d0))"
        using int_sat_cond [of "lift \<rho> (d_compare_reg d0)" ?op] op(2) sat c0 by (simp add: lift_apply)
      then have "models E d1 v (lift \<rho>)" using p(3) [OF m0] by simp
      then have "models E ?d v (lift \<rho>)" using k(2,3) by (simp add: models_def)
      then show ?thesis using cov counters_in_cong [OF bnd] models_dom_sem by (auto simp: covers_def)
    qed
    then show ?thesis
      using okd rod bot bottom_covers [OF okd] bnd unfolding d' Let_def by (auto simp: hasFilter_def ident_invalid_def bounds_fit_def)
  qed
  then show "dom_ok E gen d'" "reg_only d'" "\<not> hasFilter d'" "bounds_fit d \<Longrightarrow> bounds_fit d'" by blast+
  show "covers E X d \<rho> \<Longrightarrow> cond_sat (d_compare_op d) (of_int (\<rho> (d_compare_reg d))) = taken \<Longrightarrow> covers E X d' \<rho>"
    using all by blast
qed

text \<open>\<open>live_in\<close>: a state on its way along an edge, with variables that may wait to be projected out.\<close>

definition live_in :: "guid \<Rightarrow> 'p domain \<Rightarrow> bool" where
  "live_in gen s \<longleftrightarrow> dom_ok E gen s \<and> reg_only s \<and> \<not> hasFilter s"

lemma filter_sound:
  assumes run: "edge_filter E c e s an = Some (r, an')" and s: "plain E (an_gen an) s"
    and p: "pending sis s" and sup: "list_all supported sis"
  shows "an_gen an' = an_gen an"
    and "r = None \<Longrightarrow> edge_taken c e sis \<rho> \<Longrightarrow> \<not> covers E X s \<rho>"
    and "r = Some s' \<Longrightarrow> live_in (an_gen an) s' \<and> (bounds_fit s \<longrightarrow> bounds_fit s') \<and>
      (edge_taken c e sis \<rho> \<longrightarrow> covers E X s \<rho> \<longrightarrow> covers E X s' \<rho>)"
proof -
  have ok: "dom_ok E (an_gen an) s" "reg_only s" using s by (simp_all add: plain_def)
  have all: "an_gen an' = an_gen an \<and> (r = None \<longrightarrow> edge_taken c e sis \<rho> \<longrightarrow> \<not> covers E X s \<rho>) \<and>
    (r = Some s' \<longrightarrow> live_in (an_gen an) s' \<and> (bounds_fit s \<longrightarrow> bounds_fit s') \<and>
      (edge_taken c e sis \<rho> \<longrightarrow> covers E X s \<rho> \<longrightarrow> covers E X s' \<rho>))"
  proof (cases "hasFilter s")
    case False
    then have "r = Some s" "an' = an" using run by (auto simp: edge_filter_def)
    then show ?thesis using ok False by (auto simp: live_in_def)
  next
    case True
    obtain si where si: "si \<in> set sis" "branch_of sis = Some si" "si_op si = IF" "d_compare_reg s = Reg (si_a si)"
      "d_compare_op s = cond_of_int (si_d si)" using p True by (auto simp: pending_def)
    have rel: "is_relation (d_compare_op s)" using sup si by (auto simp: list_all_iff supported_def)
    obtain s1 ctx where b: "onBranch E (c_taken c e) (c_control c (sourceOf (c_graph c) e)) s (an_ctx an) = Some (s1, ctx)"
      and r: "r = (if isBottom E s1 then None else Some s1)" and an': "an_gen an' = an_gen an"
      using run True by (auto simp: edge_filter_def bindE)
    have "id_type (d_compare_reg s) = ID_REG" using si(4) by simp
    note br = branch_partial [OF b ok this rel]
    have "edge_taken c e sis \<rho> \<Longrightarrow> covers E X s \<rho> \<Longrightarrow> covers E X s1 \<rho>"
      using br(5) [of X \<rho>] si by (simp add: edge_taken_def)
    then show ?thesis using r an' br(1,2,3,4) bottom_covers [OF br(1)] by (auto simp: live_in_def)
  qed
  then show "an_gen an' = an_gen an" "r = None \<Longrightarrow> edge_taken c e sis \<rho> \<Longrightarrow> \<not> covers E X s \<rho>"
    "r = Some s' \<Longrightarrow> live_in (an_gen an) s' \<and> (bounds_fit s \<longrightarrow> bounds_fit s') \<and>
      (edge_taken c e sis \<rho> \<longrightarrow> covers E X s \<rho> \<longrightarrow> covers E X s' \<rho>)" by blast+
qed

lemma counter_new:
  assumes "dom_ok E gen s" and "dom_copy s = Some s0" and "varNew (Ident h ID_LOOP) NO_STEP True s0 gen = Some (v, s1, gen')"
    and "reg_only s" and "d' = doNewConstraint E k s1"
  shows "same_frame s d'" and "reg_only d'"
proof -
  note c = copy_same [OF assms(1,2)]
  have "same_frame s s1" by (rule same_frame_trans [OF c(4) varNew_frame(1) [OF assms(3)]])
  then show "same_frame s d'" unfolding assms(5) by (rule same_frame_trans) simp
  have "hasIdent d' i \<Longrightarrow> i = Ident h ID_LOOP \<or> hasIdent s i" for i
    using varNew_has [OF dom_okD(1) [OF c(1)] assms(3), of i] copy_has [OF assms(1,2)] assms(5) by simp
  then show "reg_only d'" using assms(4) unfolding reg_only_has mem_types_def by fastforce
qed

lemma edge_loop_sound:
  assumes run: "edge_loop E c e s gen = Some (s', gen')" and s: "live_in gen s"
  shows "gen \<le> gen'" and "live_in gen' s'" and "d_bounds s' = d_bounds s"
    and "covers E {} s \<rho> \<Longrightarrow> covers E (back_of c e) s' (loop_move c e \<rho>)"
proof -
  have ok: "dom_ok E gen s" "reg_only s" "\<not> hasFilter s" using s by (simp_all add: live_in_def)
  let ?h = "block_id c (sinkOf (c_graph c) e)"
  let ?goal = "gen \<le> gen' \<and> live_in gen' s' \<and> d_bounds s' = d_bounds s \<and>
    (covers E {} s \<rho> \<longrightarrow> covers E (back_of c e) s' (loop_move c e \<rho>))"
  have live: "live_in (gen + 1) s' \<and> d_bounds s' = d_bounds s" if "dom_ok E (gen + 1) s'" "same_frame s s'" "reg_only s'"
    using that same_frame_filter [OF that(2)] ok(3) by (simp add: live_in_def same_frame_def)
  have ?goal
  proof (cases "li_header (c_loops c) (sinkOf (c_graph c) e)")
    case False
    then have "s' = s" "gen' = gen" using run by (simp_all add: edge_loop_def)
    then show ?thesis using s False by (simp add: back_of_def is_back_def loop_move_def)
  next
    case header: True
    show ?thesis
    proof (cases "is_back c e")
      case True
      then have it: "onLoopIter E ?h s gen = Some (s', gen')" using run header by (auto simp: edge_loop_def is_back_def)
      obtain s0 w v s1 where r: "dom_copy s = Some s0" "hasIdent s0 (Ident ?h ID_LOOP)"
        "varNew (Ident ?h ID_LOOP) NO_STEP True s0 gen = Some (v, s1, gen')"
        "s' = doNewConstraint E (w_eq (V v) (le_add (V w) (K 1))) s1"
        using it by (auto simp: onLoopIter_def bindE Let_def)
      note fr = counter_new [OF ok(1) r(1,3) ok(2) r(4)]
      have has: "hasIdent s (Ident ?h ID_LOOP)" using r(2) copy_has [OF ok(1) r(1)] by simp
      have "\<exists>d'. onLoopIter E ?h s gen = Some (d', gen + 1) \<and> dom_ok E (gen + 1) d' \<and>
        dom_sem E d' = (\<lambda>\<rho>. \<rho>(Ident ?h ID_LOOP := \<rho> (Ident ?h ID_LOOP) + 1)) ` dom_sem E s"
        by (rule loop_iter [OF ok(1) has]) blast
      then have it': "gen' = gen + 1" "dom_ok E (gen + 1) s'"
        "dom_sem E s' = (\<lambda>\<rho>. \<rho>(Ident ?h ID_LOOP := \<rho> (Ident ?h ID_LOOP) + 1)) ` dom_sem E s" using it by auto
      have mv: "loop_move c e \<rho> = \<rho>(Ident ?h ID_LOOP := \<rho> (Ident ?h ID_LOOP) + 1)" using True by (simp add: loop_move_def Let_def)
      have "covers E {?h} s' (loop_move c e \<rho>)" if cov: "covers E {} s \<rho>"
      proof -
        have "lift (loop_move c e \<rho>) = (\<lambda>\<rho>. \<rho>(Ident ?h ID_LOOP := \<rho> (Ident ?h ID_LOOP) + 1)) (lift \<rho>)"
          unfolding mv by (simp add: lift_apply)
        then have "lift (loop_move c e \<rho>) \<in> dom_sem E s'" using cov it'(3) by (auto simp: covers_def)
        moreover have "counters_in {?h} s' (loop_move c e \<rho>)"
          using cov counters_in_cong [of s' s] fr(1) unfolding mv by (auto simp: covers_def counters_in_def same_frame_def)
        ultimately show ?thesis by (simp add: covers_def)
      qed
      then show ?thesis using live [OF it'(2) fr] it'(1) True by (simp add: back_of_def)
    next
      case False
      then have en: "onLoopEntry E ?h s gen = Some (s', gen')" using run header by (auto simp: edge_loop_def is_back_def)
      obtain s0 v s1 where r: "dom_copy s = Some s0" "varNew (Ident ?h ID_LOOP) NO_STEP True s0 gen = Some (v, s1, gen')"
        "s' = doNewConstraint E (w_eq (V v) (K 0)) s1"
        using en by (auto simp: onLoopEntry_def bindE)
      note fr = counter_new [OF ok(1) r(1,2) ok(2) r(3)]
      have "\<exists>d'. onLoopEntry E ?h s gen = Some (d', gen + 1) \<and> dom_ok E (gen + 1) d' \<and>
        dom_sem E d' = (\<lambda>\<rho>. \<rho>(Ident ?h ID_LOOP := 0)) ` dom_sem E s"
        by (rule loop_entry [OF ok(1)]) blast
      then have en': "gen' = gen + 1" "dom_ok E (gen + 1) s'" "dom_sem E s' = (\<lambda>\<rho>. \<rho>(Ident ?h ID_LOOP := 0)) ` dom_sem E s"
        using en by auto
      have mv: "loop_move c e \<rho> = \<rho>(Ident ?h ID_LOOP := 0)" using False header by (simp add: loop_move_def Let_def)
      have "covers E {} s' (loop_move c e \<rho>)" if cov: "covers E {} s \<rho>"
      proof -
        have "lift (loop_move c e \<rho>) \<in> dom_sem E s'" using cov en'(3) unfolding mv by (auto simp: covers_def)
        moreover have "counters_in {} s' (loop_move c e \<rho>)"
          using cov counters_in_cong [of s' s] fr(1) unfolding mv
          by (auto simp: covers_def counters_in_def same_frame_def in_bound_nonpos)
        ultimately show ?thesis by (simp add: covers_def)
      qed
      then show ?thesis using live [OF en'(2) fr] en'(1) False by (simp add: back_of_def)
    qed
  qed
  then show "gen \<le> gen'" "live_in gen' s'" "d_bounds s' = d_bounds s"
    "covers E {} s \<rho> \<Longrightarrow> covers E (back_of c e) s' (loop_move c e \<rho>)" by blast+
qed

lemma loop_exit_frame:
  assumes "onLoopExit E h b s = Some s'" and "dom_ok E gen s" and "reg_only s" and "\<not> hasFilter s"
  shows "s' = dom_bottom E \<or> same_frame s s' \<and> reg_only s'" and "hasIdent s (Ident h ID_LOOP)"
proof -
  obtain s0 v s1 s2 where r: "dom_copy s = Some s0" "hasIdent s0 (Ident h ID_LOOP)"
    "s1 = (if b \<ge> 0 then doNewConstraint E (w_le (V v) (K b)) s0 else s0)" "varKillVar v NO_STEP s1 = Some s2"
    "s' = (if wp_is_empty (e_ppl E) (d_poly s2) then dom_bottom E else s2)"
    using assms(1) by (auto simp: onLoopExit_def bindE Let_def)
  note c = copy_same [OF assms(2) r(1)]
  show "hasIdent s (Ident h ID_LOOP)" using r(2) copy_has [OF assms(2) r(1)] by simp
  have idm: "d_idmap s1 = d_idmap s0" "same_frame s0 s1" using r(3) by (simp_all add: doNewConstraint_def same_frame_def)
  obtain m where m: "im_del2 (idval_t v NO_STEP) (d_idmap s0) = Some m" "d_idmap s2 = m" "same_frame s1 s2"
    using r(4) idm(1) by (auto simp: varKillVar_def varKill_def bindE same_frame_def)
  obtain i where i: "im_find2 (d_idmap s0) (idval_t v NO_STEP) = Some i" using m(1) by (auto simp: im_del2_def im_finds bindE)
  have im: "im_ok (d_idmap s0)" by (rule dom_okD [OF c(1)])
  have f: "im_find1 (d_idmap s0) i = Some (idval_t v NO_STEP)" using im_ok_inv [OF im] i by blast
  have sub: "im_find1 m j = (if j = i then None else im_find1 (d_idmap s0) j)" for j
    by (rule im_del_finds [OF im f]) (use m(1) in auto)
  have "reg_only s2" using assms(3) c(2) sub m(2) by (auto simp: reg_only_def split: if_splits)
  moreover have "same_frame s s2" by (rule same_frame_trans [OF same_frame_trans [OF c(4) idm(2)] m(3)])
  ultimately show "s' = dom_bottom E \<or> same_frame s s' \<and> reg_only s'" using r(5) by auto
qed

lemma edge_exit_sound:
  assumes run: "edge_exit E c e s an = Some (r, an')" and s: "live_in (an_gen an) s" and fit: "bounds_fit s"
    and inner: "\<And>h. li_exit (c_loops c) e = Some h \<Longrightarrow> 0 \<le> block_id c h \<and> block_id c h \<notin> X"
  shows "an_gen an' = an_gen an" and "r = None \<Longrightarrow> \<not> covers E X s \<rho>"
    and "r = Some s' \<Longrightarrow> live_in (an_gen an) s' \<and> (covers E X s \<rho> \<longrightarrow> covers E X s' \<rho>)"
proof -
  have ok: "dom_ok E (an_gen an) s" "reg_only s" "\<not> hasFilter s" using s by (simp_all add: live_in_def)
  have all: "an_gen an' = an_gen an \<and> (r = None \<longrightarrow> \<not> covers E X s \<rho>) \<and>
    (r = Some s' \<longrightarrow> live_in (an_gen an) s' \<and> (covers E X s \<rho> \<longrightarrow> covers E X s' \<rho>))"
  proof (cases "li_exit (c_loops c) e")
    case None
    then have "r = Some s" "an' = an" using run by (simp_all add: edge_exit_def)
    then show ?thesis using s by auto
  next
    case (Some h)
    let ?b = "to_int32 (getBound s (nat (block_id c h)))"
    have g: "an_gen an' = an_gen an" and body: "if 0 \<le> ?b
      then \<exists>s1. onLoopExit E (block_id c h) ?b s = Some s1 \<and> r = (if isBottom E s1 then None else Some s1) else r = Some s"
      using run Some avatars_nothing [OF ok(1,2)] by (auto simp: edge_exit_def bindE Let_def split: if_splits)
    show ?thesis
    proof (cases "0 \<le> ?b")
      case False
      then show ?thesis using body g s by auto
    next
      case True
      then obtain s1 where ex: "onLoopExit E (block_id c h) ?b s = Some s1" and r: "r = (if isBottom E s1 then None else Some s1)"
        using body by auto
      note fr = loop_exit_frame [OF ex ok]
      have "\<exists>d'. onLoopExit E (block_id c h) ?b s = Some d' \<and> dom_ok E (an_gen an) d' \<and>
        (\<forall>\<rho>. \<rho> \<in> dom_sem E s \<longrightarrow> (0 \<le> ?b \<longrightarrow> \<rho> (Ident (block_id c h) ID_LOOP) \<le> of_int ?b) \<longrightarrow> \<rho> \<in> dom_sem E d')"
        by (rule loop_exit [OF ok(1) fr(2), of ?b]) blast
      then have s1: "dom_ok E (an_gen an) s1"
        "\<And>\<rho>. \<rho> \<in> dom_sem E s \<Longrightarrow> \<rho> (Ident (block_id c h) ID_LOOP) \<le> of_int ?b \<Longrightarrow> \<rho> \<in> dom_sem E s1" using ex by auto
      have sem: "lift \<rho> \<in> dom_sem E s1" if cov: "covers E X s \<rho>"
      proof (rule s1(2))
        show "lift \<rho> \<in> dom_sem E s" using cov by (simp add: covers_def)
        have "in_bound (getBound s (nat (block_id c h))) (\<rho> (Ident (block_id c h) ID_LOOP))"
          using cov inner [OF Some] by (simp add: covers_def counters_in_def)
        from exit_bound [OF this bounds_fit_get [OF fit] True]
        show "lift \<rho> (Ident (block_id c h) ID_LOOP) \<le> of_int ?b" by (simp add: lift_apply)
      qed
      have nb: "\<not> isBottom E s1" if "covers E X s \<rho>" using sem [OF that] bottom_covers [OF s1(1), of "UNIV" \<rho>]
        by (auto simp: covers_def counters_in_def)
      have fine: "same_frame s s1 \<and> reg_only s1" if "\<not> isBottom E s1" using fr(1) that by (auto simp: isBottom_def dom_bottom_def)
      have "covers E X s1 \<rho>" if cov: "covers E X s \<rho>"
      proof -
        have "d_bounds s1 = d_bounds s" using fine [OF nb [OF cov]] by (simp add: same_frame_def)
        then show ?thesis using sem [OF cov] cov counters_in_cong [of s1 s X] by (simp add: covers_def)
      qed
      moreover have "live_in (an_gen an) s1" if "\<not> isBottom E s1"
        using s1(1) fine [OF that] ok(3) same_frame_filter [of s s1] by (simp add: live_in_def)
      ultimately show ?thesis using r g nb by auto
    qed
  qed
  then show "an_gen an' = an_gen an" "r = None \<Longrightarrow> \<not> covers E X s \<rho>"
    "r = Some s' \<Longrightarrow> live_in (an_gen an) s' \<and> (covers E X s \<rho> \<longrightarrow> covers E X s' \<rho>)" by blast+
qed

text \<open>The check either stores the state or finds it equal to the one that is stored.\<close>

definition store_in :: "guid \<Rightarrow> 'p domain store \<Rightarrow> bool" where
  "store_in gen st \<longleftrightarrow> (\<forall>e s. st e = Some s \<longrightarrow> settled_in gen s)"

definition manager_in :: "guid \<Rightarrow> 'p manager \<Rightarrow> bool" where
  "manager_in gen man \<longleftrightarrow> settled_in gen (m_init man) \<and> settled_in gen (m_bot man) \<and> isBottom E (m_bot man)"

lemma store_get: "store_in gen st \<Longrightarrow> manager_in gen man \<Longrightarrow> settled_in gen (es_get (man_domain E man) st e)"
  by (auto simp: store_in_def manager_in_def es_get_def man_domain_def split: option.split)

lemma push_keeps: "wl_push ord v w = Some w' \<Longrightarrow> wl_store w' = wl_store w \<and> wl_cur w' = wl_cur w"
  by (auto simp: wl_push_def bindE split: if_splits)

lemma check_sound:
  assumes run: "an_check (man_domain E man) g ord e s (w, an) = Some (w', an')"
    and s: "settled_in (an_gen an) s" and st: "store_in (an_gen an) (wl_store w)" and man: "manager_in (an_gen an) man"
  shows "an_gen an' = an_gen an" and "store_in (an_gen an) (wl_store w')" and "wl_cur w' = wl_cur w"
    and "\<And>f. f \<noteq> e \<Longrightarrow> wl_store w' f = wl_store w f"
    and "covers E X s \<rho> \<Longrightarrow> covers E X (es_get (man_domain E man) (wl_store w') e) \<rho>"
proof -
  let ?old = "es_get (man_domain E man) (wl_store w) e"
  obtain eq gen' where eq: "dom_equals E s ?old (an_gen an) = Some (eq, gen')" and an': "an_gen an' = gen'"
    and w': "(if \<not> eq then wl_change g ord e s w else Some w) = Some w'"
    using run by (auto simp: an_check_def wl_check_def man_domain_def m_equals_def bindE)
  have ok: "dom_ok E (an_gen an) s" "reg_only s" "dom_ok E (an_gen an) ?old" "reg_only ?old"
    using s store_get [OF st man, of e] by (simp_all add: settled_in_def plain_def)
  note k = equals_keeps [OF ok eq]
  have "an_gen an' = an_gen an \<and> store_in (an_gen an) (wl_store w') \<and> wl_cur w' = wl_cur w \<and>
    (\<forall>f. f \<noteq> e \<longrightarrow> wl_store w' f = wl_store w f) \<and>
    (covers E X s \<rho> \<longrightarrow> covers E X (es_get (man_domain E man) (wl_store w') e) \<rho>)"
  proof (cases eq)
    case True
    then have w: "w' = w" using w' by simp
    have inc: "dom_sem E s \<subseteq> dom_sem E ?old" by (rule equals_included(1) [OF ok]) (use eq True in simp)
    have "covers E X ?old \<rho>" if cov: "covers E X s \<rho>"
    proof -
      have "d_bounds s = d_bounds ?old" using k(2) True bottom_covers [OF ok(1)] cov by blast
      then show ?thesis using cov inc counters_in_cong [of ?old s X] by (auto simp: covers_def)
    qed
    then show ?thesis using w an' k(1) st by simp
  next
    case False
    then have "wl_push ord (sinkOf g e) (w\<lparr>wl_store := es_set e s (wl_store w)\<rparr>) = Some w'" using w' by (simp add: wl_change_def)
    then have "wl_store w' = (wl_store w)(e \<mapsto> s)" "wl_cur w' = wl_cur w" using push_keeps by (fastforce simp: es_set_def)+
    then show ?thesis using an' k(1) st s by (auto simp: store_in_def es_get_def)
  qed
  then show "an_gen an' = an_gen an" "store_in (an_gen an) (wl_store w')" "wl_cur w' = wl_cur w"
    "\<And>f. f \<noteq> e \<Longrightarrow> wl_store w' f = wl_store w f"
    "covers E X s \<rho> \<Longrightarrow> covers E X (es_get (man_domain E man) (wl_store w') e) \<rho>" by blast+
qed

lemma store_mono: "store_in gen st \<Longrightarrow> gen \<le> gen' \<Longrightarrow> store_in gen' st"
  unfolding store_in_def using settled_mono by blast

lemma manager_mono: "manager_in gen man \<Longrightarrow> gen \<le> gen' \<Longrightarrow> manager_in gen' man"
  unfolding manager_in_def using settled_mono by blast

lemma finalize_settles:
  assumes "doFinalizeUpdate E s = Some s'" and "live_in gen s"
  shows "settled_in gen s'" and "covers E X s \<rho> \<Longrightarrow> covers E X s' \<rho>"
proof -
  have ok: "dom_ok E gen s" "reg_only s" "\<not> hasFilter s" using assms(2) by (simp_all add: live_in_def)
  note f = finalize_sound [OF assms(1) ok(1,2)]
  have "\<not> hasFilter s'" using f(3) ok(3) same_frame_filter by blast
  then show "settled_in gen s'" using f(1) by (simp add: settled_in_def)
  show "covers E X s \<rho> \<Longrightarrow> covers E X s' \<rho>" by (rule f(2))
qed

text \<open>What processing an edge leaves: \<open>kept\<close> is about the driver, whatever the machine state.\<close>

definition kept :: "nat \<Rightarrow> 'p domain driver \<Rightarrow> 'p analysis \<Rightarrow> 'p domain driver \<Rightarrow> 'p analysis \<Rightarrow> bool" where
  "kept e w an w' an' \<longleftrightarrow> an_gen an \<le> an_gen an' \<and> store_in (an_gen an') (wl_store w') \<and> wl_cur w' = wl_cur w \<and>
     (\<forall>f. f \<noteq> e \<longrightarrow> wl_store w' f = wl_store w f)"

lemma process_edge_sound:
  assumes run: "process_edge E (man_domain E man) c ord s e (w, an) = Some (w', an')"
    and s: "plain E (an_gen an) s" and p: "pending sis s" and sup: "list_all supported sis" and fit: "bounds_fit s"
    and st: "store_in (an_gen an) (wl_store w)" and man: "manager_in (an_gen an) man"
    and inner: "\<And>h. li_exit (c_loops c) e = Some h \<Longrightarrow> 0 \<le> block_id c h \<and> block_id c h \<notin> back_of c e"
  shows "kept e w an w' an'"
    and "covers E {} s \<rho> \<Longrightarrow> edge_taken c e sis \<rho> \<Longrightarrow>
      covers E (back_of c e) (es_get (man_domain E man) (wl_store w') e) (loop_move c e \<rho>)"
proof -
  let ?get = "\<lambda>w. es_get (man_domain E man) (wl_store w) e"
  have none: "kept e w an w an1" if "an_gen an \<le> an_gen an1" for an1
    using that store_mono [OF st that] by (simp add: kept_def)
  have chk: "kept e w an w' an'" "covers E X s2 \<rho>2 \<Longrightarrow> covers E X (?get w') \<rho>2"
    if "an_check (man_domain E man) (c_graph c) ord e s2 (w, an2) = Some (w', an')" "settled_in (an_gen an2) s2" "an_gen an \<le> an_gen an2"
    for s2 an2 X \<rho>2
    using check_sound [OF that(1,2) store_mono [OF st that(3)] manager_mono [OF man that(3)]] that(3) by (auto simp: kept_def)
  have "kept e w an w' an' \<and> (covers E {} s \<rho> \<longrightarrow> edge_taken c e sis \<rho> \<longrightarrow> covers E (back_of c e) (?get w') (loop_move c e \<rho>))"
  proof (cases "\<not> li_header (c_loops c) (sinkOf (c_graph c) e) \<and> li_exit (c_loops c) e = None \<and> \<not> hasFilter s")
    case True
    then have "an_check (man_domain E man) (c_graph c) ord e s (w, an) = Some (w', an')" using run by (simp add: process_edge_def)
    moreover have "settled_in (an_gen an) s" using s True by (simp add: settled_in_def)
    ultimately have "kept e w an w' an'" "covers E {} s \<rho> \<Longrightarrow> covers E {} (?get w') \<rho>" by (blast intro: chk)+
    moreover have "back_of c e = {}" "loop_move c e \<rho> = \<rho>" using True by (simp_all add: back_of_def is_back_def loop_move_def)
    ultimately show ?thesis by simp
  next
    case False
    obtain r an1 where fl: "edge_filter E c e s an = Some (r, an1)" and rest: "(case r of None \<Rightarrow> Some (w, an1)
       | Some s \<Rightarrow> do {
           (s, gen) \<leftarrow> edge_loop E c e s (an_gen an1);
           (r, an) \<leftarrow> edge_exit E c e s (an1\<lparr>an_gen := gen\<rparr>);
           case r of None \<Rightarrow> Some (w, an)
           | Some s \<Rightarrow> do {
               s \<leftarrow> doFinalizeUpdate E s;
               an_check (man_domain E man) (c_graph c) ord e s (w, an) } }) = Some (w', an')"
      using run False by (auto simp: process_edge_def bindE simp del: not_None_eq)
    note f = filter_sound [OF fl s p sup]
    show ?thesis
    proof (cases r)
      case None
      then have "w' = w" "an' = an1" using rest by simp_all
      then show ?thesis using none [of an1] f(1) f(2) [OF None] by auto
    next
      case (Some s1)
      have s1: "live_in (an_gen an1) s1" "bounds_fit s1"
        "\<And>X \<rho>. edge_taken c e sis \<rho> \<Longrightarrow> covers E X s \<rho> \<Longrightarrow> covers E X s1 \<rho>"
        using f(1) f(3) [OF Some] fit by auto
      obtain s2 gen r2 an2 where lp: "edge_loop E c e s1 (an_gen an1) = Some (s2, gen)"
        and ex: "edge_exit E c e s2 (an1\<lparr>an_gen := gen\<rparr>) = Some (r2, an2)"
        and rest2: "(case r2 of None \<Rightarrow> Some (w, an2) | Some s \<Rightarrow> do {
           s \<leftarrow> doFinalizeUpdate E s; an_check (man_domain E man) (c_graph c) ord e s (w, an2) }) = Some (w', an')"
        using rest Some by (auto simp: bindE)
      note l = edge_loop_sound [OF lp s1(1)]
      have fit2: "bounds_fit s2" using s1(2) l(3) by (simp add: bounds_fit_def)
      have live2: "live_in (an_gen (an1\<lparr>an_gen := gen\<rparr>)) s2" using l(2) by simp
      note x = edge_exit_sound [OF ex live2 fit2 inner]
      have gen: "an_gen an \<le> an_gen an2" using f(1) l(1) x(1) by simp
      have cov2: "covers E (back_of c e) s2 (loop_move c e \<rho>)" if "covers E {} s \<rho>" "edge_taken c e sis \<rho>"
        by (rule l(4) [OF s1(3) [OF that(2,1)]])
      show ?thesis
      proof (cases r2)
        case None
        then have "w' = w" "an' = an2" using rest2 by simp_all
        then show ?thesis using none [OF gen] x(2) [OF _ None] cov2 by blast
      next
        case (Some s3)
        obtain s4 where fin: "doFinalizeUpdate E s3 = Some s4" and ck: "an_check (man_domain E man) (c_graph c) ord e s4 (w, an2) = Some (w', an')"
          using rest2 Some by (auto simp: bindE)
        have s3: "live_in (an_gen an2) s3" "covers E (back_of c e) s2 (loop_move c e \<rho>) \<Longrightarrow> covers E (back_of c e) s3 (loop_move c e \<rho>)"
          using x(1) x(3) [OF _ Some] by auto
        note fs = finalize_settles [OF fin s3(1)]
        show ?thesis using chk [OF ck fs(1) gen] fs(2) s3(2) cov2 by blast
      qed
    qed
  qed
  then show "kept e w an w' an'" "covers E {} s \<rho> \<Longrightarrow> edge_taken c e sis \<rho> \<Longrightarrow>
      covers E (back_of c e) (es_get (man_domain E man) (wl_store w') e) (loop_move c e \<rho>)" by blast+
qed

end

end
