(* ===== verification/Input_Sound.thy ===== *)
theory Input_Sound
  imports Edge_Sound
begin

text \<open>
  The state at the beginning of a block: the join of its incoming edges, the widening at the
  header of a loop and the bound found for it, the arguments of the program. Machine states that
  arrive over an edge, and are covered by what the store holds for it, are covered by the state.
\<close>

subsection \<open>The bound of a loop\<close>

text \<open>The conversions of the code lose nothing on numbers of this size.\<close>

definition range_fits :: "'p env \<Rightarrow> 'p domain \<Rightarrow> int \<Rightarrow> bool" where
  "range_fits E d h \<longleftrightarrow> isBottom E d \<or>
     (case getRangeIdent E d (Ident h ID_LOOP) of None \<Rightarrow> True
      | Some (inf_n, inf_d, sup_n, sup_d) \<Rightarrow> \<bar>sup_n\<bar> < 2 ^ 63 \<and> \<bar>sup_d\<bar> < 2 ^ 63)"

lemma to_int64_exact: "- (2 ^ 63) \<le> x \<Longrightarrow> x < 2 ^ 63 \<Longrightarrow> to_int64 x = x"
  unfolding to_int64_def sint_sbintrunc' by (simp add: signed_take_bit_int_eq_self)

lemma get_ui_exact: "\<bar>x\<bar> < 2 ^ 63 \<Longrightarrow> get_ui x = \<bar>x\<bar>"
  by (simp add: get_ui_def)

context poly_env
begin

lemma loop_bound_sound:
  assumes run: "getLoopBound E d h = Some b" and ok: "dom_ok E gen d" and fits: "range_fits E d h"
    and cov: "covers E X d \<rho>"
  shows "in_bound b (\<rho> (Ident h ID_LOOP))"
proof -
  let ?i = "Ident h ID_LOOP"
  have nb: "\<not> isBottom E d" using bottom_covers [OF ok] cov by blast
  obtain iv where f: "im_find1 (d_idmap d) ?i = Some iv"
    using run nb by (auto simp: getLoopBound_def getRangeIdent_def getVar_def bindE)
  obtain inf_n inf_d n k where r: "getRange E d (iv_g iv) = (inf_n, inf_d, n, k)" by (rule prod_cases4)
  have b: "b = (if get_ui k \<noteq> 0 then to_int64 (get_ui n div get_ui k) else UNBOUNDED)"
    using run nb f r by (simp add: getLoopBound_def getRangeIdent_def getVar_def)
  have small: "\<bar>n\<bar> < 2 ^ 63" "\<bar>k\<bar> < 2 ^ 63"
    using fits nb f r by (simp_all add: range_fits_def getRangeIdent_def getVar_def)
  obtain v where m: "models E d v (lift \<rho>)" using cov by (auto simp: covers_def dom_sem_def)
  have val: "v (iv_g iv) = of_int (\<rho> ?i)" using models_value [OF m f] by (simp add: lift_apply)
  have v: "v \<in> wsem (e_ppl E) (d_poly d)" using m by (simp add: models_def)
  have sup: "0 < k" "v (iv_g iv) * of_int k \<le> of_int n" if "k \<noteq> 0"
    using range_sound(2) [OF dom_okD(2) [OF ok] r v that] by blast+
  show ?thesis
  proof (cases "k = 0 \<or> \<rho> ?i \<le> 0")
    case True
    then show ?thesis
    proof
      assume "k = 0"
      then show ?thesis using b by (simp add: get_ui_def in_bound_def)
    qed (rule in_bound_nonpos)
  next
    case False
    then have k: "0 < k" and "of_int (\<rho> ?i) * of_int k \<le> (of_int n :: rat)" using sup val by simp_all
    then have le: "\<rho> ?i * k \<le> n" by (simp flip: of_int_mult)
    have pos: "0 < n" using le k False by (smt (verit) mult_pos_pos)
    then have "get_ui n div get_ui k = n div k" "get_ui k \<noteq> 0" using k small by (simp_all add: get_ui_exact)
    moreover have "0 \<le> n div k" using pos k by (simp add: pos_imp_zdiv_nonneg_iff)
    moreover have "n div k \<le> n" using zdiv_mono2 [of n 1 k] pos k by simp
    then have "n div k < 2 ^ 63" using pos small(1) by simp
    ultimately have "b = n div k" using b by (simp add: to_int64_exact)
    moreover have "\<rho> ?i \<le> n div k" using zdiv_mono1 [OF le k] k by simp
    ultimately show ?thesis by (auto simp: in_bound_def)
  qed
qed

subsection \<open>Joins of edges\<close>

lemma bottom_settled: "settled_in gen (dom_bottom E)"
proof -
  have "reg_only (dom_bottom E)" "\<not> hasFilter (dom_bottom E)" "d_victims (dom_bottom E) = []"
    by (simp_all add: reg_only_def hasFilter_def dom_bottom_def ident_invalid_def)
  then show ?thesis by (simp add: settled_in_def plain_def)
qed

lemma domain_bot: "ad_bot (man_domain E man) = m_bot man"
  by (simp add: man_domain_def)

lemma input_sound:
  assumes run: "wl_input (man_domain E man) g v st gen = Some (s, gen')"
    and st: "store_in gen st" and man: "manager_in gen man"
  shows "gen' = gen" and "settled_in gen s"
    and "e \<in> set (preds g v) \<Longrightarrow> covers E X (es_get (man_domain E man) st e) \<rho> \<Longrightarrow> covers E X s \<rho>"
proof -
  let ?get = "es_get (man_domain E man) st"
  have fold: "gen' = gen \<and> settled_in gen s \<and> (covers E X s0 \<rho> \<or> (\<exists>e \<in> set es. covers E X (?get e) \<rho>) \<longrightarrow> covers E X s \<rho>)"
    if "foldM (\<lambda>e (s, x). m_join E s (?get e) False x) es (s0, gen) = Some (s, gen')" "settled_in gen s0" for es s0
    using that
  proof (induction es arbitrary: s0)
    case (Cons e es)
    obtain s1 gen1 where r: "onMerge E s0 (?get e) False False gen = Some (s1, gen1)"
      "foldM (\<lambda>e (s, x). m_join E s (?get e) False x) es (s1, gen1) = Some (s, gen')"
      using Cons.prems(1) by (auto simp: bindE m_join_def)
    note m = merge_sound [OF Cons.prems(2) store_get [OF st man] r(1)]
    have "gen' = gen \<and> settled_in gen s \<and> (covers E X s1 \<rho> \<or> (\<exists>e \<in> set es. covers E X (?get e) \<rho>) \<longrightarrow> covers E X s \<rho>)"
      by (rule Cons.IH [OF r(2) [unfolded m(1)] m(2)])
    then show ?case using m(3) [of X \<rho>] by auto
  qed simp
  have "settled_in gen (m_bot man)" using man by (simp add: manager_in_def)
  then have "gen' = gen \<and> settled_in gen s \<and>
      (covers E X (m_bot man) \<rho> \<or> (\<exists>e \<in> set (preds g v). covers E X (?get e) \<rho>) \<longrightarrow> covers E X s \<rho>)"
    using run by (intro fold) (simp_all add: wl_input_def man_domain_def)
  then show "gen' = gen" "settled_in gen s"
    "e \<in> set (preds g v) \<Longrightarrow> covers E X (?get e) \<rho> \<Longrightarrow> covers E X s \<rho>" by blast+
qed

lemma header_inputs_sound:
  assumes run: "header_inputs (man_domain E man) c v st gen = Some (entry, back, gen')"
    and st: "store_in gen st" and man: "manager_in gen man"
  shows "gen' = gen" and "settled_in gen entry" and "settled_in gen back"
    and "e \<in> set (preds (c_graph c) v) \<Longrightarrow> covers E X (es_get (man_domain E man) st e) \<rho> \<Longrightarrow>
      covers E X (if li_dominates (c_loops c) (sinkOf (c_graph c) e) (sourceOf (c_graph c) e) then back else entry) \<rho>"
proof -
  let ?D = "man_domain E man"
  let ?get = "es_get ?D st"
  let ?isb = "\<lambda>e. li_dominates (c_loops c) (sinkOf (c_graph c) e) (sourceOf (c_graph c) e)"
  let ?f = "\<lambda>e (entryState, backState, gen). if ?isb e
       then do { (backState, gen) \<leftarrow> ad_join ?D backState (?get e) gen; Some (entryState, backState, gen) }
       else do { (entryState, gen) \<leftarrow> ad_join ?D entryState (?get e) gen; Some (entryState, backState, gen) }"
  let ?cov = "\<lambda>es a0 b0. (covers E X a0 \<rho> \<or> (\<exists>e \<in> set es. \<not> ?isb e \<and> covers E X (?get e) \<rho>) \<longrightarrow> covers E X entry \<rho>) \<and>
      (covers E X b0 \<rho> \<or> (\<exists>e \<in> set es. ?isb e \<and> covers E X (?get e) \<rho>) \<longrightarrow> covers E X back \<rho>)"
  have fold: "gen' = gen \<and> settled_in gen entry \<and> settled_in gen back \<and> ?cov es a0 b0"
    if "foldM ?f es (a0, b0, gen) = Some (entry, back, gen')" "settled_in gen a0" "settled_in gen b0" for es a0 b0
    using that
  proof (induction es arbitrary: a0 b0)
    case (Cons e es)
    show ?case
    proof (cases "?isb e")
      case True
      then obtain b1 gen1 where r: "onMerge E b0 (?get e) False False gen = Some (b1, gen1)"
        "foldM ?f es (a0, b1, gen1) = Some (entry, back, gen')"
        using Cons.prems(1) by (auto simp: bindE man_domain_def m_join_def)
      note m = merge_sound [OF Cons.prems(3) store_get [OF st man] r(1)]
      have "gen' = gen \<and> settled_in gen entry \<and> settled_in gen back \<and> ?cov es a0 b1"
        by (rule Cons.IH [OF r(2) [unfolded m(1)] Cons.prems(2) m(2)])
      then show ?thesis using m(3) [of X \<rho>] True by auto
    next
      case False
      then obtain a1 gen1 where r: "onMerge E a0 (?get e) False False gen = Some (a1, gen1)"
        "foldM ?f es (a1, b0, gen1) = Some (entry, back, gen')"
        using Cons.prems(1) by (auto simp: bindE man_domain_def m_join_def)
      note m = merge_sound [OF Cons.prems(2) store_get [OF st man] r(1)]
      have "gen' = gen \<and> settled_in gen entry \<and> settled_in gen back \<and> ?cov es a1 b0"
        by (rule Cons.IH [OF r(2) [unfolded m(1)] m(2) Cons.prems(3)])
      then show ?thesis using m(3) [of X \<rho>] False by auto
    qed
  qed simp
  have bot: "settled_in gen (m_bot man)" using man by (simp add: manager_in_def)
  have "foldM ?f (preds (c_graph c) v) (m_bot man, m_bot man, gen) = Some (entry, back, gen')"
    using run unfolding header_inputs_def Let_def domain_bot .
  from fold [OF this bot bot]
  show "gen' = gen" "settled_in gen entry" "settled_in gen back"
    "e \<in> set (preds (c_graph c) v) \<Longrightarrow> covers E X (?get e) \<rho> \<Longrightarrow> covers E X (if ?isb e then back else entry) \<rho>"
    by auto
qed

subsection \<open>Headers\<close>

text \<open>A header remembers the entry it started from; its state still stands for that entry.\<close>

definition header_in :: "guid \<Rightarrow> 'p header_state \<Rightarrow> bool" where
  "header_in gen h \<longleftrightarrow> settled_in gen (hs_state h) \<and> settled_in gen (hs_entry h) \<and>
     (\<forall>X \<rho>. covers E X (hs_entry h) \<rho> \<longrightarrow> covers E X (hs_state h) \<rho>)"

definition headers_in :: "guid \<Rightarrow> 'p headers \<Rightarrow> bool" where
  "headers_in gen hs \<longleftrightarrow> ht_ok hash_int hs \<and> (\<forall>k h. ht_find hash_int hs k = Some h \<longrightarrow> header_in gen h)"

lemma header_mono: "header_in gen h \<Longrightarrow> gen \<le> gen' \<Longrightarrow> header_in gen' h"
  unfolding header_in_def using settled_mono by blast

lemma headers_mono: "headers_in gen hs \<Longrightarrow> gen \<le> gen' \<Longrightarrow> headers_in gen' hs"
  unfolding headers_in_def using header_mono by blast

lemma headers_assign:
  assumes "headers_in gen hs" and "header_in gen h"
  shows "headers_in gen (ht_assign hash_int k h hs)"
proof -
  have ok: "ht_ok hash_int hs" using assms(1) by (simp add: headers_in_def)
  show ?thesis using assms hint.put_ok [OF ok] hint.put_find [OF ht_ok_wf [OF ok]]
    by (auto simp: headers_in_def hint.assign_put)
qed

lemma header_update_sound:
  assumes run: "header_update E (man_domain E man) header entry hs gen = Some (h, gen')"
    and entry: "settled_in gen entry" and hs: "headers_in gen hs" and man: "manager_in gen man"
  shows "gen' = gen" and "header_in gen h" and "covers E X entry \<rho> \<Longrightarrow> covers E X (hs_state h) \<rho>"
proof -
  let ?h = "case ht_find hash_int hs header of Some h \<Rightarrow> h
       | None \<Rightarrow> \<lparr>hs_avcreate = False, hs_state = m_bot man, hs_entry = dom_bottom E\<rparr>"
  obtain eq where eq: "dom_equals E entry (hs_entry ?h) gen = Some (eq, gen')"
    and h: "h = (if \<not> eq then \<lparr>hs_avcreate = True, hs_state = entry, hs_entry = entry\<rparr> else ?h)"
    using run unfolding header_update_def Let_def domain_bot by (auto simp: bindE)
  have dead: "\<not> covers E X (dom_bottom E) \<rho>" for X \<rho>
    using bottom_covers [of gen "dom_bottom E"] bottom_settled [of gen]
    by (simp add: settled_in_def plain_def isBottom_def dom_bottom_def)
  have old: "header_in gen ?h"
  proof (cases "ht_find hash_int hs header")
    case None
    then show ?thesis using man bottom_settled dead by (simp add: header_in_def manager_in_def)
  next
    case (Some h)
    then show ?thesis using hs by (simp add: headers_in_def)
  qed
  have ok: "dom_ok E gen entry" "reg_only entry" "dom_ok E gen (hs_entry ?h)" "reg_only (hs_entry ?h)"
    using entry old by (simp_all add: settled_in_def plain_def header_in_def)
  note k = equals_keeps [OF ok eq]
  have "gen' = gen \<and> header_in gen h \<and> (covers E X entry \<rho> \<longrightarrow> covers E X (hs_state h) \<rho>)"
  proof (cases eq)
    case False
    then show ?thesis using k(1) entry h by (simp add: header_in_def)
  next
    case True
    have inc: "dom_sem E entry \<subseteq> dom_sem E (hs_entry ?h)" by (rule equals_included(1) [OF ok]) (use eq True in simp)
    have "covers E X (hs_entry ?h) \<rho>" if cov: "covers E X entry \<rho>"
    proof -
      have "d_bounds entry = d_bounds (hs_entry ?h)" using k(2) True bottom_covers [OF ok(1)] cov by blast
      then show ?thesis using cov inc counters_in_cong [of "hs_entry ?h" entry X] by (auto simp: covers_def)
    qed
    then show ?thesis using k(1) old h True by (simp add: header_in_def)
  qed
  then show "gen' = gen" "header_in gen h" "covers E X entry \<rho> \<Longrightarrow> covers E X (hs_state h) \<rho>" by blast+
qed

end

text \<open>The bound of a header is in the reach of the conversions.\<close>

definition header_fits :: "'p env \<Rightarrow> 'p manager \<Rightarrow> cfg \<Rightarrow> nat \<Rightarrow> 'p domain store \<Rightarrow> guid \<Rightarrow> bool" where
  "header_fits E man c v st gen \<longleftrightarrow>
     (case header_inputs (man_domain E man) c v st gen of None \<Rightarrow> True
      | Some (entry, back, gen) \<Rightarrow> range_fits E back (block_id c v))"

text \<open>The arguments of the program, when its first block starts.\<close>

definition args_set :: "mstate \<Rightarrow> bool" where
  "args_set \<rho> \<longleftrightarrow> (\<forall>r \<in> {0, 1, 2, 3}. \<rho> (Param r) = \<rho> (Reg r))"

lemma loop_reset_gen [simp]: "an_gen (loop_reset c v an) = an_gen an"
  by (simp add: loop_reset_def split: option.split)

context poly_env
begin

lemma process_header_sound:
  assumes run: "processHeader E man c v st hs an = Some (s, hs', an')"
    and st: "store_in (an_gen an) st" and man: "manager_in (an_gen an) man" and hs: "headers_in (an_gen an) hs"
    and v: "li_header (c_loops c) v" "0 \<le> block_id c v" and fits: "header_fits E man c v st (an_gen an)"
  shows "an_gen an' = an_gen an" and "settled_in (an_gen an) s" and "headers_in (an_gen an) hs'"
    and "e \<in> set (preds (c_graph c) v) \<Longrightarrow> sinkOf (c_graph c) e = v \<Longrightarrow>
      covers E (back_of c e) (es_get (man_domain E man) st e) \<rho> \<Longrightarrow> covers E {} s \<rho>"
proof -
  let ?h = "block_id c v" and ?get = "es_get (man_domain E man) st"
  have an: "an_gen (header_context ?h an) = an_gen an" by (simp add: header_context_def Let_def)
  obtain entry bs gen1 h gen2 bound gen3 where i: "header_inputs (man_domain E man) c v st (an_gen an) = Some (entry, bs, gen1)"
    and u: "header_update E (man_domain E man) ?h entry hs gen1 = Some (h, gen2)"
    and b: "getLoopBound E bs ?h = Some bound"
    and w: "onMerge E (setBound E (nat ?h) bound bs) (hs_state h) True (hs_avcreate h) gen2 = Some (s, gen3)"
    and hs': "hs' = ht_assign hash_int ?h (h\<lparr>hs_state := s, hs_avcreate := hs_avcreate h \<and> isBottom E bs\<rparr>) hs" and an': "an_gen an' = gen3"
    using run by (auto simp: processHeader_def bindE Let_def m_widening_def an)
  note i1 = header_inputs_sound [OF i st man]
  note u1 = header_update_sound [OF u [unfolded i1(1)] i1(2) hs man]
  let ?b = "setBound E (nat ?h) bound bs"
  have ok: "dom_ok E (an_gen an) bs" using i1(3) by (simp add: settled_in_def plain_def)
  have "settled_in (an_gen an) ?b" using i1(3) by (simp add: settled_in_def hasFilter_def)
  moreover have "settled_in (an_gen an) (hs_state h)" using u1(2) by (simp add: header_in_def)
  ultimately have m: "gen3 = an_gen an" "settled_in (an_gen an) s" "\<And>X \<rho>. covers E X ?b \<rho> \<or> covers E X (hs_state h) \<rho> \<Longrightarrow> covers E X s \<rho>"
    by (rule merge_sound [OF _ _ w [unfolded u1(1)]])+
  show "an_gen an' = an_gen an" "settled_in (an_gen an) s" using m(1,2) an' by simp_all
  have "header_in (an_gen an) (h\<lparr>hs_state := s, hs_avcreate := hs_avcreate h \<and> isBottom E bs\<rparr>)"
    using u1(2) m(2,3) by (auto simp: header_in_def)
  then show "headers_in (an_gen an) hs'" unfolding hs' by (rule headers_assign [OF hs])
  assume e: "e \<in> set (preds (c_graph c) v)" "sinkOf (c_graph c) e = v" and cov: "covers E (back_of c e) (?get e) \<rho>"
  show "covers E {} s \<rho>"
  proof (cases "is_back c e")
    case True
    then have "li_dominates (c_loops c) (sinkOf (c_graph c) e) (sourceOf (c_graph c) e)" by (simp add: is_back_def)
    then have b0: "covers E {?h} bs \<rho>" using i1(4) [OF e(1) cov] True e(2) by (simp add: back_of_def)
    have "range_fits E bs ?h" using fits i by (simp add: header_fits_def)
    from loop_bound_sound [OF b ok this b0] have "covers E {} ?b \<rho>" by (rule covers_back [OF b0])
    then show ?thesis using m(3) by blast
  next
    case False
    then have "\<not> li_dominates (c_loops c) (sinkOf (c_graph c) e) (sourceOf (c_graph c) e)" using v e(2) by (simp add: is_back_def)
    then have "covers E {} entry \<rho>" using i1(4) [OF e(1) cov] False by (simp add: back_of_def)
    then have "covers E {} (hs_state h) \<rho>" by (rule u1(3))
    then show ?thesis using m(3) by blast
  qed
qed

subsection \<open>Arguments\<close>

lemma init_parameter_sound:
  assumes run: "init_parameter E r (s, used, gen) = Some (s', used', gen')" and s: "settled_in gen s"
  shows "gen \<le> gen'" and "settled_in gen' s'"
    and "covers E X s \<rho> \<Longrightarrow> \<rho> (Param r) = \<rho> (Reg r) \<Longrightarrow> covers E X s' \<rho>"
proof -
  have ok: "dom_ok E gen s" "reg_only s" "d_victims s = []" "\<not> hasFilter s" using s by (simp_all add: settled_in_def plain_def)
  obtain v s1 gen1 v2 s2 gen2 k where n: "varNew (Reg r) NO_STEP False s gen = Some (v, s1, gen1)"
    "varNew (Param r) NO_STEP False s1 gen1 = Some (v2, s2, gen2)" and s': "s' = doNewConstraint E k s2"
    using run by (auto simp: init_parameter_def bindE)
  have new: "\<not> hasIdent d i \<and> d_victims d' = d_victims d \<and> d_idmap d' = im_add i (idval_t g NO_STEP) (d_idmap d)"
    if "varNew i NO_STEP False d g = Some (w, d', g')" for i d g w d' g'
    using that by (auto simp: varNew_def bindE hasIdent_iff split: option.splits)
  note new1 = new [OF n(1)] and new2 = new [OF n(2)]
  have m: "im_ok (d_idmap s)" by (rule dom_okD [OF ok(1)])
  have old: "im_find1 (d_idmap s) i \<noteq> Some (idval_t gen NO_STEP)" for i
  proof
    assume "im_find1 (d_idmap s) i = Some (idval_t gen NO_STEP)"
    then have "iv_g (idval_t gen NO_STEP) < gen" using ok(1) unfolding dom_ok_def by blast
    then show False by simp
  qed
  have f1: "im_find1 (d_idmap s1) = (im_find1 (d_idmap s))(Reg r := Some (idval_t gen NO_STEP))"
    using old by (intro ext) (auto simp: new1 im_add_finds(2) [OF m])
  have free: "\<not> hasIdent s (Reg r)" "\<not> hasIdent s (Param r)" using new1 new2 f1 by (auto simp: hasIdent_iff Param_def split: if_splits)
  have none: "map_of [] r = (None :: guid option)" by simp
  have "\<exists>s1. init_parameter E r (s, [], gen) = Some (s1, om_emplace r (gen + 1) [], gen + 2) \<and> dom_ok E (gen + 2) s1 \<and>
      im_find1 (d_idmap s1) = (im_find1 (d_idmap s))(Reg r \<mapsto> idval_t gen NO_STEP, Param r \<mapsto> idval_t (gen + 1) NO_STEP) \<and>
      dom_sem E s1 = {\<rho> \<in> dom_sem E s. \<rho> (Param r) = \<rho> (Reg r)}"
    by (rule init_parameter_ok [OF ok(1) free om_ok_Nil none]) blast
  moreover have "init_parameter E r (s, [], gen) = Some (s', om_emplace r v2 [], gen')"
    using run n by (auto simp: init_parameter_def bindE)
  ultimately have p: "gen' = gen + 2" "dom_ok E gen' s'"
    "im_find1 (d_idmap s') = (im_find1 (d_idmap s))(Reg r \<mapsto> idval_t gen NO_STEP, Param r \<mapsto> idval_t (gen + 1) NO_STEP)"
    "dom_sem E s' = {\<rho> \<in> dom_sem E s. \<rho> (Param r) = \<rho> (Reg r)}" by auto
  have fr: "same_frame s s'"
    unfolding s' by (rule same_frame_trans [OF same_frame_trans [OF varNew_frame(1) [OF n(1)] varNew_frame(1) [OF n(2)]]]) simp
  have "reg_only s'" using ok(2) p(3) by (auto simp: reg_only_def Param_def mem_types_def split: if_splits)
  moreover have "d_victims s' = []" using new1 new2 ok(3) by (simp add: s' doNewConstraint_def)
  ultimately show "gen \<le> gen'" "settled_in gen' s'"
    using p(1,2) ok(4) same_frame_filter [OF fr] by (simp_all add: settled_in_def plain_def)
  assume "covers E X s \<rho>" "\<rho> (Param r) = \<rho> (Reg r)"
  then show "covers E X s' \<rho>"
    using p(4) fr counters_in_cong [of s' s X] by (simp add: covers_def lift_apply same_frame_def)
qed

lemma arguments_sound:
  assumes run: "initFunctionParameters E main s ctx gen = Some (s', ctx', gen')" and s: "settled_in gen s"
  shows "gen \<le> gen'" and "settled_in gen' s'" and "covers E X s \<rho> \<Longrightarrow> args_set \<rho> \<Longrightarrow> covers E X s' \<rho>"
proof -
  let ?I = "\<lambda>(s', used :: (int, guid) omap, gen'). gen \<le> gen' \<and> settled_in gen' s' \<and> (covers E X s \<rho> \<longrightarrow> args_set \<rho> \<longrightarrow> covers E X s' \<rho>)"
  have "gen \<le> gen' \<and> settled_in gen' s' \<and> (covers E X s \<rho> \<longrightarrow> args_set \<rho> \<longrightarrow> covers E X s' \<rho>)"
  proof (cases main)
    case True
    then obtain used where "foldM (init_parameter E) [0, 1, 2, 3] (s, bx_used ctx, gen) = Some (s', used, gen')"
      using run by (auto simp: initFunctionParameters_def bindE)
    then have "?I (s', used, gen')"
    proof (rule foldM_invariant)
      show "?I (s, bx_used ctx, gen)" using s by simp
      fix r x y
      assume r: "r \<in> set [0 :: int, 1, 2, 3]" and x: "?I x" and st: "init_parameter E r x = Some y"
      obtain s1 u1 g1 s2 u2 g2 where xy: "x = (s1, u1, g1)" "y = (s2, u2, g2)" by (cases x, cases y)
      have s1: "settled_in g1 s1" using x xy by simp
      note p = init_parameter_sound [OF st [unfolded xy] s1]
      have "args_set \<rho> \<Longrightarrow> \<rho> (Param r) = \<rho> (Reg r)" using r by (auto simp: args_set_def)
      then show "?I y" using x p unfolding xy by auto
    qed
    then show ?thesis by simp
  qed (use run s in \<open>simp add: initFunctionParameters_def\<close>)
  then show "gen \<le> gen'" "settled_in gen' s'" "covers E X s \<rho> \<Longrightarrow> args_set \<rho> \<Longrightarrow> covers E X s' \<rho>" by blast+
qed

lemma block_input_sound:
  assumes run: "block_input E man k c w hs an = Some (s, hs', an')"
    and st: "store_in (an_gen an) (wl_store w)" and man: "manager_in (an_gen an) man" and hs: "headers_in (an_gen an) hs"
    and header: "li_header (c_loops c) (wl_cur w) \<Longrightarrow> 0 \<le> block_id c (wl_cur w) \<and> header_fits E man c (wl_cur w) (wl_store w) (an_gen an)"
  shows "an_gen an \<le> an_gen an'" and "settled_in (an_gen an') s" and "headers_in (an_gen an') hs'"
    and "e \<in> set (preds (c_graph c) (wl_cur w)) \<Longrightarrow> sinkOf (c_graph c) e = wl_cur w \<Longrightarrow>
      covers E (back_of c e) (es_get (man_domain E man) (wl_store w) e) \<rho> \<Longrightarrow> (wl_cur w = 1 \<longrightarrow> args_set \<rho>) \<Longrightarrow> covers E {} s \<rho>"
proof -
  let ?v = "wl_cur w" and ?an = "loop_reset c (wl_cur w) an" and ?get = "es_get (man_domain E man) (wl_store w)"
  let ?in = "\<lambda>s. \<forall>e \<rho>. e \<in> set (preds (c_graph c) ?v) \<longrightarrow> sinkOf (c_graph c) e = ?v \<longrightarrow>
      covers E (back_of c e) (?get e) \<rho> \<longrightarrow> covers E {} s \<rho>"
  let ?r = "if li_header (c_loops c) ?v then processHeader E man c ?v (wl_store w) hs ?an
       else do { (s, gen) \<leftarrow> wl_input (man_domain E man) (c_graph c) ?v (wl_store w) (an_gen ?an); Some (s, hs, ?an\<lparr>an_gen := gen\<rparr>) }"
  obtain x where x: "?r = Some x" using run unfolding block_input_def Let_def bindE by blast
  obtain s1 hs1 an1 where x': "x = (s1, hs1, an1)" by (cases x)
  have p: "(if ?v = 1 then do {
       (s, ctx, gen) \<leftarrow> initFunctionParameters E (an_root an1 k = Some k) s1 (an_ctx an1) (an_gen an1);
       Some (s, hs1, an1\<lparr>an_ctx := ctx, an_gen := gen\<rparr>) } else Some (s1, hs1, an1)) = Some (s, hs', an')"
    using run x unfolding block_input_def Let_def x' by simp
  then have "hs1 = hs'" by (auto simp: bindE split: if_splits)
  then have r: "?r = Some (s1, hs', an1)" using x x' by simp
  have one: "an_gen an1 = an_gen an \<and> settled_in (an_gen an) s1 \<and> headers_in (an_gen an) hs' \<and> ?in s1"
  proof (cases "li_header (c_loops c) ?v")
    case True
    then have ph: "processHeader E man c ?v (wl_store w) hs ?an = Some (s1, hs', an1)" using r by simp
    have h: "0 \<le> block_id c ?v" "header_fits E man c ?v (wl_store w) (an_gen an)" using header [OF True] by simp_all
    have pre: "store_in (an_gen ?an) (wl_store w)" "manager_in (an_gen ?an) man" "headers_in (an_gen ?an) hs"
      "header_fits E man c ?v (wl_store w) (an_gen ?an)" using st man hs h by simp_all
    note q = process_header_sound [OF ph pre(1-3) True h(1) pre(4)]
    then show ?thesis by auto
  next
    case False
    then obtain gen where i: "wl_input (man_domain E man) (c_graph c) ?v (wl_store w) (an_gen an) = Some (s1, gen)"
      and a: "hs' = hs" "an_gen an1 = gen" using r by (auto simp: bindE)
    note q = input_sound [OF i st man]
    have "back_of c e = {}" if "sinkOf (c_graph c) e = ?v" for e using that False by (simp add: back_of_def is_back_def)
    then show ?thesis using q a hs by auto
  qed
  have "an_gen an \<le> an_gen an' \<and> settled_in (an_gen an') s \<and> (covers E {} s1 \<rho> \<longrightarrow> (?v = 1 \<longrightarrow> args_set \<rho>) \<longrightarrow> covers E {} s \<rho>)"
  proof (cases "?v = 1")
    case True
    then obtain ctx gen where a: "initFunctionParameters E (an_root an1 k = Some k) s1 (an_ctx an1) (an_gen an1) = Some (s, ctx, gen)"
      "an_gen an' = gen" using p by (auto simp: bindE)
    have s1: "settled_in (an_gen an1) s1" using one by simp
    note q = arguments_sound [OF a(1) s1]
    show ?thesis using q one a(2) True by simp
  qed (use p one in auto)
  then show "an_gen an \<le> an_gen an'" "settled_in (an_gen an') s" "headers_in (an_gen an') hs'"
    "e \<in> set (preds (c_graph c) ?v) \<Longrightarrow> sinkOf (c_graph c) e = ?v \<Longrightarrow>
      covers E (back_of c e) (?get e) \<rho> \<Longrightarrow> (?v = 1 \<longrightarrow> args_set \<rho>) \<Longrightarrow> covers E {} s \<rho>"
    using one headers_mono [of "an_gen an" hs' "an_gen an'"] by blast+
qed

end

end
