(* ===== verification/Manager_Sound.thy ===== *)
theory Manager_Sound
  imports Input_Sound
begin

text \<open>
  The state the analysis starts from: exactly the states of a machine whose stack, frame and
  link registers have the values they keep under their special names, inside the stack.
\<close>

definition stack_start :: "(ident \<Rightarrow> rat) \<Rightarrow> bool" where
  "stack_start \<rho> \<longleftrightarrow> \<rho> (special ID_START_SP) = \<rho> (Reg 13) \<and> \<rho> (special ID_START_FP) = \<rho> (Reg 11) \<and>
     \<rho> (special ID_START_LR) = \<rho> (Reg 14) \<and>
     of_int STACK_TOP \<le> \<rho> (Reg 13) \<and> \<rho> (Reg 13) \<le> of_int STACK_TOP + 0x1000000 \<and>
     of_int STACK_TOP \<le> \<rho> (Reg 11) \<and> \<rho> (Reg 11) \<le> of_int STACK_TOP + 0x1000000"

definition machine_start :: "mstate \<Rightarrow> bool" where
  "machine_start \<rho> \<longleftrightarrow> stack_start (lift \<rho>) \<and> (\<forall>h. \<rho> (Ident h ID_LOOP) = 0)"

lemma start_vars_of:
  "wc_vars (w_eq (V a) (V b)) \<subseteq> {a, b}" "wc_vars (w_ge (V a) (K k)) \<subseteq> {a}" "wc_vars (w_le (V a) (K k)) \<subseteq> {a}"
  using wc_vars_ops [of "V a" "V b"] wc_vars_ops [of "V a" "K k"] by auto

context poly_env
begin

text \<open>A new variable for an identifier that has none.\<close>

lemma new_free:
  assumes ok: "dom_ok E gen s" and free: "im_find1 (d_idmap s) i = None" and i: "id_type i \<notin> set mem_types"
  shows "\<exists>s'. varNew i NO_STEP False s gen = Some (gen, s', gen + 1) \<and> dom_ok E (gen + 1) s' \<and> dom_sem E s' = dom_sem E s \<and>
    im_find1 (d_idmap s') = (im_find1 (d_idmap s))(i \<mapsto> idval_t gen NO_STEP) \<and>
    same_frame s s' \<and> d_victims s' = d_victims s"
proof -
  have t: "if id_type i = ID_MEM_ADDR then NO_STEP \<noteq> NO_STEP else NO_STEP = NO_STEP" using i by (auto simp: mem_types_def)
  have r: "hasIdent s i \<longrightarrow> False \<and> NO_STEP = NO_STEP" using free by (simp add: hasIdent_iff)
  obtain s' where s': "varNew i NO_STEP False s gen = Some (gen, s', gen + 1)" "dom_ok E (gen + 1) s'"
    "im_find1 (d_idmap s') = (im_find1 (d_idmap s))(i \<mapsto> idval_t gen NO_STEP)" "d_poly s' = d_poly s"
    using varNew_ok [OF ok t r] by metis
  have "d_victims s' = d_victims s" using s'(1) free by (auto simp: varNew_def bindE)
  then show ?thesis using s' models_free [OF ok free s'(3,4)] varNew_frame(1) [OF s'(1)] by blast
qed

lemma constraints_ok:
  assumes "dom_ok E gen s" and "\<forall>c \<in> set cs. wc_vars c \<subseteq> {..<gen}"
  shows "dom_ok E gen (fold (doNewConstraint E) cs s)"
    and "models E (fold (doNewConstraint E) cs s) v \<rho> \<longleftrightarrow> models E s v \<rho> \<and> (\<forall>c \<in> set cs. wc_sat v c)"
    and "im_find1 (d_idmap (fold (doNewConstraint E) cs s)) = im_find1 (d_idmap s)"
    and "same_frame s (fold (doNewConstraint E) cs s)" and "d_victims (fold (doNewConstraint E) cs s) = d_victims s"
proof -
  have "dom_ok E gen (fold (doNewConstraint E) cs s) \<and>
    (\<forall>v \<rho>. models E (fold (doNewConstraint E) cs s) v \<rho> \<longleftrightarrow> models E s v \<rho> \<and> (\<forall>c \<in> set cs. wc_sat v c)) \<and>
    im_find1 (d_idmap (fold (doNewConstraint E) cs s)) = im_find1 (d_idmap s) \<and> same_frame s (fold (doNewConstraint E) cs s) \<and>
    d_victims (fold (doNewConstraint E) cs s) = d_victims s"
    using assms
  proof (induction cs arbitrary: s)
    case (Cons c cs)
    have vars: "wc_vars c \<subseteq> {..<gen}" using Cons.prems(2) by simp
    note k = constraint_ok [OF Cons.prems(1) vars]
    have "d_victims (doNewConstraint E c s) = d_victims s" by (simp add: doNewConstraint_def)
    then show ?case using Cons.IH [OF k(1)] Cons.prems(2) k(2,3) same_frame_trans [OF constraint_frame] by auto
  qed simp
  then show "dom_ok E gen (fold (doNewConstraint E) cs s)"
    "models E (fold (doNewConstraint E) cs s) v \<rho> \<longleftrightarrow> models E s v \<rho> \<and> (\<forall>c \<in> set cs. wc_sat v c)"
    "im_find1 (d_idmap (fold (doNewConstraint E) cs s)) = im_find1 (d_idmap s)"
    "same_frame s (fold (doNewConstraint E) cs s)" "d_victims (fold (doNewConstraint E) cs s) = d_victims s" by blast+
qed

text \<open>The six variables of the initial state, by increasing generators.\<close>

definition start_vars :: "guid \<Rightarrow> ident \<Rightarrow> idval option" where
  "start_vars gen = [Reg 13 \<mapsto> idval_t gen NO_STEP, Reg 11 \<mapsto> idval_t (gen + 1) NO_STEP, Reg 14 \<mapsto> idval_t (gen + 2) NO_STEP,
     special ID_START_SP \<mapsto> idval_t (gen + 3) NO_STEP, special ID_START_FP \<mapsto> idval_t (gen + 4) NO_STEP,
     special ID_START_LR \<mapsto> idval_t (gen + 5) NO_STEP]"

text \<open>A state that only knows the values in \<open>m\<close>.\<close>

definition bare :: "guid \<Rightarrow> (ident \<Rightarrow> idval option) \<Rightarrow> 'p domain \<Rightarrow> bool" where
  "bare gen m s \<longleftrightarrow> dom_ok E gen s \<and> dom_sem E s = UNIV \<and> im_find1 (d_idmap s) = m \<and> same_frame (dom_top E None) s \<and> d_victims s = []"

lemma bare_new:
  assumes "bare gen m s" and "m i = None" and "id_type i \<notin> set mem_types" and nx: "gen' = gen + 1"
  shows "\<exists>s'. varNew i NO_STEP False s gen = Some (gen, s', gen') \<and> bare gen' (m(i \<mapsto> idval_t gen NO_STEP)) s'"
proof -
  have s: "dom_ok E gen s" "im_find1 (d_idmap s) i = None" "same_frame (dom_top E None) s" "dom_sem E s = UNIV"
    "im_find1 (d_idmap s) = m" "d_victims s = []"
    using assms by (simp_all add: bare_def)
  then show ?thesis using new_free [OF s(1,2) assms(3)] same_frame_trans [OF s(3)] unfolding bare_def nx by auto
qed

lemma bare_top: "bare gen Map.empty (dom_top E None)"
proof -
  have "wp_dom (wp_new (e_ppl E) False) = {}" by (simp add: wp_dom_def wp_new_def)
  then have "dom_ok E gen (dom_top E None)" by (simp add: dom_ok_def dom_top_def)
  moreover have "dom_sem E (dom_top E None) = UNIV" "im_find1 (d_idmap (dom_top E None)) = Map.empty" "d_victims (dom_top E None) = []"
    by (auto simp: dom_sem_def models_def dom_top_def)
  ultimately show ?thesis by (simp add: bare_def)
qed

lemma manager_init_ok:
  "\<exists>s. manager_init E gen = Some (s, gen + 6) \<and> settled_in (gen + 6) s \<and> dom_sem E s = {\<rho>. stack_start \<rho>} \<and> d_bounds s = []"
proof -
  let ?cs = "[w_eq (V (gen + 3)) (V gen), w_eq (V (gen + 4)) (V (gen + 1)), w_eq (V (gen + 5)) (V (gen + 2)),
        w_ge (V (gen + 3)) (K STACK_TOP), w_ge (V (gen + 4)) (K STACK_TOP),
        w_le (V (gen + 3)) (K (STACK_TOP + 0x1000000)), w_le (V (gen + 4)) (K (STACK_TOP + 0x1000000))]"
  note ids = special_def ID_START_SP_def ID_START_FP_def ID_START_LR_def mem_types_def
  obtain s1 where s1: "varNew (Reg 13) NO_STEP False (dom_top E None) (gen) = Some (gen, s1, gen + 1)"
    "bare (gen + 1) [Reg 13 \<mapsto> idval_t (gen) NO_STEP] s1"
    using bare_new [OF bare_top [of gen], of "Reg 13" "gen + 1"] by (auto simp: ids)
  obtain s2 where s2: "varNew (Reg 11) NO_STEP False s1 (gen + 1) = Some (gen + 1, s2, gen + 2)"
    "bare (gen + 2) [Reg 13 \<mapsto> idval_t (gen) NO_STEP, Reg 11 \<mapsto> idval_t (gen + 1) NO_STEP] s2"
    using bare_new [OF s1(2), of "Reg 11" "gen + 2"] by (auto simp: ids)
  obtain s3 where s3: "varNew (Reg 14) NO_STEP False s2 (gen + 2) = Some (gen + 2, s3, gen + 3)"
    "bare (gen + 3) [Reg 13 \<mapsto> idval_t (gen) NO_STEP, Reg 11 \<mapsto> idval_t (gen + 1) NO_STEP, Reg 14 \<mapsto> idval_t (gen + 2) NO_STEP] s3"
    using bare_new [OF s2(2), of "Reg 14" "gen + 3"] by (auto simp: ids)
  obtain s4 where s4: "varNew (special ID_START_SP) NO_STEP False s3 (gen + 3) = Some (gen + 3, s4, gen + 4)"
    "bare (gen + 4) [Reg 13 \<mapsto> idval_t (gen) NO_STEP, Reg 11 \<mapsto> idval_t (gen + 1) NO_STEP, Reg 14 \<mapsto> idval_t (gen + 2) NO_STEP, special ID_START_SP \<mapsto> idval_t (gen + 3) NO_STEP] s4"
    using bare_new [OF s3(2), of "special ID_START_SP" "gen + 4"] by (auto simp: ids)
  obtain s5 where s5: "varNew (special ID_START_FP) NO_STEP False s4 (gen + 4) = Some (gen + 4, s5, gen + 5)"
    "bare (gen + 5) [Reg 13 \<mapsto> idval_t (gen) NO_STEP, Reg 11 \<mapsto> idval_t (gen + 1) NO_STEP, Reg 14 \<mapsto> idval_t (gen + 2) NO_STEP, special ID_START_SP \<mapsto> idval_t (gen + 3) NO_STEP, special ID_START_FP \<mapsto> idval_t (gen + 4) NO_STEP] s5"
    using bare_new [OF s4(2), of "special ID_START_FP" "gen + 5"] by (auto simp: ids)
  obtain s6 where s6: "varNew (special ID_START_LR) NO_STEP False s5 (gen + 5) = Some (gen + 5, s6, gen + 6)"
    "bare (gen + 6) [Reg 13 \<mapsto> idval_t (gen) NO_STEP, Reg 11 \<mapsto> idval_t (gen + 1) NO_STEP, Reg 14 \<mapsto> idval_t (gen + 2) NO_STEP, special ID_START_SP \<mapsto> idval_t (gen + 3) NO_STEP, special ID_START_FP \<mapsto> idval_t (gen + 4) NO_STEP, special ID_START_LR \<mapsto> idval_t (gen + 5) NO_STEP] s6"
    using bare_new [OF s5(2), of "special ID_START_LR" "gen + 6"] by (auto simp: ids)
  let ?s = "fold (doNewConstraint E) ?cs s6"
  have run: "manager_init E gen = Some (?s, gen + 6)"
    using s1(1) s2(1) s3(1) s4(1) s5(1) s6(1) by (simp add: manager_init_def Let_def)
  have ok: "dom_ok E (gen + 6) s6" and univ: "dom_sem E s6 = UNIV" and fr: "same_frame (dom_top E None) s6" and vic: "d_victims s6 = []"
    and f: "im_find1 (d_idmap s6) = start_vars gen"
    using s6(2) by (simp_all add: bare_def start_vars_def)
  have vars: "\<forall>c \<in> set ?cs. wc_vars c \<subseteq> {..<gen + 6}"
    unfolding list.set ball_simps by (intro conjI TrueI; rule order_trans [OF start_vars_of(1)] order_trans [OF start_vars_of(2)]
        order_trans [OF start_vars_of(3)]; simp)
  note k = constraints_ok [where cs = ?cs, OF ok vars]
  have sat: "(\<forall>c \<in> set ?cs. wc_sat v c) \<longleftrightarrow> stack_start \<rho>" if "models E s6 v \<rho>" for v \<rho>
  proof -
    have val: "start_vars gen i = Some iv \<Longrightarrow> v (iv_g iv) = \<rho> i" for i iv using models_value [OF that] f by simp
    have "v gen = \<rho> (Reg 13)" "v (gen + 1) = \<rho> (Reg 11)" "v (gen + 2) = \<rho> (Reg 14)" "v (gen + 3) = \<rho> (special ID_START_SP)"
      "v (gen + 4) = \<rho> (special ID_START_FP)" "v (gen + 5) = \<rho> (special ID_START_LR)"
      using val [of "Reg 13"] val [of "Reg 11"] val [of "Reg 14"] val [of "special ID_START_SP"] val [of "special ID_START_FP"]
        val [of "special ID_START_LR"] by (simp_all add: start_vars_def ids)
    then show ?thesis by (auto simp: stack_start_def)
  qed
  have "\<rho> \<in> dom_sem E ?s \<longleftrightarrow> stack_start \<rho>" for \<rho>
  proof -
    obtain v0 where "models E s6 v0 \<rho>" using univ by (auto simp: dom_sem_def)
    then show ?thesis using sat k(2) unfolding dom_sem_def mem_Collect_eq by blast
  qed
  then have sem: "dom_sem E ?s = {\<rho>. stack_start \<rho>}" by auto
  have fr': "same_frame (dom_top E None) ?s" by (rule same_frame_trans [OF fr k(4)])
  then have bd: "d_bounds ?s = []" and nf: "\<not> hasFilter ?s"
    using same_frame_filter [OF fr'] by (simp_all add: same_frame_def dom_top_def hasFilter_def ident_invalid_def)
  have "im_find1 (d_idmap ?s) = start_vars gen" unfolding k(3) by (rule f)
  then have "reg_only ?s" unfolding reg_only_def by (simp only: start_vars_def) (auto simp: ids split: if_splits)
  then have "settled_in (gen + 6) ?s" using k(1,5) vic nf by (simp add: settled_in_def plain_def)
  then show ?thesis using run sem bd by blast
qed

lemma manager_new_ok:
  assumes "manager_new E gen = Some (man, gen')"
  shows "manager_in gen' man" and "machine_start \<rho> \<Longrightarrow> covers E {} (m_init man) \<rho>"
proof -
  obtain s where s: "manager_init E gen = Some (s, gen + 6)" "settled_in (gen + 6) s" "dom_sem E s = {\<rho>. stack_start \<rho>}" "d_bounds s = []"
    using manager_init_ok by blast
  have man: "m_init man = s" "m_bot man = dom_bottom E" "gen' = gen + 6" using assms s(1) by (auto simp: manager_new_def)
  show "manager_in gen' man" using s(2) bottom_settled by (simp add: manager_in_def man isBottom_def dom_bottom_def)
  assume st: "machine_start \<rho>"
  have "counters_in {} s \<rho>" using st by (simp add: counters_in_def machine_start_def in_bound_nonpos)
  then show "covers E {} (m_init man) \<rho>" using st s(3) by (simp add: covers_def machine_start_def man)
qed

end

end
