(* ===== verification/Program_Sound.thy ===== *)
theory Program_Sound
  imports Manager_Sound Analysis_Run
begin

text \<open>
  The analysis of a graph of register code, as a whole: machine states that can arrive over an
  edge are covered by what the store holds for the edge when the work list is empty.
\<close>

subsection \<open>Executions of a graph\<close>

definition block_code :: "cfg \<Rightarrow> nat \<Rightarrow> sem_inst list" where
  "block_code c v = (case c_blocks c ! v of BBasic insts live \<Rightarrow> concat insts | _ \<Rightarrow> [])"

text \<open>
  \<open>reach start c e \<rho>\<close>: an execution from the entry, in a state of \<open>start\<close>, can arrive over the
  edge \<open>e\<close> with the state \<open>\<rho>\<close>.
\<close>

inductive reach :: "(mstate \<Rightarrow> bool) \<Rightarrow> cfg \<Rightarrow> nat \<Rightarrow> mstate \<Rightarrow> bool" for start c where
  enter: "f \<in> set (succs (c_graph c) (g_entry (c_graph c))) \<Longrightarrow> start \<rho> \<Longrightarrow> reach start c f \<rho>"
| block: "reach start c e \<rho> \<Longrightarrow> v = sinkOf (c_graph c) e \<Longrightarrow> v \<noteq> g_exit (c_graph c) \<Longrightarrow> (v = 1 \<longrightarrow> args_set \<rho>) \<Longrightarrow>
    sem_steps (block_code c v) \<rho> \<rho>1 \<Longrightarrow> f \<in> set (succs (c_graph c) v) \<Longrightarrow> edge_taken c f (block_code c v) \<rho>1 \<Longrightarrow>
    reach start c f (loop_move c f \<rho>1)"

lemma reach_edge:
  assumes "reach start c e \<rho>" and g: "graph_ok (c_graph c)"
  shows "e < length (g_edges (c_graph c))"
  using assms(1)
proof (induction rule: reach.induct)
  case (block e \<rho> v \<rho>1 f)
  then have "v < g_count (c_graph c)" using g by (auto simp: graph_ok_def)
  then show ?case using block g by (auto simp: graph_ok_def)
qed (use g in \<open>auto simp: graph_ok_def\<close>)

text \<open>Graphs of register code: nothing leads back to the entry, an edge that enters a loop again does not leave it.\<close>

definition register_block :: "block_kind \<Rightarrow> bool" where
  "register_block b \<longleftrightarrow> (case b of BBasic insts live \<Rightarrow> list_all (list_all supported) insts | _ \<Rightarrow> False)"

definition register_graph :: "cfg \<Rightarrow> bool" where
  "register_graph c \<longleftrightarrow> graph_ok (c_graph c) \<and> 0 \<le> c_offset c \<and>
     list_all (\<lambda>e. snd e \<noteq> g_entry (c_graph c)) (g_edges (c_graph c)) \<and>
     list_all (\<lambda>v. distinct (succs (c_graph c) v) \<and>
       (v \<notin> {g_entry (c_graph c), g_exit (c_graph c)} \<longrightarrow> register_block (c_blocks c ! v))) [0..<g_count (c_graph c)] \<and>
     list_all (\<lambda>e. case li_exit (c_loops c) e of None \<Rightarrow> True | Some h \<Rightarrow> block_id c h \<notin> back_of c e)
       [0..<length (g_edges (c_graph c))]"

text \<open>
  What has to hold of the states that a block gives and takes: operands are defined when they
  are read, and the bounds of loops are in the reach of the conversions to machine integers.
\<close>

definition clean :: "'p env \<Rightarrow> 'p manager \<Rightarrow> nat \<Rightarrow> cfg \<Rightarrow> 'p work \<Rightarrow> bool" where
  "clean E man k c = (\<lambda>(w, hs, an).
     (li_header (c_loops c) (wl_cur w) \<longrightarrow> header_fits E man c (wl_cur w) (wl_store w) (an_gen an)) \<and>
     (case block_input E man k c w hs an of None \<Rightarrow> True
      | Some (s, hs, an) \<Rightarrow> isBottom E s \<or>
         (case c_blocks c ! wl_cur w of
            BBasic insts live \<Rightarrow> insts_tracked E insts (s, an_gen an) \<and>
              (case process_basic E insts live s an of None \<Rightarrow> True | Some (s, an) \<Rightarrow> bounds_fit s)
          | _ \<Rightarrow> True)))"

text \<open>The check, on every block that a run of the driver processes.\<close>

primrec run_checked ::
  "('s driver \<times> 'r \<Rightarrow> bool) \<Rightarrow> nat \<Rightarrow> graph \<Rightarrow> ('s driver \<times> 'r \<Rightarrow> ('s driver \<times> 'r) option) \<Rightarrow> 's driver \<times> 'r \<Rightarrow> bool" where
  "run_checked chk 0 g step x = True"
| "run_checked chk (Suc rounds) g step x = (wl_end (fst x) \<or> chk x \<and>
     (case step x of None \<Rightarrow> True | Some (w, r) \<Rightarrow> run_checked chk rounds g step (wl_next g w, r)))"

lemma run_restrict:
  assumes "run_driver rounds g step x = Some y" and "run_checked chk rounds g step x" and "I x"
    and "\<And>w r w' r'. I (w, r) \<Longrightarrow> \<not> wl_end w \<Longrightarrow> chk (w, r) \<Longrightarrow> step (w, r) = Some (w', r') \<Longrightarrow> I (wl_next g w', r')"
  shows "run_driver rounds g (\<lambda>x. if I x \<and> chk x \<and> \<not> wl_end (fst x) then step x else None) x = Some y" and "I y"
proof -
  have "run_driver rounds g (\<lambda>x. if I x \<and> chk x \<and> \<not> wl_end (fst x) then step x else None) x = Some y \<and> I y"
    using assms(1-3)
  proof (induction rounds arbitrary: x)
    case 0
    then show ?case by (auto split: if_splits prod.splits)
  next
    case (Suc rounds)
    obtain w r where x: "x = (w, r)" by (cases x)
    show ?case
    proof (cases "wl_end w")
      case True
      then have y: "y = (w, r)" using Suc.prems(1) x by simp
      show ?thesis using True Suc.prems(3) by (simp add: x y)
    next
      case False
      then obtain w' r' where s: "step (w, r) = Some (w', r')" "run_driver rounds g step (wl_next g w', r') = Some y"
        using Suc.prems(1) x by (auto simp: bindE)
      have c: "chk (w, r)" "run_checked chk rounds g step (wl_next g w', r')" using Suc.prems(2) False s(1) x by simp_all
      have i: "I (w, r)" using Suc.prems(3) x by simp
      have "I (wl_next g w', r')" by (rule assms(4) [OF i False c(1) s(1)])
      from Suc.IH [OF s(2) c(2) this] show ?thesis using s(1) c(1) i False x by simp
    qed
  qed
  then show "run_driver rounds g (\<lambda>x. if I x \<and> chk x \<and> \<not> wl_end (fst x) then step x else None) x = Some y" "I y" by blast+
qed

text \<open>Only ends of edges are queued.\<close>

lemma changes_queue:
  assumes "changes g ord w w'" and g: "graph_ok g" and "driver_ok g w"
  shows "set (wl_vertices w') \<subseteq> set (wl_vertices w) \<union> {sinkOf g e | e. e < length (g_edges g)}"
proof -
  have "driver_ok g w' \<and> set (wl_vertices w') \<subseteq> set (wl_vertices w) \<union> {sinkOf g e | e. e < length (g_edges g)}"
    using assms(1,3)
  proof (induction rule: changes.induct)
    case (change w w' e s w'')
    let ?w = "w'\<lparr>wl_store := es_set e s (wl_store w')\<rparr>"
    have p: "wl_push ord (sinkOf g e) ?w = Some w''" using change.hyps(3) by (simp add: wl_change_def)
    have "driver_ok g ?w" using change by (simp add: driver_ok_def)
    moreover have "sinkOf g e < g_count g" using g change.hyps(2) by (simp add: graph_ok_def)
    ultimately have "driver_ok g w''" "set (wl_vertices w'') = insert (sinkOf g e) (set (wl_vertices ?w))"
      using wl_push_ok [OF _ _ p] by blast+
    then show ?case using change by auto
  qed simp
  then show ?thesis by blast
qed

context poly_env
begin

text \<open>The edges of a block, one after the other: each leaves the states of the others alone.\<close>

lemma edges_sound:
  assumes "foldM (process_edge E (man_domain E man) c ord s) es (w, an) = Some (w', an')"
    and "plain E (an_gen an) s" and "store_in (an_gen an) (wl_store w)" and "manager_in (an_gen an) man" and "distinct es"
    and p: "pending sis s" and sup: "list_all supported sis" and fit: "bounds_fit s"
    and inner: "\<And>e h. e \<in> set es \<Longrightarrow> li_exit (c_loops c) e = Some h \<Longrightarrow> 0 \<le> block_id c h \<and> block_id c h \<notin> back_of c e"
  shows "an_gen an \<le> an_gen an' \<and> store_in (an_gen an') (wl_store w') \<and>
    (\<forall>f. f \<notin> set es \<longrightarrow> wl_store w' f = wl_store w f) \<and>
    (\<forall>f \<in> set es. \<forall>\<rho>. covers E {} s \<rho> \<longrightarrow> edge_taken c f sis \<rho> \<longrightarrow>
      covers E (back_of c f) (es_get (man_domain E man) (wl_store w') f) (loop_move c f \<rho>))"
  using assms(1-5) inner
proof (induction es arbitrary: w an)
  case (Cons e es)
  obtain w1 an1 where r: "process_edge E (man_domain E man) c ord s e (w, an) = Some (w1, an1)"
    "foldM (process_edge E (man_domain E man) c ord s) es (w1, an1) = Some (w', an')"
    using Cons.prems(1) by (auto simp: bindE)
  note pe = process_edge_sound [OF r(1) Cons.prems(2) p sup fit Cons.prems(3,4)]
  have k: "an_gen an \<le> an_gen an1" "store_in (an_gen an1) (wl_store w1)" "\<And>f. f \<noteq> e \<Longrightarrow> wl_store w1 f = wl_store w f"
    using pe(1) Cons.prems(6) [of e] by (simp_all add: kept_def)
  have cov: "covers E (back_of c e) (es_get (man_domain E man) (wl_store w1) e) (loop_move c e \<rho>)"
    if "covers E {} s \<rho>" "edge_taken c e sis \<rho>" for \<rho>
    by (rule pe(2) [OF _ that]) (use Cons.prems(6) [of e] in simp)
  have ih: "an_gen an1 \<le> an_gen an' \<and> store_in (an_gen an') (wl_store w') \<and>
    (\<forall>f. f \<notin> set es \<longrightarrow> wl_store w' f = wl_store w1 f) \<and>
    (\<forall>f \<in> set es. \<forall>\<rho>. covers E {} s \<rho> \<longrightarrow> edge_taken c f sis \<rho> \<longrightarrow>
      covers E (back_of c f) (es_get (man_domain E man) (wl_store w') f) (loop_move c f \<rho>))"
    using Cons.prems(5,6)
    by (intro Cons.IH [OF r(2) plain_mono [OF Cons.prems(2) k(1)] k(2) manager_mono [OF Cons.prems(4) k(1)]]) auto
  have "wl_store w' e = wl_store w1 e" using ih Cons.prems(5) by simp
  then have "es_get (man_domain E man) (wl_store w') e = es_get (man_domain E man) (wl_store w1) e" by (simp add: es_get_def)
  then show ?case using ih k cov by auto
qed simp

text \<open>One block: what its incoming edges stand for arrives on the edges that are taken.\<close>

lemma processBB_sound:
  assumes run: "processBB E man call cfgs k ord (w, hs, an) = Some (w', hs', an')" and c: "c = cfgs ! k" "register_graph c"
    and v: "wl_cur w < g_count (c_graph c)" "wl_cur w \<notin> {g_entry (c_graph c), g_exit (c_graph c)}"
    and clean: "clean E man k c (w, hs, an)"
    and st: "store_in (an_gen an) (wl_store w)" and man: "manager_in (an_gen an) man" and hs: "headers_in (an_gen an) hs"
  shows "an_gen an \<le> an_gen an'" and "store_in (an_gen an') (wl_store w')" and "headers_in (an_gen an') hs'"
    and "e \<in> set (preds (c_graph c) (wl_cur w)) \<Longrightarrow> covers E (back_of c e) (es_get (man_domain E man) (wl_store w) e) \<rho> \<Longrightarrow>
      (wl_cur w = 1 \<longrightarrow> args_set \<rho>) \<Longrightarrow> sem_steps (block_code c (wl_cur w)) \<rho> \<rho>1 \<Longrightarrow> f \<in> set (succs (c_graph c) (wl_cur w)) \<Longrightarrow>
      edge_taken c f (block_code c (wl_cur w)) \<rho>1 \<Longrightarrow>
      covers E (back_of c f) (es_get (man_domain E man) (wl_store w') f) (loop_move c f \<rho>1)"
proof -
  let ?v = "wl_cur w" and ?D = "man_domain E man" and ?code = "block_code c (wl_cur w)"
  let ?goal = "\<lambda>w' an'. an_gen an \<le> an_gen an' \<and> store_in (an_gen an') (wl_store w') \<and> headers_in (an_gen an') hs' \<and>
      (\<forall>e \<rho> \<rho>1 f. e \<in> set (preds (c_graph c) ?v) \<longrightarrow> covers E (back_of c e) (es_get ?D (wl_store w) e) \<rho> \<longrightarrow>
        (?v = 1 \<longrightarrow> args_set \<rho>) \<longrightarrow> sem_steps ?code \<rho> \<rho>1 \<longrightarrow> f \<in> set (succs (c_graph c) ?v) \<longrightarrow> edge_taken c f ?code \<rho>1 \<longrightarrow>
        covers E (back_of c f) (es_get ?D (wl_store w') f) (loop_move c f \<rho>1))"
  have g: "graph_ok (c_graph c)" and off: "0 \<le> c_offset c" using c(2) by (simp_all add: register_graph_def)
  have ids: "0 \<le> block_id c h" for h using off by (simp add: block_id_def)
  have dist: "distinct (succs (c_graph c) ?v)" and rb: "register_block (c_blocks c ! ?v)"
    using c(2) v by (auto simp: register_graph_def list_all_iff)
  have ends: "sinkOf (c_graph c) e = ?v" if "e \<in> set (preds (c_graph c) ?v)" for e using that g v(1) by (auto simp: graph_ok_def)
  have outs: "e < length (g_edges (c_graph c))" if "e \<in> set (succs (c_graph c) ?v)" for e using that g v(1) by (auto simp: graph_ok_def)
  obtain insts live where b: "c_blocks c ! ?v = BBasic insts live" "list_all (list_all supported) insts"
    using rb by (cases "c_blocks c ! ?v") (auto simp: register_block_def)
  have code: "?code = concat insts" by (simp add: block_code_def b(1))
  obtain s hs1 an1 where i: "block_input E man k c w hs an = Some (s, hs1, an1)"
    using run c(1) by (cases "block_input E man k c w hs an") (auto simp: processBB_def)
  have header: "li_header (c_loops c) ?v \<Longrightarrow> 0 \<le> block_id c ?v \<and> header_fits E man c ?v (wl_store w) (an_gen an)"
    using clean ids by (simp add: clean_def)
  note bi = block_input_sound [OF i st man hs header]
  have input: "covers E {} s \<rho>" if "e \<in> set (preds (c_graph c) ?v)" "covers E (back_of c e) (es_get ?D (wl_store w) e) \<rho>"
    "?v = 1 \<longrightarrow> args_set \<rho>" for e \<rho>
    by (rule bi(4) [OF _ that(1) ends [OF that(1)] that(2,3)]) assumption
  have s: "plain E (an_gen an1) s" "\<not> hasFilter s" using bi(2) by (simp_all add: settled_in_def)
  have "?goal w' an'"
  proof (cases "isBottom E s")
    case True
    then have e: "w' = w" "hs' = hs1" "an' = an1" using run c(1) i by (simp_all add: processBB_def)
    have "dom_ok E (an_gen an1) s" using s(1) by (simp add: plain_def)
    then have "\<not> covers E {} s \<rho>" for \<rho> using True by (rule bottom_covers)
    then show ?thesis unfolding e using bi(1,3) store_mono [OF st bi(1)] input by blast
  next
    case False
    obtain s2 an2 where pb: "process_basic E insts live s an1 = Some (s2, an2)"
      and ed: "foldM (process_edge E ?D c ord s2) (edge_order c ?v) (w, an2) = Some (w', an')" and hs': "hs' = hs1"
      using run False c(1) i b(1) by (auto simp: processBB_def process_block_def bindE Let_def)
    have tr: "insts_tracked E insts (s, an_gen an1)" and fit: "bounds_fit s2"
      using clean False i b(1) pb by (simp_all add: clean_def)
    have "\<forall>sem \<in> set insts. list_all supported sem" using b(2) by (simp add: list_all_iff)
    note bs = basic_block_sound [OF pb s this tr]
    have gen: "an_gen an \<le> an_gen an2" using bi(1) bs(1) by simp
    have sup: "list_all supported (concat insts)" using b(2) by (auto simp: list_all_iff)
    have eo: "distinct (edge_order c ?v)" "set (edge_order c ?v) = set (succs (c_graph c) ?v)" using dist by (auto simp: edge_order_def)
    have inner: "0 \<le> block_id c h \<and> block_id c h \<notin> back_of c e"
      if e: "e \<in> set (edge_order c ?v)" "li_exit (c_loops c) e = Some h" for e h
    proof -
      have "e < length (g_edges (c_graph c))" using e(1) eo(2) outs by blast
      then have "case li_exit (c_loops c) e of None \<Rightarrow> True | Some h \<Rightarrow> block_id c h \<notin> back_of c e"
        using c(2) by (simp add: register_graph_def list_all_iff)
      then show ?thesis using ids e(2) by simp
    qed
    have es: "an_gen an2 \<le> an_gen an' \<and> store_in (an_gen an') (wl_store w') \<and>
      (\<forall>f. f \<notin> set (edge_order c ?v) \<longrightarrow> wl_store w' f = wl_store w f) \<and>
      (\<forall>f \<in> set (edge_order c ?v). \<forall>\<rho>. covers E {} s2 \<rho> \<longrightarrow> edge_taken c f (concat insts) \<rho> \<longrightarrow>
        covers E (back_of c f) (es_get ?D (wl_store w') f) (loop_move c f \<rho>))"
      by (rule edges_sound [OF ed bs(2) store_mono [OF st gen] manager_mono [OF man gen] eo(1) bs(3) sup fit inner])
    have "an_gen an1 \<le> an_gen an'" using bs(1) es by simp
    then have "headers_in (an_gen an') hs'" unfolding hs' using headers_mono [OF bi(3)] by simp
    moreover have "covers E (back_of c f) (es_get ?D (wl_store w') f) (loop_move c f \<rho>1)"
      if "e \<in> set (preds (c_graph c) ?v)" "covers E (back_of c e) (es_get ?D (wl_store w) e) \<rho>" "?v = 1 \<longrightarrow> args_set \<rho>"
        "sem_steps ?code \<rho> \<rho>1" "f \<in> set (succs (c_graph c) ?v)" "edge_taken c f ?code \<rho>1" for e \<rho> \<rho>1 f
    proof -
      have "covers E {} s2 \<rho>1" using bs(4) [OF input [OF that(1-3)]] that(4) code by simp
      then show ?thesis using es eo(2) that(5,6) code by simp
    qed
    ultimately show ?thesis using es gen by simp
  qed
  then show "an_gen an \<le> an_gen an'" "store_in (an_gen an') (wl_store w')" "headers_in (an_gen an') hs'"
    "e \<in> set (preds (c_graph c) ?v) \<Longrightarrow> covers E (back_of c e) (es_get ?D (wl_store w) e) \<rho> \<Longrightarrow>
      (?v = 1 \<longrightarrow> args_set \<rho>) \<Longrightarrow> sem_steps ?code \<rho> \<rho>1 \<Longrightarrow> f \<in> set (succs (c_graph c) ?v) \<Longrightarrow> edge_taken c f ?code \<rho>1 \<Longrightarrow>
      covers E (back_of c f) (es_get ?D (wl_store w') f) (loop_move c f \<rho>1)" by blast+
qed

subsection \<open>The run\<close>

definition run_ok :: "'p manager \<Rightarrow> cfg \<Rightarrow> 'p work \<Rightarrow> bool" where
  "run_ok man c = (\<lambda>(w, hs, an). store_in (an_gen an) (wl_store w) \<and> manager_in (an_gen an) man \<and> headers_in (an_gen an) hs \<and>
     driver_ok (c_graph c) w \<and> g_entry (c_graph c) \<notin> set (wl_vertices w) \<and>
     (\<not> wl_end w \<longrightarrow> wl_cur w < g_count (c_graph c) \<and> wl_cur w \<notin> {g_entry (c_graph c), g_exit (c_graph c)}) \<and>
     (\<forall>f \<in> set (succs (c_graph c) (g_entry (c_graph c))). wl_store w f = Some (m_init man)))"

lemma not_entry: "register_graph c \<Longrightarrow> e < length (g_edges (c_graph c)) \<Longrightarrow> sinkOf (c_graph c) e \<noteq> g_entry (c_graph c)"
  by (simp add: register_graph_def list_all_length sinkOf_def)

lemma run_ok_step:
  assumes ok: "run_ok man (cfgs ! k) (w, hs, an)" and ne: "\<not> wl_end w" and reg: "register_graph (cfgs ! k)"
    and clean: "clean E man k (cfgs ! k) (w, hs, an)" and run: "processBB E man call cfgs k ord (w, hs, an) = Some (w', hs', an')"
  shows "run_ok man (cfgs ! k) (wl_next (c_graph (cfgs ! k)) w', hs', an')"
proof -
  let ?c = "cfgs ! k" and ?g = "c_graph (cfgs ! k)"
  have g: "graph_ok ?g" using reg by (simp add: register_graph_def)
  have o: "store_in (an_gen an) (wl_store w)" "manager_in (an_gen an) man" "headers_in (an_gen an) hs" "driver_ok ?g w"
    "g_entry ?g \<notin> set (wl_vertices w)" "wl_cur w < g_count ?g" "wl_cur w \<notin> {g_entry ?g, g_exit ?g}"
    "\<forall>f \<in> set (succs ?g (g_entry ?g)). wl_store w f = Some (m_init man)"
    using ok ne by (simp_all add: run_ok_def)
  note p = processBB_sound [OF run refl reg o(6,7) clean o(1-3)]
  have loc: "changes ?g ord w w'" "\<And>e. e \<notin> set (succs ?g (wl_cur w)) \<Longrightarrow> wl_store w' e = wl_store w e"
    using processBB_local [OF run g o(6)] by (simp_all add: local_change_def)
  note ch = changes_ok [OF loc(1) g o(4)]
  have entry: "g_entry ?g \<notin> set (wl_vertices w')"
    using changes_queue [OF loc(1) g o(4)] o(5) not_entry [OF reg] by fastforce
  have ne': "\<not> wl_end w'" using ch(3) ne by simp
  note nx = wl_next_ok [OF ch(1) ne']
  let ?w = "wl_next ?g w'"
  have qs: "set (wl_vertices ?w) \<subseteq> set (wl_vertices w')"
    using nx(3) nx(4) by (cases "wl_end ?w") auto
  have cur: "wl_cur ?w < g_count ?g \<and> wl_cur ?w \<notin> {g_entry ?g, g_exit ?g}" if "\<not> wl_end ?w"
  proof -
    have "wl_cur ?w \<in> set (wl_vertices w') - {g_exit ?g}" using nx(4) [OF that] by blast
    moreover have "set (wl_vertices w') \<subseteq> {..<g_count ?g}" using ch(1) by (simp add: driver_ok_def)
    ultimately show ?thesis using entry by auto
  qed
  have "wl_store ?w f = Some (m_init man)" if f: "f \<in> set (succs ?g (g_entry ?g))" for f
  proof -
    have "sourceOf ?g f = g_entry ?g" using g f by (auto simp: graph_ok_def)
    then have "f \<notin> set (succs ?g (wl_cur w))" using g o(6,7) by (auto simp: graph_ok_def)
    then show ?thesis using loc(2) o(8) f nx(2) by simp
  qed
  then show ?thesis
    using p(1-3) manager_mono [OF o(2) p(1)] nx(1,2) qs entry cur by (auto simp: run_ok_def)
qed

lemma run_ok_start:
  assumes i: "wl_init (man_domain E man) (c_graph c) ord = Some w0" and reg: "register_graph c"
    and man: "manager_in (an_gen an) man" and hs: "headers_in (an_gen an) hs"
  shows "run_ok man c (w0, hs, an)"
proof -
  let ?g = "c_graph c"
  have g: "graph_ok ?g" using reg by (simp add: register_graph_def)
  note io = init_ok [OF g i]
  let ?st = "es_set_vertex ?g (g_entry ?g) (m_init man) Map.empty"
  let ?w = "\<lparr>wl_vertices = [], wl_set = replicate (g_count ?g) False, wl_cur = 0, wl_end = False, wl_store = ?st\<rparr>"
  obtain w1 where w1: "foldM (\<lambda>e. wl_push ord (sinkOf ?g e)) (succs ?g (g_entry ?g)) ?w = Some w1" "w0 = wl_next ?g w1"
    using i by (auto simp: wl_init_def bindE man_domain_def Let_def)
  let ?I = "\<lambda>w. driver_ok ?g w \<and> \<not> wl_end w \<and> wl_store w = ?st \<and> g_entry ?g \<notin> set (wl_vertices w)"
  have "?I w1"
    using w1(1)
  proof (rule foldM_invariant)
    show "?I ?w" by (simp add: driver_ok_def)
    fix e w w'
    assume e: "e \<in> set (succs ?g (g_entry ?g))" and w: "?I w" and p: "wl_push ord (sinkOf ?g e) w = Some w'"
    have "e < length (g_edges ?g)" using e g by (auto simp: graph_ok_def)
    then have "sinkOf ?g e < g_count ?g" "sinkOf ?g e \<noteq> g_entry ?g" using g not_entry [OF reg] by (simp_all add: graph_ok_def)
    then show "?I w'" using wl_push_ok [OF _ _ p, of ?g] w by auto
  qed
  then have I: "driver_ok ?g w1" "\<not> wl_end w1" "wl_store w1 = ?st" "g_entry ?g \<notin> set (wl_vertices w1)" by blast+
  note nx = wl_next_ok [OF I(1,2)]
  have qs: "set (wl_vertices w0) \<subseteq> set (wl_vertices w1)" using nx(3,4) w1(2) by (cases "wl_end w0") auto
  have cur: "wl_cur w0 \<noteq> g_entry ?g" if "\<not> wl_end w0" using nx(4) that w1(2) I(4) by auto
  have fold: "fold (\<lambda>e. es_set e s) es m f = (if f \<in> set es then Some s else m f)" for s :: "'p domain" and es m f
    by (induction es arbitrary: m) (auto simp: es_set_def)
  have st: "wl_store w0 = ?st" using nx(2) w1(2) I(3) by simp
  have "store_in (an_gen an) (wl_store w0)"
    unfolding st store_in_def es_set_vertex_def fold using man by (simp add: manager_in_def)
  moreover have "\<forall>f \<in> set (succs ?g (g_entry ?g)). wl_store w0 f = Some (m_init man)"
    unfolding st es_set_vertex_def fold by simp
  ultimately show ?thesis using man hs io(1,3) qs cur I(4) by (auto simp: run_ok_def)
qed

lemma manager_plain: "plain E gen (m_init man) \<Longrightarrow> \<not> hasFilter (m_init man) \<Longrightarrow> m_bot man = dom_bottom E \<Longrightarrow> manager_in gen man"
  using bottom_settled by (simp add: manager_in_def settled_in_def isBottom_def dom_bottom_def)

lemma run_sound:
  assumes i: "wl_init (man_domain E man) (c_graph (cfgs ! k)) ord = Some w0" and reg: "register_graph (cfgs ! k)"
    and man: "manager_in (an_gen an) man" and hs: "headers_in (an_gen an) hs"
    and run: "run_driver rounds (c_graph (cfgs ! k)) (processBB E man call cfgs k ord) (w0, hs, an) = Some (w, hs', an')"
    and clean: "run_checked (clean E man k (cfgs ! k)) rounds (c_graph (cfgs ! k)) (processBB E man call cfgs k ord) (w0, hs, an)"
    and start: "\<And>\<rho>. start \<rho> \<Longrightarrow> covers E {} (m_init man) \<rho>" and r: "reach start (cfgs ! k) e \<rho>"
  shows "covers E (back_of (cfgs ! k) e) (es_get (man_domain E man) (wl_store w) e) \<rho>"
proof -
  let ?c = "cfgs ! k" and ?g = "c_graph (cfgs ! k)" and ?step = "processBB E man call cfgs k ord" and ?get = "es_get (man_domain E man)"
  let ?guard = "\<lambda>x. run_ok man ?c x \<and> clean E man k ?c x \<and> \<not> wl_end (fst x)"
  have g: "graph_ok ?g" using reg by (simp add: register_graph_def)
  have keep: "run_ok man ?c (wl_next ?g w', r')" if "run_ok man ?c (w, r)" "\<not> wl_end w" "clean E man k ?c (w, r)" "?step (w, r) = Some (w', r')" for w r w' r'
    using run_ok_step [of man cfgs k w "fst r" "snd r" call ord w' "fst r'" "snd r'"] that reg by simp
  have rr: "run_driver rounds ?g (\<lambda>x. if ?guard x then ?step x else None) (w0, hs, an) = Some (w, hs', an')" "run_ok man ?c (w, hs', an')"
    by (rule run_restrict [where I = "run_ok man ?c", OF run clean run_ok_start [OF i reg man hs]], erule (3) keep)+
  have bs: "block_step ?g ord (\<lambda>x. if ?guard x then ?step x else None)"
  proof
    fix w r w' r'
    assume "graph_ok ?g" "wl_cur w < g_count ?g" "(if ?guard (w, r) then ?step (w, r) else None) = Some (w', r')"
    then show "changes ?g ord w w' \<and> (\<forall>e. e \<notin> set (succs ?g (wl_cur w)) \<longrightarrow> wl_store w' e = wl_store w e)"
      using pbb.step_changes [of cfgs k w E man call ord r w' r'] by (auto split: if_splits)
  qed
  show ?thesis
    using r
  proof (induction rule: reach.induct)
    case (enter f \<rho>)
    have "f < length (g_edges ?g)" using enter(1) g by (auto simp: graph_ok_def)
    moreover have "wl_store w f = Some (m_init man)" using rr(2) enter(1) by (simp add: run_ok_def)
    ultimately show ?case using covers_weaken [OF start [OF enter(2)]] by (simp add: es_get_def)
  next
    case (block e \<rho> v \<rho>1 f)
    have e: "e < length (g_edges ?g)" by (rule reach_edge [OF block(1) g])
    have v: "v < g_count ?g" "e \<in> set (preds ?g v)" using e g block(2) by (auto simp: graph_ok_def)
    have ne: "wl_store w e \<noteq> None"
    proof
      assume "wl_store w e = None"
      then have "?get (wl_store w) e = m_bot man" by (simp add: es_get_def domain_bot)
      moreover have "dom_ok E (an_gen an) (m_bot man)" "isBottom E (m_bot man)" using man by (simp_all add: manager_in_def settled_in_def plain_def)
      ultimately show False using block.IH bottom_covers by simp
    qed
    have "\<exists>w1 r1 w2 r2. (if ?guard (w1, r1) then ?step (w1, r1) else None) = Some (w2, r2) \<and> wl_cur w1 = v \<and>
      (\<forall>e \<in> set (preds ?g v). wl_store w1 e = wl_store w e) \<and> (\<forall>e \<in> set (succs ?g v). wl_store w2 e = wl_store w e)"
      by (rule block_step.run_fixpoint [OF bs g i rr(1) v(1) block(3) v(2) ne]) blast
    then obtain w1 r1 w2 r2 where s: "(if ?guard (w1, r1) then ?step (w1, r1) else None) = Some (w2, r2)" "wl_cur w1 = v"
      "\<And>e. e \<in> set (preds ?g v) \<Longrightarrow> wl_store w1 e = wl_store w e" "\<And>e. e \<in> set (succs ?g v) \<Longrightarrow> wl_store w2 e = wl_store w e"
      by blast
    obtain hs1 an1 hs2 an2 where r: "r1 = (hs1, an1)" "r2 = (hs2, an2)" by (cases r1, cases r2)
    have q: "run_ok man ?c (w1, hs1, an1)" "clean E man k ?c (w1, hs1, an1)" "\<not> wl_end w1" "?step (w1, hs1, an1) = Some (w2, hs2, an2)"
      using s(1) r by (auto split: if_splits)
    have o: "store_in (an_gen an1) (wl_store w1)" "manager_in (an_gen an1) man" "headers_in (an_gen an1) hs1"
      "wl_cur w1 < g_count ?g" "wl_cur w1 \<notin> {g_entry ?g, g_exit ?g}" using q(1,3) by (simp_all add: run_ok_def)
    have "?get (wl_store w1) e = ?get (wl_store w) e" "?get (wl_store w2) f = ?get (wl_store w) f"
      using s(3) [OF v(2)] s(4) [OF block(6)] by (simp_all add: es_get_def)
    then show ?case
      using processBB_sound(4) [OF q(4) refl reg o(4,5) q(2) o(1-3), of e \<rho> \<rho>1 f] block s(2) v(2) by simp
  qed
qed

end

subsection \<open>The graph of the program\<close>

text \<open>The check, on the run that \<open>processCFG\<close> makes for the root graph.\<close>

definition cfg_checked ::
  "nat \<Rightarrow> nat \<Rightarrow> 'p env \<Rightarrow> cfg list \<Rightarrow> topo list \<Rightarrow> nat \<Rightarrow> 'p domain \<Rightarrow> 'p analysis \<Rightarrow> bool" where
  "cfg_checked depth rounds E cfgs orders k s an =
     (case do { (s, gen) \<leftarrow> doEnterFunction E s (an_gen an); manager_new E gen } of None \<Rightarrow> True
      | Some (man, gen) \<Rightarrow>
         (let g = c_graph (cfgs ! k); ord = Some (isBefore (orders ! k)) in
          case wl_init (man_domain E man) g ord of None \<Rightarrow> True
          | Some w \<Rightarrow> run_checked (clean E man k (cfgs ! k)) rounds g
              (processBB E man (\<lambda>sub. processCFG depth rounds E cfgs orders sub False False) cfgs k ord)
              (w, ht_new default_size, an\<lparr>an_gen := gen\<rparr>)))"

context poly_env
begin

lemma headers_new: "headers_in gen (ht_new default_size)"
  by (simp add: headers_in_def hint.find_new [OF default_size_ok] ht_ok_new [OF default_size_ok])

lemma graph_sound:
  assumes reg: "register_graph (cfgs ! k)"
    and run: "processCFG (Suc depth) rounds E cfgs orders k True False s an = Some (s', an')"
    and checked: "cfg_checked depth rounds E cfgs orders k s an"
    and e: "first_in (c_graph (cfgs ! k)) (g_exit (c_graph (cfgs ! k))) = Some e"
    and r: "reach machine_start (cfgs ! k) e \<rho>"
  shows "covers E (back_of (cfgs ! k) e) s' \<rho>"
proof -
  let ?c = "cfgs ! k" and ?ord = "Some (isBefore (orders ! k))"
  let ?step = "\<lambda>man. processBB E man (\<lambda>sub. processCFG depth rounds E cfgs orders sub False False) cfgs k ?ord"
  obtain s1 gen1 man gen w0 w hs where en: "doEnterFunction E s (an_gen an) = Some (s1, gen1)" and m: "manager_new E gen1 = Some (man, gen)"
    and i: "wl_init (man_domain E man) (c_graph ?c) ?ord = Some w0"
    and d: "run_driver rounds (c_graph ?c) (?step man) (w0, ht_new default_size, an\<lparr>an_gen := gen\<rparr>) = Some (w, hs, an')"
    and s': "s' = es_get (man_domain E man) (wl_store w) e"
    using run e by (auto simp: bindE Let_def)
  have chk: "run_checked (clean E man k ?c) rounds (c_graph ?c) (?step man) (w0, ht_new default_size, an\<lparr>an_gen := gen\<rparr>)"
    using checked en m i by (simp add: cfg_checked_def Let_def)
  note mn = manager_new_ok [OF m]
  have pre: "manager_in (an_gen (an\<lparr>an_gen := gen\<rparr>)) man" "headers_in (an_gen (an\<lparr>an_gen := gen\<rparr>)) (ht_new default_size)"
    using mn(1) headers_new by simp_all
  show ?thesis unfolding s' by (rule run_sound [OF i reg pre d chk mn(2) r])
qed

end

end
