(* ===== verification/Sound_Samples.thy ===== *)
theory Sound_Samples
  imports Program_Samples Program_Sound
begin

text \<open>The straight graph, analysed as a program, and one of its executions.\<close>

definition main_new :: "ident \<Rightarrow> guid \<Rightarrow> clist domain \<Rightarrow> clist domain" where
  "main_new i g s = fst (snd (the (varNew i NO_STEP False s g)))"

definition main_regs :: "clist domain" where
  "main_regs = main_new (Reg 14) 5 (main_new (Reg 11) 4 (main_new (Reg 13) 3 (dom_top sample_env None)))"

definition main_vars :: "clist domain" where
  "main_vars = main_new (special ID_START_LR) 8 (main_new (special ID_START_FP) 7 (main_new (special ID_START_SP) 6 main_regs))"

definition main_state :: "clist domain" where
  "main_state = fold (doNewConstraint sample_env)
     [w_eq (V 6) (V 3), w_eq (V 7) (V 4), w_eq (V 8) (V 5),
      w_ge (V 6) (K STACK_TOP), w_ge (V 7) (K STACK_TOP),
      w_le (V 6) (K (STACK_TOP + 0x1000000)), w_le (V 7) (K (STACK_TOP + 0x1000000))] main_vars"

definition main_man :: "clist manager" where
  "main_man = \<lparr>m_init = main_state, m_bot = dom_bottom sample_env, m_top = dom_top sample_env None\<rparr>"

lemma main_new: "im_find1 (d_idmap s) i = None \<Longrightarrow> id_type i \<noteq> ID_MEM_ADDR \<Longrightarrow>
    varNew i NO_STEP False s g = Some (g, main_new i g s, g + 1)"
  by (simp add: main_new_def varNew_def)

lemma main_manager: "manager_new sample_env 3 = Some (main_man, 9)"
proof -
  let ?a = "main_new (Reg 13) 3 (dom_top sample_env None)" and ?b = "main_new (special ID_START_SP) 6 main_regs"
  have free: "im_find1 (d_idmap (dom_top sample_env None)) (Reg 13) = None" "im_find1 (d_idmap ?a) (Reg 11) = None"
    "im_find1 (d_idmap (main_new (Reg 11) 4 ?a)) (Reg 14) = None" "im_find1 (d_idmap main_regs) (special ID_START_SP) = None"
    "im_find1 (d_idmap ?b) (special ID_START_FP) = None"
    "im_find1 (d_idmap (main_new (special ID_START_FP) 7 ?b)) (special ID_START_LR) = None"
    by code_simp+
  have t: "id_type (special k) \<noteq> ID_MEM_ADDR" for k by (simp add: special_def)
  show ?thesis
    using main_new [OF free(1)] main_new [OF free(2)] main_new [OF free(3)] main_new [OF free(4) t] main_new [OF free(5) t]
      main_new [OF free(6) t]
    by (simp add: manager_new_def manager_init_def Let_def main_man_def main_state_def main_vars_def main_regs_def)
qed

lemma main_enter: "\<exists>s. doEnterFunction sample_env (dom_bottom sample_env) 0 = Some (s, 3)"
proof -
  have "map_option snd (doEnterFunction sample_env (dom_bottom sample_env) 0) = Some 3" by code_simp
  then show ?thesis by auto
qed

text \<open>The run; a single block waits at a time, so that the order is never asked.\<close>

definition main_start :: "(nat \<Rightarrow> nat \<Rightarrow> bool option) \<Rightarrow> clist domain driver" where
  "main_start p = the (wl_init (man_domain sample_env main_man) straight_graph (Some p))"

definition main_end :: "(nat \<Rightarrow> nat \<Rightarrow> bool option) \<Rightarrow> clist work" where
  "main_end p = the (run_driver 1 straight_graph (processBB sample_env main_man (\<lambda>_ _ _. None) [straight_cfg] 0 (Some p))
     (main_start p, ht_new default_size, sample_analysis 9))"

lemma main_init: "wl_init (man_domain sample_env main_man) straight_graph (Some p) = Some (main_start p)"
proof -
  have "wl_init (man_domain sample_env main_man) straight_graph (Some p) \<noteq> None" by code_simp
  then show ?thesis by (auto simp: main_start_def)
qed

lemma main_run:
  "run_driver 1 straight_graph (processBB sample_env main_man (\<lambda>_ _ _. None) [straight_cfg] 0 (Some p))
     (main_start p, ht_new default_size, sample_analysis 9) = Some (main_end p)"
proof -
  have "run_driver 1 straight_graph (processBB sample_env main_man (\<lambda>_ _ _. None) [straight_cfg] 0 (Some p))
     (main_start p, ht_new default_size, sample_analysis 9) \<noteq> None" by code_simp
  then show ?thesis by (auto simp: main_end_def)
qed

lemma main_clean_step: "clean sample_env main_man 0 straight_cfg (main_start p, ht_new default_size, sample_analysis 9)"
  by code_simp

lemma main_clean:
  "run_checked (clean sample_env main_man 0 straight_cfg) 1 straight_graph
     (processBB sample_env main_man (\<lambda>_ _ _. None) [straight_cfg] 0 (Some p))
     (main_start p, ht_new default_size, sample_analysis 9)"
  using main_clean_step [of p] by (simp split: option.split prod.split)

definition main_orders :: "topo list" where
  "main_orders = [the (getPseudoTopo straight_graph no_loops)]"

definition main_result :: "clist domain" where
  "main_result = es_get (man_domain sample_env main_man) (wl_store (fst (main_end (isBefore (hd main_orders))))) 1"

lemma no_calls: "(\<lambda>sub. processCFG 0 rounds E cfgs orders sub False False) = (\<lambda>_ _ _. None)"
  by (intro ext) simp

lemma sample_gen: "an_gen (sample_analysis g) = g" "sample_analysis g\<lparr>an_gen := g'\<rparr> = sample_analysis g'"
  by (simp_all add: sample_analysis_def analysis_start_def)

lemma straight_parts: "c_graph straight_cfg = straight_graph" "first_in straight_graph (g_exit straight_graph) = Some 1"
  "back_of straight_cfg 1 = {}"
  by (simp_all add: straight_cfg_def straight_graph_def first_in_def preds_def back_of_def is_back_def no_loops_def)

lemma main_processed:
  "processCFG (Suc 0) 1 sample_env [straight_cfg] main_orders 0 True False (dom_bottom sample_env) (sample_analysis 0) =
     Some (main_result, snd (snd (main_end (isBefore (hd main_orders)))))"
proof -
  obtain s where en: "doEnterFunction sample_env (dom_bottom sample_env) 0 = Some (s, 3)" using main_enter by blast
  have ord: "main_orders ! 0 = hd main_orders" by (simp add: main_orders_def)
  obtain w hs an where r: "main_end (isBefore (hd main_orders)) = (w, hs, an)" by (cases "main_end (isBefore (hd main_orders))")
  show ?thesis
    using main_run [of "isBefore (hd main_orders)"]
    by (simp add: sample_gen en main_manager straight_parts main_init ord no_calls main_result_def r del: run_driver.simps One_nat_def)
qed

lemma main_checked: "cfg_checked 0 1 sample_env [straight_cfg] main_orders 0 (dom_bottom sample_env) (sample_analysis 0)"
proof -
  obtain s where en: "doEnterFunction sample_env (dom_bottom sample_env) 0 = Some (s, 3)" using main_enter by blast
  have ord: "main_orders ! 0 = hd main_orders" by (simp add: main_orders_def)
  show ?thesis
    using main_clean [of "isBefore (hd main_orders)"]
    by (simp add: cfg_checked_def sample_gen en main_manager straight_parts main_init ord no_calls Let_def
        del: run_checked.simps One_nat_def)
qed

lemma straight_register: "register_graph straight_cfg"
proof -
  have "0 \<le> c_offset straight_cfg \<and> list_all (\<lambda>e. snd e \<noteq> g_entry straight_graph) (g_edges straight_graph) \<and>
     list_all (\<lambda>v. distinct (succs straight_graph v) \<and>
       (v \<notin> {g_entry straight_graph, g_exit straight_graph} \<longrightarrow> register_block (c_blocks straight_cfg ! v))) [0..<g_count straight_graph] \<and>
     list_all (\<lambda>e. case li_exit (c_loops straight_cfg) e of None \<Rightarrow> True | Some h \<Rightarrow> block_id straight_cfg h \<notin> back_of straight_cfg e)
       [0..<length (g_edges straight_graph)]" by code_simp
  then show ?thesis using straight_graph_ok by (simp only: register_graph_def straight_parts)
qed

text \<open>The execution that leaves 3 and 6 in the registers.\<close>

definition main_first :: mstate where
  "main_first = (\<lambda>i. if i \<in> {Reg 13, Reg 11, special ID_START_SP, special ID_START_FP} then STACK_TOP else 0)"

definition main_last :: mstate where
  "main_last = main_first(Reg 5 := 3, Reg 6 := 6)"

lemma main_steps: "sem_steps [sample_inst SETI 5 0 3, sample_inst ADD 6 5 5] main_first main_last"
proof -
  have 1: "inst_step (sample_inst SETI 5 0 3) main_first (main_first(Reg 5 := 3))"
    by (simp add: inst_step_def int_value_def sample_inst_def)
  have 2: "inst_step (sample_inst ADD 6 5 5) (main_first(Reg 5 := 3)) main_last"
    by (simp add: inst_step_def int_value_def sample_inst_def main_last_def)
  show ?thesis by (rule sem_steps.cons [OF 1 sem_steps.cons [OF 2 sem_steps.nil]])
qed

lemma main_first_start: "machine_start main_first"
  by (simp add: machine_start_def stack_start_def lift_def main_first_def special_def ID_START_SP_def ID_START_FP_def ID_START_LR_def
      STACK_TOP_def)

lemma main_reach: "start main_first \<Longrightarrow> reach start straight_cfg 1 main_last"
proof -
  assume s: "start main_first"
  have e: "reach start straight_cfg 0 main_first"
    by (rule reach.enter [where start = start, OF _ s]) (simp add: straight_parts straight_graph_def succs_def)
  have code: "block_code straight_cfg 2 = [sample_inst SETI 5 0 3, sample_inst ADD 6 5 5]"
    by (simp add: block_code_def straight_cfg_def)
  have "reach start straight_cfg 1 (loop_move straight_cfg 1 main_last)"
    by (rule reach.block [OF e, of 2 main_last])
      (use main_steps in \<open>simp_all add: straight_parts straight_graph_def succs_def sinkOf_def code edge_taken_def branch_of_def
        sample_inst_def\<close>)
  then show ?thesis by (simp add: loop_move_def is_back_def straight_cfg_def no_loops_def)
qed

text \<open>The block of this execution on its own, from any state.\<close>

definition block_insts :: "sem_inst list list" where
  "block_insts = [[sample_inst SETI 5 0 3], [sample_inst ADD 6 5 5]]"

definition block_result :: "clist domain" where
  "block_result = fst (the (process_basic sample_env block_insts (replicate 16 True) (dom_top sample_env None) (sample_analysis 0)))"

definition block_analysis :: "clist analysis" where
  "block_analysis = snd (the (process_basic sample_env block_insts (replicate 16 True) (dom_top sample_env None) (sample_analysis 0)))"

lemma block_processed:
  "process_basic sample_env block_insts (replicate 16 True) (dom_top sample_env None) (sample_analysis 0) = Some (block_result, block_analysis)"
proof -
  have "process_basic sample_env block_insts (replicate 16 True) (dom_top sample_env None) (sample_analysis 0) \<noteq> None" by code_simp
  then show ?thesis by (auto simp: block_result_def block_analysis_def)
qed

end
