(* ===== verification/Memory_Cells.thy ===== *)
theory Memory_Cells
  imports Block_Sound
begin

text \<open>
  Memory locations that hold one cell each. A location \<open>k\<close> has an identifier for its address,
  one for its value and one for the number of its cells, and \<open>cells\<close> says that the memory has
  the value of \<open>k\<close> at the address of \<open>k\<close>. Memory is a function from addresses to values: cells
  are of one size and do not overlap partially, as in the analysis. The lemmas give the effect
  of creating, replacing and merging locations on the states that a domain stands for.
\<close>

abbreviation Adr :: "int \<Rightarrow> ident" where "Adr k \<equiv> Ident k ID_MEM_ADDR"
abbreviation Val :: "int \<Rightarrow> ident" where "Val k \<equiv> Ident k ID_MEM_VAL"
abbreviation Cnt :: "int \<Rightarrow> ident" where "Cnt k \<equiv> Ident k ID_MEM_COUNT"

type_synonym memory = "int \<Rightarrow> int"

text \<open>\<open>scalar_mem\<close>: the locations are complete, numbered below the counter, and have no step.\<close>

definition cell_ids :: "int \<Rightarrow> ident list" where
  "cell_ids k = [Adr k, Val k, Cnt k]"

definition scalar_ident :: "'p domain \<Rightarrow> ident \<times> idval \<Rightarrow> bool" where
  "scalar_ident d = (\<lambda>(i, iv). id_type i \<in> set mem_types \<longrightarrow>
     id_num i < d_mem_ref d \<and> i \<in> set (cell_ids (id_num i)) \<and>
     (id_type i = ID_MEM_ADDR \<longrightarrow> iv_s iv = STEP_BOT) \<and> list_all (hasIdent d) (cell_ids (id_num i)))"

definition scalar_mem :: "'p domain \<Rightarrow> bool" where
  "scalar_mem d \<longleftrightarrow> (\<forall>i iv. im_find1 (d_idmap d) i = Some iv \<longrightarrow> scalar_ident d (i, iv))"

text \<open>Location \<open>k\<close> is a cell of the memory \<open>W k\<close>.\<close>

definition cells :: "'p domain \<Rightarrow> (int \<Rightarrow> memory) \<Rightarrow> mstate \<Rightarrow> bool" where
  "cells d W \<rho> \<longleftrightarrow> (\<forall>k. hasIdent d (Adr k) \<longrightarrow> \<rho> (Cnt k) = 1 \<and> W k (\<rho> (Adr k)) = \<rho> (Val k))"

lemma cellsD: "cells d W \<rho> \<Longrightarrow> hasIdent d (Adr k) \<Longrightarrow> \<rho> (Cnt k) = 1 \<and> W k (\<rho> (Adr k)) = \<rho> (Val k)"
  by (simp add: cells_def)

lemma scalar_mem_eval:
  "im_ok (d_idmap d) \<Longrightarrow> scalar_mem d \<longleftrightarrow> list_all (scalar_ident d) (im_pairs (d_idmap d))"
  by (auto simp: scalar_mem_def list_all_iff im_pairs_iff)

lemma scalar_memD:
  assumes "scalar_mem d" and "im_find1 (d_idmap d) (Ident k t) = Some iv" and "t \<in> set mem_types"
  shows "k < d_mem_ref d" and "Ident k t \<in> set (cell_ids k)" and "t = ID_MEM_ADDR \<Longrightarrow> iv_s iv = STEP_BOT"
    and "j \<in> set (cell_ids k) \<Longrightarrow> hasIdent d j"
  using assms unfolding scalar_mem_def scalar_ident_def by (force simp: list_all_iff)+

lemma scalar_cell:
  assumes "scalar_mem d" and "hasIdent d (Adr k)"
  obtains a b c where "im_find1 (d_idmap d) (Adr k) = Some (idval_t a STEP_BOT)"
    and "im_find1 (d_idmap d) (Val k) = Some b" and "im_find1 (d_idmap d) (Cnt k) = Some c" and "k < d_mem_ref d"
proof -
  obtain iv where iv: "im_find1 (d_idmap d) (Adr k) = Some iv" using assms(2) by (auto simp: hasIdent_iff)
  note s = scalar_memD [OF assms(1) iv]
  have "hasIdent d (Val k)" "hasIdent d (Cnt k)" using s(4) by (simp_all add: mem_types_def cell_ids_def)
  then obtain b c where "im_find1 (d_idmap d) (Val k) = Some b" "im_find1 (d_idmap d) (Cnt k) = Some c"
    by (auto simp: hasIdent_iff)
  moreover have "iv = idval_t (iv_g iv) STEP_BOT" using s(3) by (cases iv) (simp add: mem_types_def)
  ultimately show thesis using that iv s(1) by (simp add: mem_types_def)
qed

lemma scalar_fresh: "scalar_mem d \<Longrightarrow> d_mem_ref d \<le> k \<Longrightarrow> t \<in> set mem_types \<Longrightarrow> \<not> hasIdent d (Ident k t)"
  using scalar_memD(1) [of d k t] by (fastforce simp: hasIdent_iff)

lemma mem_type_simps [simp]:
  "ID_MEM_ADDR \<in> set mem_types" "ID_MEM_VAL \<in> set mem_types" "ID_MEM_COUNT \<in> set mem_types"
  "ID_REG \<notin> set mem_types" "ID_LOOP \<notin> set mem_types"
  by (simp_all add: mem_types_def)

subsection \<open>Mappings with one cell more or less\<close>

definition cell_added :: "int \<Rightarrow> guid \<Rightarrow> int \<Rightarrow> (ident \<Rightarrow> idval option) \<Rightarrow> ident \<Rightarrow> idval option" where
  "cell_added n gen step f = f(Adr n \<mapsto> idval_t gen step, Val n \<mapsto> idval_t (gen + 1) NO_STEP, Cnt n \<mapsto> idval_t (gen + 2) NO_STEP)"

definition cell_removed :: "int \<Rightarrow> (ident \<Rightarrow> idval option) \<Rightarrow> ident \<Rightarrow> idval option" where
  "cell_removed k f = f(Adr k := None, Cnt k := None, Val k := None)"

lemma scalar_added:
  assumes "scalar_mem d" and f: "im_find1 (d_idmap d') = cell_added n gen STEP_BOT (im_find1 (d_idmap d))"
    and n: "n = d_mem_ref d" and "d_mem_ref d' = n + 1"
  shows "scalar_mem d'"
  unfolding scalar_mem_def
proof (intro allI impI)
  fix i iv
  assume iv: "im_find1 (d_idmap d') i = Some iv"
  have more: "hasIdent d j \<Longrightarrow> hasIdent d' j" for j unfolding hasIdent_iff f cell_added_def by auto
  show "scalar_ident d' (i, iv)"
  proof (cases "i \<in> set (cell_ids n)")
    case True
    then show ?thesis using iv assms(4)
      by (auto simp: scalar_ident_def cell_ids_def f cell_added_def hasIdent_iff list_all_iff split: if_splits)
  next
    case False
    then have "im_find1 (d_idmap d) i = Some iv" using iv by (auto simp: f cell_added_def cell_ids_def)
    then have "scalar_ident d (i, iv)" using assms(1) by (simp add: scalar_mem_def)
    then show ?thesis using more assms(4) n by (auto simp: scalar_ident_def list_all_iff)
  qed
qed

lemma scalar_removed:
  assumes "scalar_mem d" and f: "im_find1 (d_idmap d') = cell_removed k (im_find1 (d_idmap d))"
    and "d_mem_ref d' = d_mem_ref d"
  shows "scalar_mem d'"
  unfolding scalar_mem_def
proof (intro allI impI)
  fix i iv
  assume iv: "im_find1 (d_idmap d') i = Some iv"
  have ne: "i \<notin> set (cell_ids k)" and "im_find1 (d_idmap d) i = Some iv"
    using iv by (auto simp: f cell_removed_def cell_ids_def split: if_splits)
  then have s: "scalar_ident d (i, iv)" using assms(1) by (simp add: scalar_mem_def)
  have "hasIdent d' j" if "id_type i \<in> set mem_types" "hasIdent d j" "j \<in> set (cell_ids (id_num i))" for j
  proof -
    have "id_num i \<noteq> k" using s ne that(1) by (auto simp: scalar_ident_def)
    then have "j \<notin> set (cell_ids k)" using that(3) by (auto simp: cell_ids_def)
    then show ?thesis using that(2) by (auto simp: hasIdent_iff f cell_removed_def cell_ids_def)
  qed
  then show "scalar_ident d' (i, iv)" using s assms(3) by (auto simp: scalar_ident_def list_all_iff)
qed

lemma scalar_same:
  assumes "scalar_mem d" and "\<And>i. hasIdent d i \<Longrightarrow> hasIdent d' i"
    and "\<And>i iv. im_find1 (d_idmap d') i = Some iv \<Longrightarrow> id_type i \<in> set mem_types \<Longrightarrow> im_find1 (d_idmap d) i = Some iv"
    and "d_mem_ref d' = d_mem_ref d"
  shows "scalar_mem d'"
  using assms unfolding scalar_mem_def scalar_ident_def by (fastforce simp: list_all_iff)

lemma scalar_cong:
  assumes "im_find1 (d_idmap d') = im_find1 (d_idmap d)" and "d_mem_ref d' = d_mem_ref d"
  shows "scalar_mem d' = scalar_mem d"
proof -
  have "hasIdent d' = hasIdent d" by (rule ext) (simp only: hasIdent_iff assms(1))
  then show ?thesis by (simp add: scalar_mem_def scalar_ident_def assms)
qed

lemma cells_added:
  assumes "cells d W \<rho>" and sc: "scalar_mem d" and f: "im_find1 (d_idmap d') = cell_added n gen s (im_find1 (d_idmap d))"
    and n: "n = d_mem_ref d" and "W n a = b" and "c = 1"
  shows "cells d' W (\<rho>(Adr n := a, Val n := b, Cnt n := c))"
  unfolding cells_def
proof (intro allI impI)
  fix k
  assume h: "hasIdent d' (Adr k)"
  let ?\<rho> = "\<rho>(Adr n := a, Val n := b, Cnt n := c)"
  show "?\<rho> (Cnt k) = 1 \<and> W k (?\<rho> (Adr k)) = ?\<rho> (Val k)"
  proof (cases "k = n")
    case True
    then show ?thesis using assms(5,6) by simp
  next
    case False
    then have "hasIdent d (Adr k)" using h by (auto simp: hasIdent_iff f cell_added_def)
    then show ?thesis using cellsD [OF assms(1)] False by simp
  qed
qed

subsection \<open>Binding an identifier to a fresh variable\<close>

text \<open>
  \<open>binds\<close>: \<open>d1\<close> is \<open>d\<close> with the identifier \<open>i\<close> bound to the variable \<open>gen\<close>, whose value is
  \<open>F\<close> of those of the others.
\<close>

definition binds ::
  "'p env \<Rightarrow> guid \<Rightarrow> 'p domain \<Rightarrow> ident \<Rightarrow> int \<Rightarrow> (valuation \<Rightarrow> rat) \<Rightarrow> 'p domain \<Rightarrow> bool" where
  "binds E gen d i step F d1 \<longleftrightarrow> dom_ok E (gen + 1) d1 \<and>
     im_find1 (d_idmap d1) = (im_find1 (d_idmap d))(i \<mapsto> idval_t gen step) \<and>
     d_mem_ref d1 = d_mem_ref d \<and> same_frame d d1 \<and>
     (\<forall>v \<rho>. models E d v \<rho> \<longrightarrow> models E d1 (v(gen := F v)) (\<rho>(i := F v)))"

lemma bindsD:
  assumes "binds E gen d i step F d1"
  shows "dom_ok E (gen + 1) d1" and "im_find1 (d_idmap d1) = (im_find1 (d_idmap d))(i \<mapsto> idval_t gen step)"
    and "d_mem_ref d1 = d_mem_ref d" and "same_frame d d1"
    and "models E d v \<rho> \<Longrightarrow> models E d1 (v(gen := F v)) (\<rho>(i := F v))"
  using assms by (simp_all add: binds_def)

lemma mem_ref_simps [simp]:
  "d_mem_ref (doNewConstraint E c d) = d_mem_ref d"
  by (simp add: doNewConstraint_def)

lemma varNew_mem_ref: "varNew i step r d gen = Some (v, d', gen') \<Longrightarrow> d_mem_ref d' = d_mem_ref d"
  by (auto simp: varNew_def bindE split: option.splits)

lemma varKill_rest:
  "varKill iv d = Some d' \<Longrightarrow> d_mem_ref d' = d_mem_ref d \<and> same_frame d d'"
  by (auto simp: varKill_def bindE same_frame_def)

lemma eval_new: "le_vars e \<subseteq> {..<gen} \<Longrightarrow> gen \<le> g \<Longrightarrow> le_eval (v(g := x)) e = le_eval v e"
  by (rule le_eval_cong) auto

context poly_env
begin

lemma binds_new:
  assumes ok: "dom_ok E gen d" and free: "\<not> hasIdent d i"
    and t: "if id_type i = ID_MEM_ADDR then step \<noteq> NO_STEP else step = NO_STEP"
    and c: "wc_vars c \<subseteq> {..<gen + 1}" "\<And>v. wc_sat (v(gen := F v)) c"
  obtains d0 where "varNew i step False d gen = Some (gen, d0, gen + 1)"
    and "binds E gen d i step F (doNewConstraint E c d0)"
proof -
  obtain d0 where d0: "varNew i step False d gen = Some (gen, d0, gen + 1)" "dom_ok E (gen + 1) d0"
    "im_find1 (d_idmap d0) = (im_find1 (d_idmap d))(i \<mapsto> idval_t gen step)" "d_poly d0 = d_poly d"
    by (rule varNew_ok [OF ok t, of False]) (use free in blast)+
  note con = constraint_ok [OF d0(2) c(1)]
  have fresh: "gen \<notin> wp_dom (d_poly d)" using dom_okD(3) [OF ok, of gen] by auto
  have ne: "iv_g iv \<noteq> gen" if "im_find1 (d_idmap d) j = Some iv" for j iv
    using dom_okD(5) [OF ok that] by simp
  have "models E (doNewConstraint E c d0) (v(gen := F v)) (\<rho>(i := F v))" if m: "models E d v \<rho>" for v \<rho>
  proof -
    have "models E d0 (v(gen := F v)) (\<rho>(i := F v))"
      using m d0(3,4) wsem_upd [OF fresh, of v "F v"] ne by (auto simp: models_def split: if_splits)
    then show ?thesis using con(2) c(2) by blast
  qed
  then have "binds E gen d i step F (doNewConstraint E c d0)"
    using con(1,3) d0(3) varNew_frame(1) [OF d0(1)] varNew_mem_ref [OF d0(1)] same_frame_trans [OF _ constraint_frame]
    by (auto simp: binds_def)
  then show thesis by (rule that [OF d0(1)])
qed

text \<open>The three identifiers of a new location.\<close>

definition cell_new ::
  "guid \<Rightarrow> int \<Rightarrow> 'p domain \<Rightarrow> (valuation \<Rightarrow> rat) \<Rightarrow> (valuation \<Rightarrow> rat) \<Rightarrow> (valuation \<Rightarrow> rat) \<Rightarrow> 'p domain \<Rightarrow> bool" where
  "cell_new gen step d A B C d' \<longleftrightarrow> dom_ok E (gen + 3) d' \<and>
     im_find1 (d_idmap d') = cell_added (d_mem_ref d) gen step (im_find1 (d_idmap d)) \<and>
     d_mem_ref d' = d_mem_ref d + 1 \<and> same_frame d d' \<and>
     (\<forall>v \<rho>. models E d v \<rho> \<longrightarrow> models E d' (v(gen := A v, gen + 1 := B v, gen + 2 := C v))
        (\<rho>(Adr (d_mem_ref d) := A v, Val (d_mem_ref d) := B v, Cnt (d_mem_ref d) := C v)))"

lemma cell_three:
  assumes ok: "dom_ok E gen d" and sc: "scalar_mem d" and step: "step \<noteq> NO_STEP"
    and a: "wc_vars ca \<subseteq> {..<gen + 1}" "\<And>v. wc_sat (v(gen := A v)) ca"
    and b: "le_ok eb" "le_vars eb \<subseteq> {..<gen}"
    and c: "le_ok ec" "le_vars ec \<subseteq> {..<gen}"
  obtains d1 d2 d3 where "varNew (Adr (d_mem_ref d)) step False (d\<lparr>d_mem_ref := d_mem_ref d + 1\<rparr>) gen = Some (gen, d1, gen + 1)"
    and "varNew (Val (d_mem_ref d)) NO_STEP False (doNewConstraint E ca d1) (gen + 1) = Some (gen + 1, d2, gen + 2)"
    and "varNew (Cnt (d_mem_ref d)) NO_STEP False (doNewConstraint E (w_eq (V (gen + 1)) eb) d2) (gen + 2) = Some (gen + 2, d3, gen + 3)"
    and "cell_new gen step d A (\<lambda>v. le_eval v eb) (\<lambda>v. le_eval v ec) (doNewConstraint E (w_eq (V (gen + 2)) ec) d3)"
proof -
  let ?n = "d_mem_ref d" and ?d = "d\<lparr>d_mem_ref := d_mem_ref d + 1\<rparr>"
  have ok0: "dom_ok E gen ?d" "models E ?d = models E d" "same_frame d ?d"
    using ok by (simp_all add: dom_ok_def models_def fun_eq_iff same_frame_def)
  have free: "\<not> hasIdent d (Ident ?n t)" if "t \<in> set mem_types" for t using scalar_fresh [OF sc _ that] by simp
  have f0: "\<not> hasIdent ?d (Adr ?n)" using free [of ID_MEM_ADDR] by (simp add: hasIdent_def)
  obtain d1 where d1: "varNew (Adr ?n) step False ?d gen = Some (gen, d1, gen + 1)"
    "binds E gen ?d (Adr ?n) step A (doNewConstraint E ca d1)"
    by (rule binds_new [OF ok0(1) f0 _ a]) (use step in auto)
  let ?d1 = "doNewConstraint E ca d1"
  note b1 = bindsD [OF d1(2)]
  have f1: "\<not> hasIdent ?d1 (Val ?n)" using free [of ID_MEM_VAL] unfolding hasIdent_iff b1(2) by simp
  have vb: "wc_vars (w_eq (V (gen + 1)) eb) \<subseteq> {..<gen + 1 + 1}" by (rule w_eq_vars) (use b in auto)
  have sb: "wc_sat (v(gen + 1 := le_eval v eb)) (w_eq (V (gen + 1)) eb)" for v
    using b eval_new [OF b(2), of "gen + 1"] by simp
  have okb: "dom_ok E (gen + 1) ?d1" by (rule b1(1))
  obtain d2 where d2: "varNew (Val ?n) NO_STEP False ?d1 (gen + 1) = Some (gen + 1, d2, gen + 1 + 1)"
    "binds E (gen + 1) ?d1 (Val ?n) NO_STEP (\<lambda>v. le_eval v eb) (doNewConstraint E (w_eq (V (gen + 1)) eb) d2)"
    by (rule binds_new [OF okb f1 _ vb sb]) auto
  let ?d2 = "doNewConstraint E (w_eq (V (gen + 1)) eb) d2"
  note b2 = bindsD [OF d2(2)]
  have f2: "\<not> hasIdent ?d2 (Cnt ?n)" using free [of ID_MEM_COUNT] unfolding hasIdent_iff b2(2) b1(2) by simp
  have okc: "dom_ok E (gen + 2) ?d2" using b2(1) by simp
  have vc: "wc_vars (w_eq (V (gen + 2)) ec) \<subseteq> {..<gen + 2 + 1}" by (rule w_eq_vars) (use c in auto)
  have scc: "wc_sat (v(gen + 2 := le_eval v ec)) (w_eq (V (gen + 2)) ec)" for v
    using c eval_new [OF c(2), of "gen + 2"] by simp
  obtain d3 where d3: "varNew (Cnt ?n) NO_STEP False ?d2 (gen + 2) = Some (gen + 2, d3, gen + 2 + 1)"
    "binds E (gen + 2) ?d2 (Cnt ?n) NO_STEP (\<lambda>v. le_eval v ec) (doNewConstraint E (w_eq (V (gen + 2)) ec) d3)"
    by (rule binds_new [OF okc f2 _ vc scc]) auto
  let ?d3 = "doNewConstraint E (w_eq (V (gen + 2)) ec) d3"
  note b3 = bindsD [OF d3(2)]
  have "models E ?d3 (v(gen := A v, gen + 1 := le_eval v eb, gen + 2 := le_eval v ec))
      (\<rho>(Adr ?n := A v, Val ?n := le_eval v eb, Cnt ?n := le_eval v ec))" if m: "models E d v \<rho>" for v \<rho>
  proof -
    let ?v1 = "v(gen := A v)"
    have "models E ?d1 ?v1 (\<rho>(Adr ?n := A v))" using b1(5) m ok0(2) by simp
    then have "models E ?d2 (?v1(gen + 1 := le_eval ?v1 eb)) (\<rho>(Adr ?n := A v, Val ?n := le_eval ?v1 eb))" by (rule b2(5))
    moreover have eb: "le_eval ?v1 eb = le_eval v eb" by (rule eval_new [OF b(2)]) simp
    ultimately have 2: "models E ?d2 (?v1(gen + 1 := le_eval v eb)) (\<rho>(Adr ?n := A v, Val ?n := le_eval v eb))" by simp
    have ec: "le_eval (?v1(gen + 1 := le_eval v eb)) ec = le_eval v ec"
      using eval_new [OF c(2), of "gen + 1"] eval_new [OF c(2), of gen] by simp
    show ?thesis using b3(5) [OF 2] unfolding ec .
  qed
  moreover have "im_find1 (d_idmap ?d3) = cell_added ?n gen step (im_find1 (d_idmap d))"
    unfolding b3(2) b2(2) b1(2) by (simp add: cell_added_def)
  moreover have "same_frame d ?d3" using same_frame_trans [OF same_frame_trans [OF same_frame_trans [OF ok0(3) b1(4)] b2(4)] b3(4)] .
  moreover have "dom_ok E (gen + 3) ?d3" "d_mem_ref ?d3 = ?n + 1" using b3(1,3) b2(3) b1(3) by (simp_all add: numeral_eq_Suc)
  ultimately have "cell_new gen step d A (\<lambda>v. le_eval v eb) (\<lambda>v. le_eval v ec) ?d3" by (simp add: cell_new_def)
  moreover have "varNew (Val ?n) NO_STEP False ?d1 (gen + 1) = Some (gen + 1, d2, gen + 2)"
    "varNew (Cnt ?n) NO_STEP False ?d2 (gen + 2) = Some (gen + 2, d3, gen + 3)"
    using d2(1) d3(1) by (simp_all add: numeral_eq_Suc)
  ultimately show thesis by (rule that [OF d1(1), rotated 2])
qed

subsection \<open>Creating and replacing a location\<close>

lemma cell_newD:
  assumes "cell_new gen step d A B C d'"
  shows "dom_ok E (gen + 3) d'"
    and "im_find1 (d_idmap d') = cell_added (d_mem_ref d) gen step (im_find1 (d_idmap d))"
    and "d_mem_ref d' = d_mem_ref d + 1" and "same_frame d d'"
    and "models E d v \<rho> \<Longrightarrow> models E d' (v(gen := A v, gen + 1 := B v, gen + 2 := C v))
        (\<rho>(Adr (d_mem_ref d) := A v, Val (d_mem_ref d) := B v, Cnt (d_mem_ref d) := C v))"
  using assms by (simp_all add: cell_new_def)

lemma cell_create:
  assumes ok: "dom_ok E gen d" and sc: "scalar_mem d" and step: "step \<noteq> NO_STEP"
    and a: "le_ok ea" "le_vars ea \<subseteq> {..<gen}" and b: "le_ok eb" "le_vars eb \<subseteq> {..<gen}"
    and c: "le_ok ec" "le_vars ec \<subseteq> {..<gen}"
  obtains d' where "memTabCreate E ea eb step ec False d gen = Some (gen, d', gen + 3)"
    and "cell_new gen step d (\<lambda>v. le_eval v ea) (\<lambda>v. le_eval v eb) (\<lambda>v. le_eval v ec) d'"
proof -
  have va: "wc_vars (w_eq (V gen) ea) \<subseteq> {..<gen + 1}" by (rule w_eq_vars) (use a in auto)
  have sa: "wc_sat (v(gen := le_eval v ea)) (w_eq (V gen) ea)" for v
    using a eval_new [OF a(2), of gen] by simp
  obtain d1 d2 d3 where r: "varNew (Adr (d_mem_ref d)) step False (d\<lparr>d_mem_ref := d_mem_ref d + 1\<rparr>) gen = Some (gen, d1, gen + 1)"
    "varNew (Val (d_mem_ref d)) NO_STEP False (doNewConstraint E (w_eq (V gen) ea) d1) (gen + 1) = Some (gen + 1, d2, gen + 2)"
    "varNew (Cnt (d_mem_ref d)) NO_STEP False (doNewConstraint E (w_eq (V (gen + 1)) eb) d2) (gen + 2) = Some (gen + 2, d3, gen + 3)"
    "cell_new gen step d (\<lambda>v. le_eval v ea) (\<lambda>v. le_eval v eb) (\<lambda>v. le_eval v ec) (doNewConstraint E (w_eq (V (gen + 2)) ec) d3)"
    by (rule cell_three [OF ok sc step va sa b c])
  then have "memTabCreate E ea eb step ec False d gen = Some (gen, doNewConstraint E (w_eq (V (gen + 2)) ec) d3, gen + 3)"
    by (simp add: memTabCreate_def varCreateClp_def Let_def)
  then show thesis using r(4) by (rule that)
qed

text \<open>\<open>cell_moved\<close>: the location \<open>k\<close> has become a new one with the value \<open>B\<close>.\<close>

definition cell_moved :: "guid \<Rightarrow> int \<Rightarrow> 'p domain \<Rightarrow> (valuation \<Rightarrow> rat) \<Rightarrow> 'p domain \<Rightarrow> bool" where
  "cell_moved gen k d B d' \<longleftrightarrow> dom_ok E (gen + 3) d' \<and>
     im_find1 (d_idmap d') = cell_removed k (cell_added (d_mem_ref d) gen STEP_BOT (im_find1 (d_idmap d))) \<and>
     d_mem_ref d' = d_mem_ref d + 1 \<and> same_frame d d' \<and>
     (\<forall>v \<rho>. models E d v \<rho> \<longrightarrow> (\<exists>v'. (\<forall>g < gen. v' g = v g) \<and> models E d' v'
        (\<rho>(Adr (d_mem_ref d) := \<rho> (Adr k), Val (d_mem_ref d) := B v, Cnt (d_mem_ref d) := \<rho> (Cnt k)))))"

lemma kill_known:
  assumes "dom_ok E gen d" and "im_find1 (d_idmap d) i = Some iv"
  obtains d' where "varKill iv d = Some d'" and "dom_ok E gen d'"
    and "im_find1 (d_idmap d') = (im_find1 (d_idmap d))(i := None)" and "d_mem_ref d' = d_mem_ref d" and "same_frame d d'"
    and "\<And>v \<rho>. models E d v \<rho> \<Longrightarrow> models E d' v \<rho>"
proof -
  obtain d' where d': "varKill iv d = Some d'" "dom_ok E gen d'"
    "im_find1 (d_idmap d') = (im_find1 (d_idmap d))(i := None)" "d_poly d' = d_poly d"
    by (rule varKill_ok [OF assms])
  then show thesis using that varKill_rest [OF d'(1)] by (auto simp: models_def)
qed

lemma known_value:
  assumes "dom_ok E gen d" and "im_find1 (d_idmap d) i = Some iv" and "id_type i \<noteq> ID_MEM_ADDR"
  shows "idval_t (iv_g iv) NO_STEP = iv" and "getVar0 d i = Some (iv_g iv)"
  using dom_okD(6) [OF assms(1,2)] assms(3) getVar0_ok [OF assms(2,3)] by (cases iv, simp)+

lemma cell_replace:
  assumes ok: "dom_ok E gen d" and sc: "scalar_mem d" and k: "hasIdent d (Adr k)" and src: "src < gen"
    and iv: "im_find1 (d_idmap d) (Adr k) = Some iv" and ci: "im_find1 (d_idmap d) (Cnt k) = Some ci"
  obtains d' where "memTabReplace E iv src (iv_g ci) d gen = Some (gen, d', gen + 3)"
    and "cell_moved gen k d (\<lambda>v. v src) d'"
proof -
  let ?n = "d_mem_ref d"
  obtain a b where cell: "im_find1 (d_idmap d) (Adr k) = Some (idval_t a STEP_BOT)" "im_find1 (d_idmap d) (Val k) = Some b" "k < ?n"
    by (rule scalar_cell [OF sc k])
  have iv': "iv_g iv = a" "iv_s iv = STEP_BOT" using iv cell(1) by auto
  have lt: "a < gen" "iv_g ci < gen" using dom_okD(5) [OF ok iv] dom_okD(5) [OF ok ci] iv' by simp_all
  have va: "wc_vars (w_eq (V a) (V gen)) \<subseteq> {..<gen + 1}" by (rule w_eq_vars) (use lt in auto)
  have sa: "wc_sat (v(gen := v a)) (w_eq (V a) (V gen))" for v using lt by simp
  have step: "STEP_BOT \<noteq> NO_STEP" by (simp add: STEP_BOT_def NO_STEP_def)
  obtain d1 d2 d3 where r: "varNew (Adr ?n) STEP_BOT False (d\<lparr>d_mem_ref := ?n + 1\<rparr>) gen = Some (gen, d1, gen + 1)"
    "varNew (Val ?n) NO_STEP False (doNewConstraint E (w_eq (V a) (V gen)) d1) (gen + 1) = Some (gen + 1, d2, gen + 2)"
    "varNew (Cnt ?n) NO_STEP False (doNewConstraint E (w_eq (V (gen + 1)) (V src)) d2) (gen + 2) = Some (gen + 2, d3, gen + 3)"
    "cell_new gen STEP_BOT d (\<lambda>v. v a) (\<lambda>v. v src) (\<lambda>v. v (iv_g ci)) (doNewConstraint E (w_eq (V (gen + 2)) (V (iv_g ci))) d3)"
    by (rule cell_three [OF ok sc step va sa, of "V src" "V (iv_g ci)"]) (use lt src in auto)
  let ?d = "doNewConstraint E (w_eq (V (gen + 2)) (V (iv_g ci))) d3"
  note n = cell_newD [OF r(4)]
  have f: "im_find1 (d_idmap ?d) (Adr k) = Some iv" "im_find1 (d_idmap ?d) (Cnt k) = Some ci" "im_find1 (d_idmap ?d) (Val k) = Some b"
    unfolding n(2) using iv ci cell by (simp_all add: cell_added_def)
  obtain e1 where e1: "varKill iv ?d = Some e1" "dom_ok E (gen + 3) e1"
    "im_find1 (d_idmap e1) = (im_find1 (d_idmap ?d))(Adr k := None)" "d_mem_ref e1 = d_mem_ref ?d" "same_frame ?d e1"
    and m1: "\<And>v \<rho>. models E ?d v \<rho> \<Longrightarrow> models E e1 v \<rho>" using kill_known [OF n(1) f(1)] by blast
  have f1: "im_find1 (d_idmap e1) (Cnt k) = Some ci" "im_find1 (d_idmap e1) (Val k) = Some b" unfolding e1(3) using f by simp_all
  obtain e2 where e2: "varKill ci e1 = Some e2" "dom_ok E (gen + 3) e2"
    "im_find1 (d_idmap e2) = (im_find1 (d_idmap e1))(Cnt k := None)" "d_mem_ref e2 = d_mem_ref e1" "same_frame e1 e2"
    and m2: "\<And>v \<rho>. models E e1 v \<rho> \<Longrightarrow> models E e2 v \<rho>" using kill_known [OF e1(2) f1(1)] by blast
  have f2: "im_find1 (d_idmap e2) (Val k) = Some b" unfolding e2(3) using f1 by simp
  obtain e3 where e3: "varKill b e2 = Some e3" "dom_ok E (gen + 3) e3"
    "im_find1 (d_idmap e3) = (im_find1 (d_idmap e2))(Val k := None)" "d_mem_ref e3 = d_mem_ref e2" "same_frame e2 e3"
    and m3: "\<And>v \<rho>. models E e2 v \<rho> \<Longrightarrow> models E e3 v \<rho>" using kill_known [OF e2(2) f2] by blast
  have kv: "idval_t (iv_g ci) NO_STEP = ci" "idval_t (iv_g b) NO_STEP = b" "getVar0 e2 (Val k) = Some (iv_g b)"
    using known_value(1) [OF e1(2) f1(1)] known_value [OF e2(2) f2] by simp_all
  have "getIdent d iv = Some (Adr k)" using im_ok_inv [OF dom_okD(1) [OF ok]] iv by (simp add: getIdent_def)
  moreover have "hasIdent e2 (Val k)" using f2 by (simp add: hasIdent_iff)
  ultimately have "memTabReplace E iv src (iv_g ci) d gen = Some (gen, e3, gen + 3)"
    using r(1-3) e1(1) e2(1) e3(1) kv
    by (simp add: memTabReplace_def varCreateClp_def Let_def iv' varKillVar_def)
  moreover have "im_find1 (d_idmap e3) = cell_removed k (cell_added ?n gen STEP_BOT (im_find1 (d_idmap d)))"
    unfolding e3(3) e2(3) e1(3) n(2) cell_removed_def ..
  moreover have "same_frame d e3"
    using same_frame_trans [OF same_frame_trans [OF same_frame_trans [OF n(4) e1(5)] e2(5)] e3(5)] .
  moreover have "\<exists>v'. (\<forall>g < gen. v' g = v g) \<and> models E e3 v'
      (\<rho>(Adr ?n := \<rho> (Adr k), Val ?n := v src, Cnt ?n := \<rho> (Cnt k)))" if m: "models E d v \<rho>" for v \<rho>
  proof -
    have "v a = \<rho> (Adr k)" "v (iv_g ci) = \<rho> (Cnt k)" using models_value [OF m iv] models_value [OF m ci] iv' by simp_all
    then have "models E e3 (v(gen := v a, gen + 1 := v src, gen + 2 := v (iv_g ci)))
        (\<rho>(Adr ?n := \<rho> (Adr k), Val ?n := v src, Cnt ?n := \<rho> (Cnt k)))" using m3 [OF m2 [OF m1 [OF n(5) [OF m]]]] by simp
    then show ?thesis by (intro exI conjI) auto
  qed
  ultimately show thesis using that [of e3] e3(2,4) e2(4) e1(4) n(3) by (simp add: cell_moved_def)
qed

subsection \<open>Merging\<close>

lemma cell_movedD:
  assumes "cell_moved gen k d B d'"
  shows "dom_ok E (gen + 3) d'"
    and "im_find1 (d_idmap d') = cell_removed k (cell_added (d_mem_ref d) gen STEP_BOT (im_find1 (d_idmap d)))"
    and "d_mem_ref d' = d_mem_ref d + 1" and "same_frame d d'"
    and "models E d v \<rho> \<Longrightarrow> \<exists>v'. (\<forall>g < gen. v' g = v g) \<and> models E d' v'
        (\<rho>(Adr (d_mem_ref d) := \<rho> (Adr k), Val (d_mem_ref d) := B v, Cnt (d_mem_ref d) := \<rho> (Cnt k)))"
  using assms by (simp_all add: cell_moved_def)

lemma scalar_moved:
  assumes sc: "scalar_mem d" and m: "cell_moved gen k d B d'"
  shows "scalar_mem d'"
proof -
  let ?f = "cell_added (d_mem_ref d) gen STEP_BOT (im_find1 (d_idmap d))"
  note mv = cell_movedD [OF m]
  show ?thesis
    unfolding scalar_mem_def
  proof (intro allI impI)
    fix i iv
    assume iv: "im_find1 (d_idmap d') i = Some iv"
    then have i: "i \<notin> set (cell_ids k)" "?f i = Some iv" unfolding mv(2) by (auto simp: cell_removed_def cell_ids_def split: if_splits)
    show "scalar_ident d' (i, iv)"
    proof (cases "i \<in> set (cell_ids (d_mem_ref d))")
      case True
      then have k: "id_num i = d_mem_ref d" "d_mem_ref d \<noteq> k" using i(1) by (auto simp: cell_ids_def)
      then have "list_all (hasIdent d') (cell_ids (d_mem_ref d))"
        unfolding hasIdent_iff mv(2) cell_removed_def cell_added_def cell_ids_def by simp
      then show ?thesis using True i(2) k mv(3) by (auto simp: scalar_ident_def cell_ids_def cell_added_def)
    next
      case False
      then have old: "im_find1 (d_idmap d) i = Some iv" using i(2) by (auto simp: cell_added_def cell_ids_def)
      then have s: "scalar_ident d (i, iv)" using sc by (simp add: scalar_mem_def)
      have "hasIdent d' j" if "id_type i \<in> set mem_types" "hasIdent d j" "j \<in> set (cell_ids (id_num i))" for j
      proof -
        have "id_num i \<noteq> k" using s i(1) that(1) by (auto simp: scalar_ident_def)
        then have "j \<notin> set (cell_ids k)" using that(3) by (auto simp: cell_ids_def)
        then show ?thesis using that(2) unfolding hasIdent_iff mv(2) by (auto simp: cell_removed_def cell_added_def cell_ids_def)
      qed
      then show ?thesis using s mv(3) by (auto simp: scalar_ident_def list_all_iff)
    qed
  qed
qed

lemma moved_has:
  assumes m: "cell_moved gen k d B d'"
  shows "hasIdent d' (Adr j) \<longleftrightarrow> j = d_mem_ref d \<and> j \<noteq> k \<or> j \<noteq> k \<and> hasIdent d (Adr j)"
    and "id_type i \<notin> set mem_types \<Longrightarrow> im_find1 (d_idmap d') i = im_find1 (d_idmap d) i"
    and "j \<noteq> k \<Longrightarrow> j \<noteq> d_mem_ref d \<Longrightarrow> im_find1 (d_idmap d') (Ident j t) = im_find1 (d_idmap d) (Ident j t)"
  unfolding hasIdent_iff cell_movedD(2) [OF m] by (auto simp: cell_removed_def cell_added_def)

lemma varNew_axis: "varNew i step r d gen = Some (v, d', gen') \<Longrightarrow> d_num_axis d' = d_num_axis d"
  by (auto simp: varNew_def bindE split: option.splits)

lemma kill_axis:
  "varKill iv d = Some d' \<Longrightarrow> d_num_axis d' = d_num_axis d"
  "varKillVar g s d = Some d' \<Longrightarrow> d_num_axis d' = d_num_axis d"
  by (auto simp: varKillVar_def varKill_def bindE)

lemma replace_axis:
  assumes "memTabReplace E iv src c d gen = Some (a, d', gen')"
  shows "d_num_axis d' = d_num_axis d"
  using assms
  by (auto simp: memTabReplace_def varCreateClp_def Let_def bindE doNewConstraint_def split: if_splits
    dest!: varNew_axis kill_axis)

text \<open>The merged location has its old value or the new one.\<close>

lemma cell_merge:
  assumes ok: "dom_ok E gen d" and sc: "scalar_mem d" and k: "hasIdent d (Adr k)" and src: "src < gen"
    and iv: "im_find1 (d_idmap d) (Adr k) = Some iv" and run: "memMerge E iv src d gen = Some (a, d', gen')"
    and nb: "d_num_axis d \<noteq> -1"
  obtains d1 d2 g where "cell_moved gen k d (\<lambda>v. v src) d1" and "cell_moved gen k d (\<lambda>v. v g) d2"
    and "im_find1 (d_idmap d) (Val k) = Some (idval_t g NO_STEP)" and "gen' = gen + 3" and "dom_ok E gen' d'"
    and "d_idmap d' = d_idmap d2" and "d_mem_ref d' = d_mem_ref d2" and "same_frame d2 d'" and "d_num_axis d' = d_num_axis d"
    and "\<And>v \<rho>. models E d1 v \<rho> \<or> models E d2 v \<rho> \<Longrightarrow> models E d' v \<rho>"
proof -
  obtain b c where bc: "im_find1 (d_idmap d) (Val k) = Some b" "im_find1 (d_idmap d) (Cnt k) = Some c"
    by (rule scalar_cell [OF sc k])
  have bg: "iv_g b < gen" by (rule dom_okD(5) [OF ok bc(1)])
  have kv: "getVar0 d (Val k) = Some (iv_g b)" "idval_t (iv_g b) NO_STEP = b" "getVar0 d (Cnt k) = Some (iv_g c)"
    using known_value [OF ok bc(1)] known_value [OF ok bc(2)] by simp_all
  have hv: "hasIdent d (Val k)" using bc(1) by (simp add: hasIdent_iff)
  have id: "getIdent d iv = Some (Adr k)" using im_ok_inv [OF dom_okD(1) [OF ok]] iv by (simp add: getIdent_def)
  have "memMerge_value E iv src (iv_g b) (iv_g c) d gen = Some (a, d', gen')"
    using run id kv hv by (simp add: memMerge_def)
  moreover obtain t where t: "dom_copy d = Some t" "dom_ok E gen t" "im_find1 (d_idmap t) = im_find1 (d_idmap d)" "d_poly t = d_poly d"
      "d_mem_ref t = d_mem_ref d" using dom_copy_ok [OF ok] by metis
  have tf: "same_frame t d" using copy_frame [OF t(1)] by (simp add: same_frame_def)
  have ht: "hasIdent t = hasIdent d" by (rule ext) (simp only: hasIdent_iff t(3))
  have sct: "scalar_mem t" unfolding scalar_mem_def scalar_ident_def ht t(3,5) using sc by (simp add: scalar_mem_def scalar_ident_def)
  have kt: "hasIdent t (Adr k)" using k ht by simp
  obtain d1 where d1: "memTabReplace E iv src (iv_g c) t gen = Some (gen, d1, gen + 3)" "cell_moved gen k t (\<lambda>v. v src) d1"
    by (rule cell_replace [OF t(2) sct kt src]) (use iv bc(2) t(3) in auto)
  obtain d2 where d2: "memTabReplace E iv (iv_g b) (iv_g c) d gen = Some (gen, d2, gen + 3)" "cell_moved gen k d (\<lambda>v. v (iv_g b)) d2"
    by (rule cell_replace [OF ok sc k bg iv bc(2)])
  have d1': "cell_moved gen k d (\<lambda>v. v src) d1"
    using d1(2) models_cong [OF t(3,4)] tf unfolding cell_moved_def t(3,5) by (auto simp: same_frame_def)
  ultimately obtain p where p: "wp_hull (e_ppl E) (d_poly d2) (d_poly d1) = Some p" "d' = d2\<lparr>d_poly := p\<rparr>" "gen' = gen + 3"
    using t(1) d1(1) d2(1) by (auto simp: memMerge_value_def bindE Let_def)
  have w: "wp_ok (e_ppl E) (d_poly d2)" "wp_ok (e_ppl E) (d_poly d1)"
    using dom_okD(2) [OF cell_movedD(1) [OF d2(2)]] dom_okD(2) [OF cell_movedD(1) [OF d1']] .
  have ne: "wp_dom (d_poly d2) \<inter> wp_dom (d_poly d1) \<noteq> {}" using no_common_variable(1) [OF w] p(1) by auto
  obtain p' where p': "wp_hull (e_ppl E) (d_poly d2) (d_poly d1) = Some p'" "wp_ok (e_ppl E) p'"
    "wp_dom p' = wp_dom (d_poly d2) \<inter> wp_dom (d_poly d1)"
    "wsem (e_ppl E) (d_poly d2) \<union> wsem (e_ppl E) (d_poly d1) \<subseteq> wsem (e_ppl E) p'" by (rule hull [OF w ne])
  have e: "p' = p" using p p'(1) by simp
  have o2: "dom_ok E (gen + 3) d2" and o1: "dom_ok E (gen + 3) d1" using cell_movedD(1) [OF d2(2)] cell_movedD(1) [OF d1'] .
  have ok': "dom_ok E gen' d'"
    using o1 o2 p'(2,3) nb replace_axis [OF d2(1)] unfolding p(2,3) e by (auto simp: dom_ok_def)
  have eqf: "im_find1 (d_idmap d1) = im_find1 (d_idmap d2)" using cell_movedD(2) [OF d2(2)] cell_movedD(2) [OF d1'] by simp
  have "models E d' v \<rho>" if "models E d1 v \<rho> \<or> models E d2 v \<rho>" for v \<rho>
    using that p'(4) eqf unfolding models_def p(2) e by auto
  moreover have "same_frame d2 d'" by (simp add: p(2) same_frame_def)
  ultimately show thesis using that [OF d1', of "iv_g b" d2] d2(2) bc(1) kv(2) p(2,3) ok' replace_axis [OF d2(1)] by simp
qed

end

end
