(* ===== verification/Memory_Sound.thy ===== *)
theory Memory_Sound
  imports Memory_Cells
begin

text \<open>
  Loads and stores over locations that hold one cell each (\<open>scalar_mem\<close>). A machine state is
  the registers and a memory; \<open>mem_covers\<close> says that an abstract state stands for it. A store
  replaces the location that it certainly writes, merges those it may write and creates one
  when none is certain; a load reads the locations at its address or creates one. Both cover
  what the machine does when the guards of \<open>mem_guard\<close> hold, which can be evaluated: the code
  takes a location whose address it knows nothing of for one that is not written.
\<close>

subsection \<open>States with memory\<close>

definition agrees :: "mstate \<Rightarrow> mstate \<Rightarrow> bool" where
  "agrees \<rho> R \<longleftrightarrow> (\<forall>i. id_type i \<notin> set mem_types \<longrightarrow> \<rho> i = R i)"

definition holds_at ::
  "'p env \<Rightarrow> int set \<Rightarrow> 'p domain \<Rightarrow> (int \<Rightarrow> memory) \<Rightarrow> mstate \<Rightarrow> valuation \<Rightarrow> mstate \<Rightarrow> bool" where
  "holds_at E X d W R v \<rho> \<longleftrightarrow> models E d v (lift \<rho>) \<and> counters_in X d \<rho> \<and> agrees \<rho> R \<and> cells d W \<rho>"

definition mem_covers :: "'p env \<Rightarrow> int set \<Rightarrow> 'p domain \<Rightarrow> mstate \<Rightarrow> memory \<Rightarrow> bool" where
  "mem_covers E X d R M \<longleftrightarrow> (\<exists>\<rho>. covers E X d \<rho> \<and> agrees \<rho> R \<and> cells d (\<lambda>k. M) \<rho>)"

lemma mem_covers_at: "mem_covers E X d R M \<longleftrightarrow> (\<exists>v \<rho>. holds_at E X d (\<lambda>k. M) R v \<rho>)"
  by (auto simp: mem_covers_def holds_at_def covers_def dom_sem_def)

lemma holds_atD:
  assumes "holds_at E X d W R v \<rho>"
  shows "models E d v (lift \<rho>)" and "counters_in X d \<rho>" and "agrees \<rho> R" and "cells d W \<rho>"
  using assms by (simp_all add: holds_at_def)

lemma agrees_upd: "agrees \<rho> R \<Longrightarrow> id_type i \<in> set mem_types \<Longrightarrow> agrees (\<rho>(i := x)) R"
  by (auto simp: agrees_def)

text \<open>The states that the code reaches: well formed, with scalar locations, and not marked empty.\<close>

definition good_mem :: "'p env \<Rightarrow> guid \<Rightarrow> 'p domain \<Rightarrow> bool" where
  "good_mem E gen d \<longleftrightarrow> dom_ok E gen d \<and> scalar_mem d \<and> d_num_axis d \<noteq> -1"

text \<open>
  \<open>advances\<close>: what holds between a state and a later one of the same instruction. Locations
  that are not in \<open>L\<close> keep their variables.
\<close>

definition advances :: "'p domain \<Rightarrow> int set \<Rightarrow> 'p domain \<Rightarrow> bool" where
  "advances d L d' \<longleftrightarrow> same_frame d d' \<and> d_mem_ref d \<le> d_mem_ref d' \<and>
     (\<forall>i. id_type i \<notin> set mem_types \<longrightarrow> im_find1 (d_idmap d') i = im_find1 (d_idmap d) i) \<and>
     (\<forall>k t. k < d_mem_ref d \<longrightarrow> k \<notin> L \<longrightarrow> im_find1 (d_idmap d') (Ident k t) = im_find1 (d_idmap d) (Ident k t))"

lemma advances_refl [simp]: "advances d L d"
  by (simp add: advances_def)

lemma advances_trans: "advances d L d1 \<Longrightarrow> advances d1 N d2 \<Longrightarrow> advances d (L \<union> N) d2"
  unfolding advances_def using same_frame_trans by auto

lemma advancesD:
  assumes "advances d L d'"
  shows "same_frame d d'" and "d_mem_ref d \<le> d_mem_ref d'"
    and "id_type i \<notin> set mem_types \<Longrightarrow> im_find1 (d_idmap d') i = im_find1 (d_idmap d) i"
    and "k < d_mem_ref d \<Longrightarrow> k \<notin> L \<Longrightarrow> im_find1 (d_idmap d') (Ident k t) = im_find1 (d_idmap d) (Ident k t)"
  using assms by (simp_all add: advances_def)

lemma counters_frame: "same_frame d d' \<Longrightarrow> counters_in X d' = counters_in X d"
  by (rule counters_in_cong) (simp add: same_frame_def)

lemma counters_mem: "counters_in X d \<rho> \<Longrightarrow> id_type i \<in> set mem_types \<Longrightarrow> counters_in X d (\<rho>(i := x))"
  by (subst counters_in_reg) (auto simp: mem_types_def)

context poly_env
begin

lemma moved_sound:
  assumes sc: "scalar_mem d" and k: "hasIdent d (Adr k)" and mv: "cell_moved gen k d B d'"
    and h: "holds_at E X d W R v \<rho>" and b: "B v = of_int b" "W' (d_mem_ref d) (\<rho> (Adr k)) = b"
    and W: "\<And>j. j \<noteq> d_mem_ref d \<Longrightarrow> j \<noteq> k \<Longrightarrow> hasIdent d (Adr j) \<Longrightarrow> W' j = W j"
  obtains v' \<rho>' where "holds_at E X d' W' R v' \<rho>'" and "\<forall>g < gen. v' g = v g" and "\<And>j. j \<noteq> d_mem_ref d \<Longrightarrow> \<rho>' (Adr j) = \<rho> (Adr j)"
proof -
  let ?n = "d_mem_ref d" let ?\<rho> = "\<rho>(Adr ?n := \<rho> (Adr k), Val ?n := b, Cnt ?n := \<rho> (Cnt k))"
  note hd = holds_atD [OF h] note m = cell_movedD [OF mv]
  have l: "(lift \<rho>)(Adr ?n := lift \<rho> (Adr k), Val ?n := B v, Cnt ?n := lift \<rho> (Cnt k)) = lift ?\<rho>"
    by (simp add: b(1) lift_apply)
  obtain v' where v': "\<forall>g < gen. v' g = v g" "models E d' v' (lift ?\<rho>)" using m(5) [OF hd(1)] unfolding l by blast
  have one: "\<rho> (Cnt k) = 1" using cellsD [OF hd(4) k] by simp
  have "cells d' W' ?\<rho>"
    unfolding cells_def
  proof (intro allI impI)
    fix j
    assume "hasIdent d' (Adr j)"
    then have j: "j \<noteq> k" "j = ?n \<or> hasIdent d (Adr j)" using moved_has(1) [OF mv, of j] by auto
    show "?\<rho> (Cnt j) = 1 \<and> W' j (?\<rho> (Adr j)) = ?\<rho> (Val j)"
    proof (cases "j = ?n")
      case True
      then show ?thesis using one b(2) by simp
    next
      case False
      then show ?thesis using j cellsD [OF hd(4), of j] W [of j] by simp
    qed
  qed
  moreover have "counters_in X d' ?\<rho>"
    unfolding counters_frame [OF m(4)] using hd(2) by (intro counters_mem) auto
  moreover have "agrees ?\<rho> R" using hd(3) by (intro agrees_upd) auto
  ultimately have "holds_at E X d' W' R v' ?\<rho>" using v'(2) by (simp add: holds_at_def)
  then show thesis using v'(1) by (rule that) simp
qed

lemma moved_advances:
  assumes "cell_moved gen k d B d'"
  shows "advances d {k} d'"
  using cell_movedD(3,4) [OF assms] moved_has(2,3) [OF assms] by (auto simp: advances_def)

end

subsection \<open>Locations that may be written\<close>

text \<open>While a store is carried out, the locations in \<open>P\<close> describe the memory before it.\<close>

definition pend :: "memory \<Rightarrow> memory \<Rightarrow> int set \<Rightarrow> int \<Rightarrow> memory" where
  "pend M M' P k = (if k \<in> P then M else M')"

context poly_env
begin

lemma merge_one:
  assumes good: "good_mem E gen d" and run: "store_merge E src (Adr k) (d, gen) = Some (d', gen')"
    and k: "hasIdent d (Adr k)" "k \<in> P" and P: "\<forall>j \<in> P. j < d_mem_ref d" and src: "src < gen" "v src = of_int x"
    and h: "holds_at E X d (pend M (M(t := x)) P) R v \<rho>"
  obtains v' \<rho>' where "holds_at E X d' (pend M (M(t := x)) (P - {k})) R v' \<rho>'" and "\<forall>g < gen. v' g = v g"
    and "good_mem E gen' d'" and "advances d {k} d'" and "gen \<le> gen'"
proof -
  have ok: "dom_ok E gen d" and sc: "scalar_mem d" and nb: "d_num_axis d \<noteq> -1" using good by (simp_all add: good_mem_def)
  let ?M = "M(t := x)" let ?n = "d_mem_ref d"
  obtain iv a where iv: "im_find1 (d_idmap d) (Adr k) = Some iv" and r: "memMerge E iv src d gen = Some (a, d', gen')"
    using run by (auto simp: store_merge_def bindE getVar_def)
  obtain d1 d2 g where m: "cell_moved gen k d (\<lambda>v. v src) d1" "cell_moved gen k d (\<lambda>v. v g) d2"
    "im_find1 (d_idmap d) (Val k) = Some (idval_t g NO_STEP)" "gen' = gen + 3" "dom_ok E gen' d'"
    "d_idmap d' = d_idmap d2" "d_mem_ref d' = d_mem_ref d2" "same_frame d2 d'" "d_num_axis d' = d_num_axis d"
    and join: "\<And>v \<rho>. models E d1 v \<rho> \<or> models E d2 v \<rho> \<Longrightarrow> models E d' v \<rho>"
    using cell_merge [OF ok sc k(1) src(1) iv r nb] by blast
  have maps: "hasIdent d1 = hasIdent d'" "hasIdent d2 = hasIdent d'"
    using cell_movedD(2) [OF m(1)] cell_movedD(2) [OF m(2)] m(6) by (auto simp: fun_eq_iff hasIdent_iff)
  have frames: "same_frame d1 d'"
    using cell_movedD(4) [OF m(1)] cell_movedD(4) [OF m(2)] m(8) by (simp add: same_frame_def)
  note hd = holds_atD [OF h]
  have val: "M (\<rho> (Adr k)) = \<rho> (Val k)" using cellsD [OF hd(4) k(1)] k(2) by (simp add: pend_def)
  have vg: "v g = of_int (\<rho> (Val k))" using models_value [OF hd(1) m(3)] by (simp add: lift_apply)
  have nP: "?n \<notin> P" using P by blast
  have W: "pend M ?M (P - {k}) j = pend M ?M P j" if "j \<noteq> k" for j using that by (simp add: pend_def)
  let ?b = "?M (\<rho> (Adr k))"
  have Wn: "pend M ?M (P - {k}) ?n (\<rho> (Adr k)) = ?b" using nP by (simp add: pend_def)
  have "\<exists>v' \<rho>'. holds_at E X d' (pend M ?M (P - {k})) R v' \<rho>' \<and> (\<forall>g < gen. v' g = v g)"
  proof (cases "\<rho> (Adr k) = t")
    case True
    then have "v src = of_int ?b" using src(2) by simp
    then obtain v' \<rho>' where r: "holds_at E X d1 (pend M ?M (P - {k})) R v' \<rho>'" "\<forall>g < gen. v' g = v g"
      by (rule moved_sound [OF sc k(1) m(1) h _ Wn W]) auto
    then have "holds_at E X d' (pend M ?M (P - {k})) R v' \<rho>'"
      using join counters_frame [OF frames] maps by (simp add: holds_at_def cells_def)
    then show ?thesis using r(2) by blast
  next
    case False
    then have "v g = of_int ?b" using vg val by simp
    then obtain v' \<rho>' where r: "holds_at E X d2 (pend M ?M (P - {k})) R v' \<rho>'" "\<forall>g < gen. v' g = v g"
      by (rule moved_sound [OF sc k(1) m(2) h _ Wn W]) auto
    then have "holds_at E X d' (pend M ?M (P - {k})) R v' \<rho>'"
      using join counters_frame [OF m(8)] maps by (simp add: holds_at_def cells_def)
    then show ?thesis using r(2) by blast
  qed
  moreover have "scalar_mem d'"
    using scalar_moved [OF sc m(2)] maps(2) m(6,7) by (simp add: scalar_mem_def scalar_ident_def)
  then have "good_mem E gen' d'" using m(5,9) nb by (simp add: good_mem_def)
  moreover have "advances d {k} d'"
    using moved_advances [OF m(2)] m(6-8) same_frame_trans [OF _ m(8)] by (simp add: advances_def)
  ultimately show thesis using that m(4) by auto
qed

lemma merges_sound:
  assumes "foldM (store_merge E src) is (d, gen) = Some (d', gen')" and "good_mem E gen d"
    and "distinct is" and "\<forall>i \<in> set is. hasIdent d i \<and> (\<exists>k \<in> P. i = Adr k)" and "\<forall>j \<in> P. j < d_mem_ref d"
    and "src < gen" and "v src = of_int x" and "holds_at E X d (pend M (M(t := x)) P) R v \<rho>"
  shows "(\<exists>v' \<rho>'. holds_at E X d' (pend M (M(t := x)) (P - id_num ` set is)) R v' \<rho>' \<and> (\<forall>g < gen. v' g = v g)) \<and>
    good_mem E gen' d' \<and> advances d (id_num ` set is) d' \<and> gen \<le> gen'"
  using assms
proof (induction "is" arbitrary: d gen P v \<rho>)
  case Nil
  then show ?case by auto
next
  case (Cons i js)
  obtain k where k: "i = Adr k" "hasIdent d (Adr k)" "k \<in> P" using Cons.prems(4) by auto
  obtain d1 gen1 where r: "store_merge E src (Adr k) (d, gen) = Some (d1, gen1)" "foldM (store_merge E src) js (d1, gen1) = Some (d', gen')"
    using Cons.prems(1) k(1) by (auto simp: bindE)
  obtain v1 \<rho>1 where 1: "holds_at E X d1 (pend M (M(t := x)) (P - {k})) R v1 \<rho>1" "\<forall>g < gen. v1 g = v g"
    "good_mem E gen1 d1" "advances d {k} d1" "gen \<le> gen1"
    by (rule merge_one [OF Cons.prems(2) r(1) k(2,3) Cons.prems(5-8)])
  have kept: "hasIdent d1 i' \<and> (\<exists>j \<in> P - {k}. i' = Adr j)" if i': "i' \<in> set js" for i'
  proof -
    obtain j where j: "i' = Adr j" "j \<in> P" "hasIdent d (Adr j)" using Cons.prems(4) i' by auto
    then have jk: "j \<noteq> k" using Cons.prems(3) i' k(1) by auto
    have "j < d_mem_ref d" using Cons.prems(5) j(2) by blast
    then have "hasIdent d1 (Adr j)" using advancesD(4) [OF 1(4)] jk j(3) by (simp add: hasIdent_iff)
    then show ?thesis using j jk by blast
  qed
  have P1: "\<forall>j \<in> P - {k}. j < d_mem_ref d1" using Cons.prems(5) advancesD(2) [OF 1(4)] by fastforce
  have src1: "src < gen1" "v1 src = of_int x" using Cons.prems(6,7) 1(2,5) by auto
  have ih: "(\<exists>v' \<rho>'. holds_at E X d' (pend M (M(t := x)) (P - {k} - id_num ` set js)) R v' \<rho>' \<and> (\<forall>g < gen1. v' g = v1 g)) \<and>
      good_mem E gen' d' \<and> advances d1 (id_num ` set js) d' \<and> gen1 \<le> gen'"
    by (rule Cons.IH [OF r(2) 1(3) _ _ P1 src1 1(1)]) (use Cons.prems(3) kept in auto)
  have P: "P - {k} - id_num ` set js = P - id_num ` set (i # js)" using k(1) by auto
  have "{k} \<union> id_num ` set js = id_num ` set (i # js)" using k(1) by simp
  moreover have "advances d1 (id_num ` set js) d'" using ih by (elim conjE)
  ultimately have adv: "advances d (id_num ` set (i # js)) d'" using advances_trans [OF 1(4)] by metis
  show ?case using ih adv 1(2,5) unfolding P by fastforce
qed

end

subsection \<open>Stores\<close>

text \<open>
  The guard of a store: of each location the code knows that it is the one written, or that it
  is not, or it takes part in the merge.
\<close>

definition cell_guard :: "'p env \<Rightarrow> 'p domain \<Rightarrow> guid \<Rightarrow> ident \<times> idval \<Rightarrow> bool" where
  "cell_guard E d sa = (\<lambda>(i, iv). id_type i = ID_MEM_ADDR \<longrightarrow>
     mustAlias E d (iv_g iv) sa 0 = Some True \<or>
     wp_isTracked (d_poly d) (iv_g iv) \<and> wp_isTracked (d_poly d) sa \<and>
     (case getVar0 d (Cnt (id_num i)) of Some c \<Rightarrow> wp_isTracked (d_poly d) c | None \<Rightarrow> False) \<and>
     (case delta E d (iv_g iv) sa STEP_BOT of Some k \<Rightarrow> k \<le> 0 | None \<Rightarrow> True))"

definition store_guard :: "'p env \<Rightarrow> sem_inst \<Rightarrow> 'p domain \<Rightarrow> bool" where
  "store_guard E si d \<longleftrightarrow>
     (case (getVar0 d (Reg (si_a si)), getVar0 d (Reg (si_d si))) of
        (Some sa, Some sv) \<Rightarrow> store_debug E d (Reg (si_a si)) (Reg (si_d si)) sv = Some False \<and>
          list_all (cell_guard E d sa) (im_pairs (d_idmap d))
      | _ \<Rightarrow> False)"

lemma query_cong:
  assumes "d_poly s = d_poly d"
  shows "mustAlias E s = mustAlias E d" and "mayAlias E s = mayAlias E d" and "mayRange E s = mayRange E d"
proof -
  have q: "poly_implies_const E s = poly_implies_const E d" by (rule ext) (simp add: poly_implies_const_def assms)
  show "mustAlias E s = mustAlias E d" "mayAlias E s = mayAlias E d" "mayRange E s = mayRange E d"
    unfolding mustAlias_def mayAlias_def mayRange_def assms q by (rule refl)+
qed

lemma store_one_cases:
  assumes "store_one E d s sa (i, iv) (eq, ov) = Some (eq', ov')" and p: "d_poly s = d_poly d"
    and a: "id_type i = ID_MEM_ADDR" and st: "iv_s iv = STEP_BOT" and g: "cell_guard E d sa (i, iv)"
  shows "mustAlias E d (iv_g iv) sa 0 = Some True \<and> eq = None \<and> eq' = Some i \<and> ov' = ov \<or>
    mustAlias E d (iv_g iv) sa 0 = Some False \<and> eq' = eq \<and>
      (mayAlias E d (iv_g iv) sa = Some False \<and> ov' = ov \<or> ov' = ov @ [i])"
proof -
  obtain must where m: "mustAlias E d (iv_g iv) sa 0 = Some must"
    using assms(1) by (auto simp: store_one_def query_cong [OF p] a bindE)
  show ?thesis
  proof (cases must)
    case True
    then show ?thesis using assms(1) m by (auto simp: store_one_def query_cong [OF p] a st STEP_BOT_def bindE)
  next
    case False
    then obtain c may where c: "getVar0 d (Cnt (id_num i)) = Some c" "mayRange E d (iv_g iv) c sa STEP_BOT = Some may"
      using assms(1) m by (auto simp: store_one_def query_cong [OF p] a st bindE)
    have tr: "wp_isTracked (d_poly d) (iv_g iv)" "wp_isTracked (d_poly d) sa" "wp_isTracked (d_poly d) c"
      "case delta E d (iv_g iv) sa STEP_BOT of Some k \<Rightarrow> k \<le> 0 | None \<Rightarrow> True"
      using g a m c(1) False by (auto simp: cell_guard_def)
    have "mayAlias E d (iv_g iv) sa = Some may" using c(2) tr by (simp add: mayRange_def)
    then show ?thesis
      using assms(1) m False c tr(4) by (cases may) (auto simp: store_one_def query_cong [OF p] a st bindE split: if_splits)
  qed
qed

text \<open>What the classification of the locations says: \<open>cut\<close> is what was found in \<open>ps\<close>.\<close>

lemma classify:
  assumes "foldM (store_one E d s sa) ps (eq0, ov0) = Some (eq, ov)" and "distinct (map fst ps)" and p: "d_poly s = d_poly d"
    and "\<forall>(i, iv) \<in> set ps. id_type i = ID_MEM_ADDR \<longrightarrow> iv_s iv = STEP_BOT \<and> cell_guard E d sa (i, iv)"
  shows "\<exists>ov1. ov = ov0 @ ov1 \<and> distinct ov1 \<and> (eq0 \<noteq> None \<longrightarrow> eq = eq0) \<and>
    (\<forall>i \<in> set ov1. \<exists>iv. (i, iv) \<in> set ps \<and> id_type i = ID_MEM_ADDR \<and> mustAlias E d (iv_g iv) sa 0 = Some False) \<and>
    (eq = eq0 \<or> (\<exists>i iv. eq = Some i \<and> (i, iv) \<in> set ps \<and> id_type i = ID_MEM_ADDR \<and> mustAlias E d (iv_g iv) sa 0 = Some True)) \<and>
    (\<forall>(i, iv) \<in> set ps. id_type i = ID_MEM_ADDR \<longrightarrow> eq = Some i \<or> i \<in> set ov1 \<or> mayAlias E d (iv_g iv) sa = Some False)"
  using assms(1,2,4)
proof (induction ps arbitrary: eq0 ov0)
  case Nil
  then show ?case by simp
next
  case (Cons q ps)
  obtain i iv where q: "q = (i, iv)" by (cases q)
  obtain eq1 ov1 where r: "store_one E d s sa (i, iv) (eq0, ov0) = Some (eq1, ov1)" "foldM (store_one E d s sa) ps (eq1, ov1) = Some (eq, ov)"
    using Cons.prems(1) q by (auto simp: bindE)
  have i: "i \<notin> fst ` set ps" "distinct (map fst ps)" using Cons.prems(2) q by simp_all
  obtain ov2 where ih: "ov = ov1 @ ov2" "distinct ov2" "eq1 \<noteq> None \<longrightarrow> eq = eq1"
    "\<forall>i \<in> set ov2. \<exists>iv. (i, iv) \<in> set ps \<and> id_type i = ID_MEM_ADDR \<and> mustAlias E d (iv_g iv) sa 0 = Some False"
    "eq = eq1 \<or> (\<exists>i iv. eq = Some i \<and> (i, iv) \<in> set ps \<and> id_type i = ID_MEM_ADDR \<and> mustAlias E d (iv_g iv) sa 0 = Some True)"
    "\<forall>(i, iv) \<in> set ps. id_type i = ID_MEM_ADDR \<longrightarrow> eq = Some i \<or> i \<in> set ov2 \<or> mayAlias E d (iv_g iv) sa = Some False"
    using Cons.IH [OF r(2) i(2)] Cons.prems(3) by auto
  show ?case
  proof (cases "id_type i = ID_MEM_ADDR")
    case False
    then have "eq1 = eq0" "ov1 = ov0" using r(1) by (simp_all add: store_one_def)
    then show ?thesis using ih False q by (intro exI [of _ ov2]) auto
  next
    case True
    have g: "iv_s iv = STEP_BOT" "cell_guard E d sa (i, iv)" using Cons.prems(3) q True by auto
    from store_one_cases [OF r(1) p True g] show ?thesis
    proof (elim disjE conjE)
      assume e: "mustAlias E d (iv_g iv) sa 0 = Some True" "eq0 = None" "eq1 = Some i" "ov1 = ov0"
      then have "eq = Some i" using ih(3) by simp
      then show ?thesis using ih e True q by (intro exI [of _ ov2]) auto
    next
      assume e: "mustAlias E d (iv_g iv) sa 0 = Some False" "eq1 = eq0" "mayAlias E d (iv_g iv) sa = Some False" "ov1 = ov0"
      then show ?thesis using ih q by (intro exI [of _ ov2]) auto
    next
      assume e: "mustAlias E d (iv_g iv) sa 0 = Some False" "eq1 = eq0" "ov1 = ov0 @ [i]"
      have "i \<notin> set ov2" using ih(4) i(1) by force
      then show ?thesis using ih e True q by (intro exI [of _ "i # ov2"]) auto
    qed
  qed
qed

subsection \<open>Queries that may extend the polyhedron\<close>

context poly_env
begin

lemma implies_ok:
  assumes ok: "dom_ok E gen d" and c: "wc_vars c \<subseteq> {..<gen}" and r: "poly_implies E c d = (b, d')"
  shows "dom_ok E gen d'" and "models E d' = models E d" and "d_idmap d' = d_idmap d" and "same_frame d d'"
    and "d_mem_ref d' = d_mem_ref d" and "d_num_axis d' = d_num_axis d"
proof -
  obtain w where w: "wp_included (e_ppl E) c (d_poly d) = (b, w)" "d' = d\<lparr>d_poly := w\<rparr>"
    using r by (auto simp: poly_implies_def Let_def split: prod.splits)
  note i = included [OF dom_okD(2) [OF ok] w(1)]
  show "dom_ok E gen d'" using ok i(1-3) c unfolding w(2) by (auto simp: dom_ok_def)
  show "models E d' = models E d" using i(2) unfolding w(2) by (simp add: models_def fun_eq_iff)
  show "d_idmap d' = d_idmap d" "same_frame d d'" "d_mem_ref d' = d_mem_ref d" "d_num_axis d' = d_num_axis d"
    by (simp_all add: w(2) same_frame_def)
qed

lemma should_fold_ok:
  assumes ok: "dom_ok E gen d" and lt: "a < gen" "c < gen" "x < gen" and r: "shouldFold E a step c x d = (b, d')"
  shows "dom_ok E gen d'" and "models E d' = models E d" and "d_idmap d' = d_idmap d" and "same_frame d d'"
    and "d_mem_ref d' = d_mem_ref d" and "d_num_axis d' = d_num_axis d"
proof -
  let ?c1 = "w_eq (le_add (V a) (le_scale step (V c))) (V x)" and ?c2 = "w_eq (le_add (V x) (K step)) (V a)"
  obtain b1 d1 b2 where q: "poly_implies E ?c1 d = (b1, d1)" "poly_implies E ?c2 d1 = (b2, d')"
    using r by (auto simp: shouldFold_def Let_def split: prod.splits)
  have v1: "wc_vars ?c1 \<subseteq> {..<gen}"
    by (rule w_eq_vars) (use lt le_vars_add [of "V a" "le_scale step (V c)"] le_vars_scale [of "V c" step] in auto)
  have v2: "wc_vars ?c2 \<subseteq> {..<gen}" by (rule w_eq_vars) (use lt le_vars_add [of "V x" "K step"] in auto)
  note 1 = implies_ok [OF ok v1 q(1)]
  note 2 = implies_ok [OF 1(1) v2 q(2)]
  show "dom_ok E gen d'" "models E d' = models E d" "d_idmap d' = d_idmap d" "same_frame d d'"
    "d_mem_ref d' = d_mem_ref d" "d_num_axis d' = d_num_axis d"
    using 1 2 same_frame_trans [OF 1(4) 2(4)] by simp_all
qed

text \<open>Without arrays no location is extended.\<close>

lemma store_fold_ok:
  assumes "store_fold E i0 x ps d gen = Some (d', gen')" and "dom_ok E gen d" and "scalar_mem d" and "x < gen"
  shows "gen' = gen \<and> dom_ok E gen d' \<and> models E d' = models E d \<and> d_idmap d' = d_idmap d \<and> same_frame d d' \<and>
    d_mem_ref d' = d_mem_ref d \<and> d_num_axis d' = d_num_axis d"
  using assms
proof (induction ps arbitrary: d)
  case (Cons q ps)
  obtain i iv where q: "q = (i, iv)" by (cases q)
  show ?case
  proof (cases "id_type i \<noteq> ID_MEM_ADDR \<or> i = i0")
    case True
    then show ?thesis using Cons.IH [OF _ Cons.prems(2-4)] Cons.prems(1,2) q by (auto split: if_splits)
  next
    case False
    then obtain tab count where t: "getVar d i True = Some tab" "getVar0 d (Cnt (id_num i)) = Some count"
      using Cons.prems(1) q by (auto simp: bindE)
    have lt: "iv_g tab < gen" "count < gen"
      using t dom_okD(5) [OF Cons.prems(2)] by (auto simp: getVar_def getVar0_def bindE)
    define step where "step = guess_step E x (iv_g tab) (iv_s tab) d"
    obtain ap d1 where a: "(if step \<noteq> STEP_BOT then shouldFold E (iv_g tab) step count x d else (False, d)) = (ap, d1)"
      by (cases "if step \<noteq> STEP_BOT then shouldFold E (iv_g tab) step count x d else (False, d)")
    have 1: "dom_ok E gen d1 \<and> models E d1 = models E d \<and> d_idmap d1 = d_idmap d \<and> same_frame d d1 \<and>
        d_mem_ref d1 = d_mem_ref d \<and> d_num_axis d1 = d_num_axis d"
      using a should_fold_ok [OF Cons.prems(2) lt Cons.prems(4), of step ap d1] Cons.prems(2) by (auto split: if_splits)
    have sc: "scalar_mem d1" using Cons.prems(3) 1 scalar_cong [of d1 d] by simp
    have "\<not> hasIdent d1 (Ident k ID_MEM_VAL_PLUS)" for k
    proof
      assume "hasIdent d1 (Ident k ID_MEM_VAL_PLUS)"
      then obtain iv where "im_find1 (d_idmap d1) (Ident k ID_MEM_VAL_PLUS) = Some iv" by (auto simp: hasIdent_iff)
      then show False using scalar_memD(2) [OF sc] by (auto simp: cell_ids_def mem_types_def)
    qed
    then have "store_fold E i0 x ps d1 gen = Some (d', gen')"
      using Cons.prems(1) q False t a [unfolded step_def] by (simp add: Let_def step_def)
    from Cons.IH [OF this _ sc Cons.prems(4)] 1 show ?thesis using same_frame_trans [of d d1 d'] by auto
  qed
qed simp

subsection \<open>The store instruction\<close>

lemma getVar0_reg: "getVar0 d (Reg r) = Some g \<longleftrightarrow> (\<exists>iv. im_find1 (d_idmap d) (Reg r) = Some iv \<and> g = iv_g iv)"
  by (auto simp: getVar0_def getVar_def bindE)

lemma holds_cong:
  assumes "models E d' = models E d" and "im_find1 (d_idmap d') = im_find1 (d_idmap d)" and "same_frame d d'"
  shows "holds_at E X d' W R v \<rho> \<longleftrightarrow> holds_at E X d W R v \<rho>"
  using assms(1) counters_frame [OF assms(3)] by (simp add: holds_at_def cells_def hasIdent_iff assms(2))

text \<open>After the merges: the certain location is replaced, or a new one is made.\<close>

lemma replace_last:
  assumes good: "good_mem E gen d" and k: "hasIdent d (Adr k)" and iv: "im_find1 (d_idmap d) (Adr k) = Some iv"
    and ci: "im_find1 (d_idmap d) (Cnt k) = Some ci" and run: "memTabReplace E iv src (iv_g ci) d gen = Some (a, d', gen')"
    and src: "src < gen" "v src = of_int x" and h: "holds_at E X d (pend M (M(t := x)) {k}) R v \<rho>" and t: "\<rho> (Adr k) = t"
  obtains v' \<rho>' where "holds_at E X d' (\<lambda>j. M(t := x)) R v' \<rho>'" and "good_mem E gen' d'" and "advances d {k} d'" and "gen \<le> gen'"
proof -
  have ok: "dom_ok E gen d" and sc: "scalar_mem d" and nb: "d_num_axis d \<noteq> -1" using good by (simp_all add: good_mem_def)
  obtain d1 where d1: "memTabReplace E iv src (iv_g ci) d gen = Some (gen, d1, gen + 3)" "cell_moved gen k d (\<lambda>v. v src) d1"
    by (rule cell_replace [OF ok sc k src(1) iv ci])
  have e: "d' = d1" "gen' = gen + 3" using run d1(1) by simp_all
  obtain v' \<rho>' where r: "holds_at E X d1 (\<lambda>j. M(t := x)) R v' \<rho>'"
    by (rule moved_sound [OF sc k d1(2) h, of x "\<lambda>j. M(t := x)"]) (use src(2) t in \<open>auto simp: pend_def\<close>)
  have "good_mem E gen' d'"
    using cell_movedD(1) [OF d1(2)] scalar_moved [OF sc d1(2)] replace_axis [OF d1(1)] nb by (simp add: good_mem_def e)
  then show thesis using that r moved_advances [OF d1(2)] e by auto
qed

lemma create_axis: "memTabCreate E a b step c u d gen = Some (x, d', gen') \<Longrightarrow> d_num_axis d' = d_num_axis d"
  by (auto simp: memTabCreate_def varCreateClp_def Let_def bindE doNewConstraint_def split: if_splits dest!: varNew_axis)

lemma new_scalar:
  assumes sc: "scalar_mem d" and n: "cell_new gen STEP_BOT d A B C d'"
  shows "scalar_mem d'"
  by (rule scalar_added [OF sc cell_newD(2) [OF n] refl cell_newD(3) [OF n]])

lemma new_advances:
  assumes "cell_new gen step d A B C d'"
  shows "advances d {} d'"
  unfolding advances_def cell_newD(2) [OF assms] using cell_newD(3,4) [OF assms] by (auto simp: cell_added_def)

lemma new_sound:
  assumes sc: "scalar_mem d" and n: "cell_new gen STEP_BOT d A B C d'" and h: "holds_at E X d W R v \<rho>"
    and A: "A v = of_int a" and B: "B v = of_int b" and C: "C v = 1" and W: "W (d_mem_ref d) a = b"
  obtains v' \<rho>' where "holds_at E X d' W R v' \<rho>'" and "\<forall>g < gen. v' g = v g"
proof -
  let ?n = "d_mem_ref d" let ?\<rho> = "\<rho>(Adr ?n := a, Val ?n := b, Cnt ?n := 1)"
  let ?v = "v(gen := A v, gen + 1 := B v, gen + 2 := C v)"
  note hd = holds_atD [OF h] note c = cell_newD [OF n]
  have "models E d' ?v (lift ?\<rho>)" using c(5) [OF hd(1)] A B C by simp
  moreover have "cells d' W ?\<rho>" by (rule cells_added [OF hd(4) sc c(2) refl]) (use W in simp_all)
  moreover have "counters_in X d' ?\<rho>" unfolding counters_frame [OF c(4)] using hd(2) by (intro counters_mem) auto
  moreover have "agrees ?\<rho> R" using hd(3) by (intro agrees_upd) auto
  ultimately have "holds_at E X d' W R ?v ?\<rho>" by (simp add: holds_at_def)
  then show thesis by (rule that) auto
qed

lemma pairs_distinct: "im_ok m \<Longrightarrow> distinct (map fst (im_pairs m))"
  unfolding im_pairs_def im_ok_def by (elim conjE) (rule hident.tab.entries_distinct)

text \<open>What remains to do once the locations are classified.\<close>

lemma classified:
  assumes good: "good_mem E gen d" and p: "d_poly s = d_poly d" and f: "im_find1 (d_idmap s) = im_find1 (d_idmap d)"
    and ok: "dom_ok E gen s" and g: "list_all (cell_guard E d sa) (im_pairs (d_idmap d))"
    and run: "store_classify E d s sa = Some (eq, ov)"
    and h: "holds_at E X s (\<lambda>k. M) R v \<rho>" and sa: "v sa = of_int t"
  defines "P \<equiv> id_num ` set ov \<union> (case eq of Some i \<Rightarrow> {id_num i} | None \<Rightarrow> {})"
  shows "distinct ov" and "\<forall>i \<in> set ov. hasIdent s i \<and> (\<exists>k \<in> P. i = Adr k)" and "\<forall>j \<in> P. j < d_mem_ref d"
    and "holds_at E X s (pend M (M(t := x)) P) R v \<rho>"
    and "eq = Some i \<Longrightarrow> \<exists>k. i = Adr k \<and> k \<notin> id_num ` set ov \<and> hasIdent s (Adr k) \<and> \<rho> (Adr k) = t"
proof -
  have okd: "dom_ok E gen d" and sc: "scalar_mem d" using good by (simp_all add: good_mem_def)
  let ?ps = "im_pairs (d_idmap s)"
  have mem: "(i, iv) \<in> set ?ps \<longleftrightarrow> im_find1 (d_idmap d) i = Some iv" for i iv
    using im_pairs_iff [OF dom_okD(1) [OF ok]] f by simp
  have dist: "distinct (map fst ?ps)"
    by (rule pairs_distinct [OF dom_okD(1) [OF ok]])
  have "iv_s iv = STEP_BOT \<and> cell_guard E d sa (i, iv)" if m: "(i, iv) \<in> set ?ps" "id_type i = ID_MEM_ADDR" for i iv
  proof -
    obtain k where i: "i = Adr k" using m(2) by (cases i) auto
    have "im_find1 (d_idmap d) i = Some iv" using m(1) mem by simp
    then show ?thesis using scalar_memD(3) [OF sc] g im_pairs_iff [OF dom_okD(1) [OF okd]] i by (auto simp: list_all_iff)
  qed
  then obtain ov1 where c: "ov = ov1" "distinct ov1"
    "\<forall>i \<in> set ov1. \<exists>iv. (i, iv) \<in> set ?ps \<and> id_type i = ID_MEM_ADDR \<and> mustAlias E d (iv_g iv) sa 0 = Some False"
    "eq = None \<or> (\<exists>i iv. eq = Some i \<and> (i, iv) \<in> set ?ps \<and> id_type i = ID_MEM_ADDR \<and> mustAlias E d (iv_g iv) sa 0 = Some True)"
    "\<forall>(i, iv) \<in> set ?ps. id_type i = ID_MEM_ADDR \<longrightarrow> eq = Some i \<or> i \<in> set ov1 \<or> mayAlias E d (iv_g iv) sa = Some False"
    using classify [OF run [unfolded store_classify_def] dist p] by auto
  show "distinct ov" using c(1,2) by simp
  have has: "hasIdent s i" if "(i, iv) \<in> set ?ps" for i iv using that mem f by (auto simp: hasIdent_iff)
  have adr: "\<exists>k. i = Adr k" if "id_type i = ID_MEM_ADDR" for i using that by (cases i) auto
  show inov: "\<forall>i \<in> set ov. hasIdent s i \<and> (\<exists>k \<in> P. i = Adr k)"
  proof
    fix i
    assume i: "i \<in> set ov"
    then obtain iv where "(i, iv) \<in> set ?ps" "id_type i = ID_MEM_ADDR" using c(1,3) by blast
    moreover from this obtain k where "i = Adr k" using adr by blast
    moreover have "id_num i \<in> P" using i by (simp add: P_def)
    ultimately show "hasIdent s i \<and> (\<exists>k \<in> P. i = Adr k)" using has by auto
  qed
  note hd = holds_atD [OF h]
  have mv: "v \<in> wsem (e_ppl E) (d_poly d)" using hd(1) p by (simp add: models_def)
  have val: "v (iv_g iv) = of_int (\<rho> i)" if "im_find1 (d_idmap d) i = Some iv" for i iv
    using models_value [OF hd(1)] that f by (simp add: lift_apply)
  show eqc: "\<exists>k. i = Adr k \<and> k \<notin> id_num ` set ov \<and> hasIdent s (Adr k) \<and> \<rho> (Adr k) = t" if e: "eq = Some i" for i
  proof -
    obtain iv where iv: "(i, iv) \<in> set ?ps" "id_type i = ID_MEM_ADDR" "mustAlias E d (iv_g iv) sa 0 = Some True" using c(4) e by auto
    then obtain k where k: "i = Adr k" using adr by blast
    have "i \<notin> set ov"
    proof
      assume "i \<in> set ov"
      then obtain iv' where iv': "(i, iv') \<in> set ?ps" "mustAlias E d (iv_g iv') sa 0 = Some False" using c(1,3) by blast
      have "iv' = iv" using mem iv(1) iv'(1) by simp
      then show False using iv(3) iv'(2) by simp
    qed
    then have "k \<notin> id_num ` set ov" using inov k by force
    moreover have "v (iv_g iv) = v sa" using must_alias_sound [OF dom_okD(2) [OF okd] iv(3) mv] by simp
    then have "\<rho> (Adr k) = t" using val iv(1) mem sa k by simp
    ultimately show ?thesis using k has [OF iv(1)] by blast
  qed
  have inP: "\<exists>i. hasIdent s (Adr j)" if "j \<in> P" for j
    using that inov eqc by (cases eq) (auto simp: P_def)
  then show "\<forall>j \<in> P. j < d_mem_ref d" using scalar_memD(1) [OF sc] f by (force simp: hasIdent_iff)
  have "cells s (pend M (M(t := x)) P) \<rho>"
    unfolding cells_def
  proof (intro allI impI)
    fix k
    assume k: "hasIdent s (Adr k)"
    then obtain iv where iv: "im_find1 (d_idmap d) (Adr k) = Some iv" using f by (auto simp: hasIdent_iff)
    have "\<rho> (Adr k) \<noteq> t" if nk: "k \<notin> P"
    proof -
      have "mayAlias E d (iv_g iv) sa = Some False"
        using c(1,5) mem [of "Adr k" iv] iv nk by (auto simp: P_def image_iff) force
      then have "v (iv_g iv) \<noteq> v sa" by (rule may_alias_sound [OF dom_okD(2) [OF okd] _ mv])
      then show ?thesis using val [OF iv] sa by auto
    qed
    then show "\<rho> (Cnt k) = 1 \<and> pend M (M(t := x)) P k (\<rho> (Adr k)) = \<rho> (Val k)"
      using cellsD [OF hd(4) k] by (simp add: pend_def)
  qed
  then show "holds_at E X s (pend M (M(t := x)) P) R v \<rho>" using hd by (simp add: holds_at_def)
qed

lemma good_copy:
  assumes "good_mem E gen d" and "dom_copy d = Some s"
  shows "good_mem E gen s" and "im_find1 (d_idmap s) = im_find1 (d_idmap d)" and "d_poly s = d_poly d"
    and "models E s = models E d" and "same_frame d s" and "d_mem_ref s = d_mem_ref d"
proof -
  have ok: "dom_ok E gen d" using assms(1) by (simp add: good_mem_def)
  note c = copy_same [OF ok assms(2)]
  have r: "d_mem_ref s = d_mem_ref d" using assms(2) by (auto simp: dom_copy_def bindE)
  show "good_mem E gen s" using assms(1) c(1,6) scalar_cong [OF c(2) r] by (simp add: good_mem_def)
  show "im_find1 (d_idmap s) = im_find1 (d_idmap d)" "d_poly s = d_poly d" "models E s = models E d" "same_frame d s"
    "d_mem_ref s = d_mem_ref d" using c copy_models [OF ok assms(2)] r by simp_all
qed

lemma store_sound:
  assumes good: "good_mem E gen d" and run: "sem_store E si d s gen = Some (d', gen')" and copy: "dom_copy d = Some s"
    and g: "store_guard E si d" and cov: "mem_covers E X d R M"
  shows "mem_covers E X d' R (M(R (Reg (si_a si)) := R (Reg (si_d si)))) \<and> good_mem E gen' d' \<and> gen \<le> gen' \<and>
    advances s (UNIV) d'"
proof -
  let ?t = "R (Reg (si_a si))" and ?x = "R (Reg (si_d si))"
  note s = good_copy [OF good copy]
  have oks: "dom_ok E gen s" and nb: "d_num_axis s \<noteq> -1" using s(1) by (simp_all add: good_mem_def)
  obtain sa sv where r: "getVar0 d (Reg (si_a si)) = Some sa" "getVar0 d (Reg (si_d si)) = Some sv"
    "store_debug E d (Reg (si_a si)) (Reg (si_d si)) sv = Some False" "list_all (cell_guard E d sa) (im_pairs (d_idmap d))"
    using g by (auto simp: store_guard_def split: option.splits)
  have fs: "getVarOrNew (Reg r) s gen = Some (g, s, gen)" if "getVar0 d (Reg r) = Some g" for r g
    using that s(2) by (auto simp: getVarOrNew_def hasIdent_iff getVar0_reg getVar0_ok)
  obtain eq ov s1 g1 where q: "store_classify E d s sa = Some (eq, ov)" "foldM (store_merge E sv) ov (s, gen) = Some (s1, g1)"
    using run fs [OF r(1)] fs [OF r(2)] r(3) by (auto simp: sem_store_def bindE)
  obtain v \<rho> where h0: "holds_at E X d (\<lambda>k. M) R v \<rho>" using cov by (auto simp: mem_covers_at)
  have h: "holds_at E X s (\<lambda>k. M) R v \<rho>" using holds_cong [OF s(4,2,5)] h0 by simp
  have reg: "v g = of_int (R (Reg r)) \<and> g < gen" if gr: "getVar0 d (Reg r) = Some g" for r g
  proof -
    obtain iv where iv: "im_find1 (d_idmap s) (Reg r) = Some iv" "g = iv_g iv" using gr s(2) by (auto simp: getVar0_reg)
    then show ?thesis
      using models_value [OF holds_atD(1) [OF h] iv(1)] holds_atD(3) [OF h] dom_okD(5) [OF oks iv(1)]
      by (simp add: lift_apply agrees_def)
  qed
  note sa = reg [OF r(1), THEN conjunct1] and sv = reg [OF r(2)]
  define P where "P = id_num ` set ov \<union> (case eq of Some i \<Rightarrow> {id_num i} | None \<Rightarrow> {})"
  note c = classified [OF good s(3,2) oks r(4) q(1) h sa, folded P_def]
  have Ps: "\<forall>j \<in> P. j < d_mem_ref s" using c(3) s(6) by simp
  obtain v1 \<rho>1 where m: "holds_at E X s1 (pend M (M(?t := ?x)) (P - id_num ` set ov)) R v1 \<rho>1" "\<forall>g < gen. v1 g = v g"
    "good_mem E g1 s1" "advances s (id_num ` set ov) s1" "gen \<le> g1"
    using merges_sound [OF q(2) s(1) c(1,2) Ps conjunct2 [OF sv] conjunct1 [OF sv] c(4)] by auto
  have sv1: "sv < g1" "v1 sv = of_int ?x" using m(2,5) sv by auto
  have sa1: "sa < g1" "v1 sa = of_int ?t" using m(2,5) reg [OF r(1)] by auto
  show ?thesis
  proof (cases eq)
    case (Some i)
    obtain k where k: "i = Adr k" "k \<notin> id_num ` set ov" "hasIdent s (Adr k)" "\<rho> (Adr k) = ?t" using c(5) Some by blast
    have k0: "k < d_mem_ref s" using Ps Some k(1) by (simp add: P_def)
    have same: "im_find1 (d_idmap s1) (Ident k t) = im_find1 (d_idmap s) (Ident k t)" for t
      using advancesD(4) [OF m(4) k0 k(2)] .
    have okd: "dom_ok E gen d" using good by (simp add: good_mem_def)
    obtain iv count a where u: "im_find1 (d_idmap s1) (Adr k) = Some iv" "getVar0 d (Cnt k) = Some count"
      "memTabReplace E iv sv count s1 g1 = Some (a, d', gen')"
      using run fs [OF r(1)] fs [OF r(2)] r(3) q Some k(1) by (auto simp: sem_store_def bindE getVar_def)
    obtain ci where ci: "im_find1 (d_idmap s1) (Cnt k) = Some ci" "count = iv_g ci"
      using u(2) same s(2) by (auto simp: getVar0_def getVar_def bindE)
    have P1: "P - id_num ` set ov = {k}" using Some k(1,2) by (auto simp: P_def)
    have hk: "hasIdent s1 (Adr k)" using u(1) by (simp add: hasIdent_iff)
    have "v1 (iv_g iv) = v (iv_g iv)" using m(2) dom_okD(5) [OF oks, of "Adr k" iv] u(1) same by simp
    then have "\<rho>1 (Adr k) = \<rho> (Adr k)"
      using models_value [OF holds_atD(1) [OF m(1)] u(1)] models_value [OF holds_atD(1) [OF h], of "Adr k" iv] u(1) same
      by (simp add: lift_apply)
    then have t1: "\<rho>1 (Adr k) = ?t" using k(4) by simp
    obtain v2 \<rho>2 where 2: "holds_at E X d' (\<lambda>j. M(?t := ?x)) R v2 \<rho>2" "good_mem E gen' d'" "advances s1 {k} d'" "g1 \<le> gen'"
      by (rule replace_last [OF m(3) hk u(1) ci(1) u(3) [unfolded ci(2)] sv1 m(1) [unfolded P1] t1])
    have "advances s UNIV d'" using advances_trans [OF m(4) 2(3)] by (simp add: advances_def)
    then show ?thesis using 2 m(5) by (auto simp: mem_covers_at)
  next
    case None
    have P1: "P - id_num ` set ov = {}" using None by (simp add: P_def)
    have ok1: "dom_ok E g1 s1" and sc1: "scalar_mem s1" using m(3) by (simp_all add: good_mem_def)
    have step: "STEP_BOT \<noteq> NO_STEP" by (simp add: STEP_BOT_def NO_STEP_def)
    obtain s2 where n: "memTabCreate E (V sa) (V sv) STEP_BOT (K 1) False s1 g1 = Some (g1, s2, g1 + 3)"
      "cell_new g1 STEP_BOT s1 (\<lambda>v. le_eval v (V sa)) (\<lambda>v. le_eval v (V sv)) (\<lambda>v. le_eval v (K 1)) s2"
      by (rule cell_create [OF ok1 sc1 step, of "V sa" "V sv" "K 1"]) (use sa1(1) sv1(1) in auto)
    obtain iv where u: "im_find1 (d_idmap s2) (Adr (d_mem_ref s2 - 1)) = Some iv"
      "store_fold E (Adr (d_mem_ref s2 - 1)) (iv_g iv) (im_pairs (d_idmap s2)) s2 (g1 + 3) = Some (d', gen')"
      using run fs [OF r(1)] fs [OF r(2)] r(3) q None n(1) by (auto simp: sem_store_def bindE getVar_def Let_def)
    have ok2: "dom_ok E (g1 + 3) s2" by (rule cell_newD(1) [OF n(2)])
    have sc2: "scalar_mem s2" by (rule new_scalar [OF sc1 n(2)])
    have x2: "iv_g iv < g1 + 3" by (rule dom_okD(5) [OF ok2 u(1)])
    note f = store_fold_ok [OF u(2) ok2 sc2 x2]
    have W: "pend M (M(?t := ?x)) {} = (\<lambda>j. M(?t := ?x))" by (rule ext) (simp add: pend_def)
    have h1: "holds_at E X s1 (\<lambda>j. M(?t := ?x)) R v1 \<rho>1" using m(1) unfolding P1 W .
    obtain v2 \<rho>2 where 2: "holds_at E X s2 (\<lambda>j. M(?t := ?x)) R v2 \<rho>2"
      by (rule new_sound [OF sc1 n(2) h1, of ?t ?x]) (use sa1 sv1 in auto)
    have nb1: "d_num_axis s1 \<noteq> -1" using m(3) by (simp add: good_mem_def)
    have fm: "im_find1 (d_idmap d') = im_find1 (d_idmap s2)" using f by simp
    have "holds_at E X d' (\<lambda>j. M(?t := ?x)) R v2 \<rho>2" using holds_cong [OF _ fm] f 2 by blast
    moreover have "good_mem E gen' d'" using f sc2 scalar_cong [OF fm] nb1 create_axis [OF n(1)] by (simp add: good_mem_def)
    moreover have "advances s2 {} d'" using f by (simp add: advances_def)
    then have "advances s (id_num ` set ov \<union> {} \<union> {}) d'" using advances_trans [OF advances_trans [OF m(4) new_advances [OF n(2)]]] by blast
    then have "advances s UNIV d'" by (simp add: advances_def)
    ultimately show ?thesis using m(5) f by (auto simp: mem_covers_at)
  qed
qed

end

subsection \<open>Loads\<close>

text \<open>
  The guard of a load: its address is tracked, and when the code takes an initial value for what
  it reads, the memory is one that nothing writes (\<open>ro\<close>) and has this value there.
\<close>

definition load_guard :: "'p env \<Rightarrow> (int \<Rightarrow> int option) \<Rightarrow> sem_inst \<Rightarrow> 'p domain \<Rightarrow> bool" where
  "load_guard E ro si d \<longleftrightarrow> hasIdent d (Reg (si_a si)) \<and>
     (case memGetInitial E (Reg (si_a si)) False d of
        Some (Some (address, value)) \<Rightarrow>
          (case getConstantIdent E d (Reg (si_a si)) of
             Some (Some (n, k)) \<Rightarrow> ro (n div k) = Some (sint value)
           | _ \<Rightarrow> False)
      | _ \<Rightarrow> True)"

definition ro_ok :: "(int \<Rightarrow> int option) \<Rightarrow> memory \<Rightarrow> bool" where
  "ro_ok ro M \<longleftrightarrow> (\<forall>a x. ro a = Some x \<longrightarrow> M a = x)"

context poly_env
begin

text \<open>The variable of a fresh register is not a constant.\<close>

lemma fresh_not_constant:
  assumes ok: "dom_ok E gen d" and v: "v \<in> wsem (e_ppl E) (d_poly d)"
  shows "getConstant E d gen = None"
proof (rule ccontr)
  assume "getConstant E d gen \<noteq> None"
  then obtain n k where c: "getConstant E d gen = Some (n, k)" by auto
  have fresh: "gen \<notin> wp_dom (d_poly d)" using dom_okD(3) [OF ok, of gen] by auto
  have w: "v(gen := x) \<in> wsem (e_ppl E) (d_poly d)" for x using wsem_upd [OF fresh] v by blast
  note s = constant_sound [OF dom_okD(2) [OF ok] c]
  have "0 * of_int k = (of_int n :: rat)" "1 * of_int k = (of_int n :: rat)" using s(2) [OF w [of 0]] s(2) [OF w [of 1]] by simp_all
  then show False using s(1) [OF v] by simp
qed

text \<open>One location of a load. The state only gains a constraint that the cell satisfies.\<close>

definition load_inv :: "'p domain \<Rightarrow> valuation \<Rightarrow> mstate \<Rightarrow> guid \<Rightarrow> 'p domain \<times> bool \<times> guid \<Rightarrow> bool" where
  "load_inv s v \<rho> gen = (\<lambda>(s', found, g). dom_ok E g s' \<and> im_find1 (d_idmap s') = im_find1 (d_idmap s) \<and>
     models E s' v (lift \<rho>) \<and> same_frame s s' \<and> d_mem_ref s' = d_mem_ref s \<and> d_num_axis s' = d_num_axis s \<and>
     gen \<le> g \<and> (\<not> found \<longrightarrow> s' = s))"

lemma load_one_sound:
  assumes run: "load_one E d la lr (i, iv) (s1, found, g) = Some y" and inv: "load_inv s v \<rho> gen (s1, found, g)"
    and d: "dom_ok E gen0 d" "scalar_mem d" "w \<in> wsem (e_ppl E) (d_poly d)"
    and f: "\<forall>k t. t \<in> set mem_types \<longrightarrow> im_find1 (d_idmap s) (Ident k t) = im_find1 (d_idmap d) (Ident k t)"
    and iv: "id_type i = ID_MEM_ADDR \<Longrightarrow> im_find1 (d_idmap d) i = Some iv \<and> w (iv_g iv) = of_int (\<rho> i)"
    and val: "v lr = of_int (M t)" "w la = of_int t" "lr < gen" and c: "cells d (\<lambda>k. M) \<rho>"
  shows "load_inv s v \<rho> gen y"
proof (cases "id_type i = ID_MEM_ADDR")
  case False
  then show ?thesis using run inv by (simp add: load_one_def)
next
  case True
  then obtain k where i: "i = Adr k" by (cases i) auto
  have hk: "hasIdent d (Adr k)" using iv [OF True] i by (auto simp: hasIdent_iff)
  obtain a b q where cell: "im_find1 (d_idmap d) (Adr k) = Some (idval_t a STEP_BOT)" "im_find1 (d_idmap d) (Val k) = Some b"
    "im_find1 (d_idmap d) (Cnt k) = Some q" by (rule scalar_cell [OF d(2) hk])
  have iva: "iv = idval_t a STEP_BOT" "w a = of_int (\<rho> (Adr k))" using iv [OF True] cell(1) i by auto
  have s1: "dom_ok E g s1" "im_find1 (d_idmap s1) = im_find1 (d_idmap s)" "models E s1 v (lift \<rho>)" "same_frame s s1"
    "d_mem_ref s1 = d_mem_ref s" "d_num_axis s1 = d_num_axis s" "gen \<le> g" "\<not> found \<longrightarrow> s1 = s"
    using inv by (simp_all add: load_inv_def)
  have gv: "getVar d i True = Some (idval_t a STEP_BOT)" "getVar0 d (Cnt k) = Some (iv_g q)"
    using cell by (simp_all add: getVar_def getVar0_def i)
  obtain must where must: "mustAlias E d la a 0 = Some must" using run gv iva(1) by (auto simp: load_one_def i bindE Let_def)
  show ?thesis
  proof (cases must)
    case False
    then have "y = (s1, found, g + 1)" using run gv iva(1) must by (simp add: load_one_def i Let_def)
    then show ?thesis using s1 dom_ok_mono [OF s1(1)] by (simp add: load_inv_def)
  next
    case True
    have bs: "im_find1 (d_idmap s1) (Val k) = Some b" using cell(2) s1(2) f by simp
    have hb: "hasIdent s1 (Val k)" "getVar0 s1 (Val k) = Some (iv_g b)" using bs by (auto simp: hasIdent_iff getVar0_ok)
    let ?c = "w_eq (V lr) (V (iv_g b))"
    have "y = (doNewConstraint E ?c s1, True, g + 1)"
      using run gv iva(1) must True hb by (simp add: load_one_def load_value_def i Let_def STEP_BOT_def NO_STEP_def)
    moreover have "wc_vars ?c \<subseteq> {..<g}"
      by (rule w_eq_vars) (use val(3) s1(7) dom_okD(5) [OF s1(1) bs] in auto)
    note con = constraint_ok [OF s1(1) this]
    moreover have "wc_sat v ?c"
    proof -
      have "w la = w a" using must_alias_sound [OF dom_okD(2) [OF d(1)] _ d(3), of la a 0] must True by simp
      then have "\<rho> (Adr k) = t" using val(2) iva(2) by simp
      then have "M t = \<rho> (Val k)" using cellsD [OF c hk] by simp
      then show ?thesis using val(1) models_value [OF s1(3) bs] by (simp add: lift_apply)
    qed
    ultimately show ?thesis
      using s1 dom_ok_mono [OF con(1)] same_frame_trans [OF s1(4) constraint_frame] by (simp add: load_inv_def)
  qed
qed

text \<open>The initial value that the code takes is the content of the memory.\<close>

lemma initial_sound:
  assumes ok: "dom_ok E gen d" and g: "load_guard E ro si d" and ro: "ro_ok ro M"
    and w: "w \<in> wsem (e_ppl E) (d_poly d)" "getVar0 d (Reg (si_a si)) = Some la" "w la = of_int t"
    and ini: "memGetInitial E (Reg (si_a si)) False s1 = Some (Some (address, value))"
    and s1: "im_find1 (d_idmap s1) = (im_find1 (d_idmap d))(Reg (si_d si) \<mapsto> idval_t gen NO_STEP)" "d_poly s1 = d_poly d"
      "d_summary s1 = d_summary d"
  shows "M t = sint value"
proof (cases "si_a si = si_d si")
  case True
  then have "getConstantIdent E s1 (Reg (si_a si)) = Some (getConstant E d gen)"
    using s1(1) getRange_cong [OF s1(2)] by (simp add: getConstantIdent_def getVar_def)
  then show ?thesis using ini fresh_not_constant [OF ok w(1)] by (simp add: memGetInitial_def)
next
  case False
  then have e: "getConstantIdent E s1 (Reg (si_a si)) = getConstantIdent E d (Reg (si_a si))"
    using s1(1) getRange_cong [OF s1(2)] by (simp add: getConstantIdent_def getVar_def)
  have "memGetInitial E (Reg (si_a si)) False s1 = memGetInitial E (Reg (si_a si)) False d"
    unfolding memGetInitial_def e s1(3) ..
  then obtain n k where c: "getConstantIdent E d (Reg (si_a si)) = Some (Some (n, k))" "ro (n div k) = Some (sint value)"
    using g ini by (auto simp: load_guard_def split: option.splits)
  have "getConstant E d la = Some (n, k)" using c(1) w(2) by (auto simp: getConstantIdent_def getVar_def getVar0_reg bindE)
  note k = constant_sound [OF dom_okD(2) [OF ok] this w(1)]
  have "(of_int (t * k) :: rat) = of_int n" using k(2) w(3) by simp
  then have "t * k = n" by (simp only: of_int_eq_iff)
  then have "n div k = t" using k(1) by auto
  then show ?thesis using c(2) ro by (simp add: ro_ok_def)
qed

lemma load_sound:
  assumes good: "good_mem E gen d" and run: "sem_load E si d s gen = Some (d', gen')" and copy: "dom_copy d = Some s"
    and g: "load_guard E ro si d" and cov: "mem_covers E X d R M" and ro: "ro_ok ro M"
  shows "mem_covers E X d' (R(Reg (si_d si) := M (R (Reg (si_a si))))) M \<and> good_mem E gen' d' \<and> gen \<le> gen' \<and> same_frame d d'"
proof -
  let ?t = "R (Reg (si_a si))" and ?r = "Reg (si_d si)" let ?R = "R(?r := M ?t)"
  note c = good_copy [OF good copy]
  have ok: "dom_ok E gen d" and sc: "scalar_mem d" using good by (simp_all add: good_mem_def)
  have oks: "dom_ok E gen s" and nbs: "d_num_axis s \<noteq> -1" and scs: "scalar_mem s" using c(1) by (simp_all add: good_mem_def)
  obtain w \<rho>0 where h0: "holds_at E X d (\<lambda>k. M) R w \<rho>0" using cov by (auto simp: mem_covers_at)
  note hd = holds_atD [OF h0]
  obtain la where la: "getVar0 s (Reg (si_a si)) = Some la" "getVar0 d (Reg (si_a si)) = Some la"
    using run c(2) by (auto simp: sem_load_def bindE getVar0_reg)
  obtain iva where iva: "im_find1 (d_idmap d) (Reg (si_a si)) = Some iva" "la = iv_g iva" using la(2) by (auto simp: getVar0_reg)
  have wla: "w la = of_int ?t" "la < gen"
    using models_value [OF hd(1) iva(1)] hd(3) dom_okD(5) [OF ok iva(1)] iva(2) by (simp_all add: lift_apply agrees_def)
  obtain s1 where s1: "varNew ?r NO_STEP True s gen = Some (gen, s1, gen + 1)" "dom_ok E (gen + 1) s1"
    "im_find1 (d_idmap s1) = (im_find1 (d_idmap s))(?r \<mapsto> idval_t gen NO_STEP)" "d_poly s1 = d_poly s"
    by (rule varNew_ok [OF oks, of ?r NO_STEP True]) auto
  note f1 = s1(3) [unfolded c(2)] note p1 = s1(4) [unfolded c(3)]
  have r1: "d_mem_ref s1 = d_mem_ref d" "d_num_axis s1 \<noteq> -1" "same_frame d s1" "d_summary s1 = d_summary d"
    using varNew_mem_ref [OF s1(1)] varNew_axis [OF s1(1)] nbs varNew_frame(1,3) [OF s1(1)] same_frame_trans [OF c(5)] c(6) copy
    by (auto simp: dom_copy_def bindE)
  have sc1: "scalar_mem s1"
    by (rule scalar_same [OF sc _ _ r1(1)]) (auto simp: hasIdent_iff f1 split: if_splits)
  let ?v = "w(gen := of_int (M ?t))" and ?\<rho> = "\<rho>0(?r := M ?t)"
  have fresh: "gen \<notin> wp_dom (d_poly d)" using dom_okD(3) [OF ok, of gen] by auto
  have ne: "iv_g iv \<noteq> gen" if "im_find1 (d_idmap d) j = Some iv" for j iv using dom_okD(5) [OF ok that] by simp
  have m1: "models E s1 ?v (lift ?\<rho>)"
    using hd(1) wsem_upd [OF fresh, of w] ne by (auto simp: models_def f1 p1 split: if_splits)
  have cells: "cells d (\<lambda>k. M) ?\<rho>" using hd(4) by (simp add: cells_def)
  have agr: "agrees ?\<rho> ?R" using hd(3) by (simp add: agrees_def)
  have cnt: "counters_in X d ?\<rho>" using hd(2) by simp
  have mf: "\<forall>k t. t \<in> set mem_types \<longrightarrow> im_find1 (d_idmap s1) (Ident k t) = im_find1 (d_idmap d) (Ident k t)"
    by (auto simp: f1)
  have final: "mem_covers E X s' ?R M"
    if "models E s' v' (lift ?\<rho>)" "im_find1 (d_idmap s') = im_find1 (d_idmap s1)" "same_frame d s'" for s' v'
  proof -
    have "cells s' (\<lambda>k. M) ?\<rho>" using cells mf that(2) by (simp add: cells_def hasIdent_iff)
    then have "holds_at E X s' (\<lambda>k. M) ?R v' ?\<rho>" using that agr cnt counters_frame [OF that(3)] by (simp add: holds_at_def)
    then show ?thesis by (auto simp: mem_covers_at)
  qed
  obtain s2 found g2 where q: "foldM (load_one E d la gen) (im_pairs (d_idmap s1)) (s1, False, gen + 1) = Some (s2, found, g2)"
    using run la(1) s1(1) by (auto simp: sem_load_def bindE)
  have inv: "load_inv s1 ?v ?\<rho> (gen + 1) (s2, found, g2)"
    using q
  proof (rule foldM_invariant)
    show "load_inv s1 ?v ?\<rho> (gen + 1) (s1, False, gen + 1)" using s1(2) m1 by (simp add: load_inv_def)
    fix x y z
    assume x: "x \<in> set (im_pairs (d_idmap s1))" and y: "load_inv s1 ?v ?\<rho> (gen + 1) y" and step: "load_one E d la gen x y = Some z"
    obtain i iv s' fd g' where e: "x = (i, iv)" "y = (s', fd, g')" by (cases x, cases y)
    have i: "im_find1 (d_idmap s1) i = Some iv" using x e(1) im_pairs_iff [OF dom_okD(1) [OF s1(2)]] by simp
    have iv: "im_find1 (d_idmap d) i = Some iv \<and> w (iv_g iv) = of_int (?\<rho> i)" if "id_type i = ID_MEM_ADDR"
    proof -
      have "im_find1 (d_idmap d) i = Some iv" "i \<noteq> ?r" using i that by (auto simp: f1 split: if_splits)
      then show ?thesis using models_value [OF hd(1)] by (simp add: lift_apply)
    qed
    have w: "w \<in> wsem (e_ppl E) (d_poly d)" using hd(1) by (simp add: models_def)
    show "load_inv s1 ?v ?\<rho> (gen + 1) z"
      by (rule load_one_sound [OF step [unfolded e] y [unfolded e(2)] ok sc w mf iv _ wla(1) _ cells]) simp_all
  qed
  have l: "dom_ok E g2 s2" "im_find1 (d_idmap s2) = im_find1 (d_idmap s1)" "models E s2 ?v (lift ?\<rho>)" "same_frame d s2"
    "d_mem_ref s2 = d_mem_ref s1" "d_num_axis s2 = d_num_axis s1" "gen + 1 \<le> g2" "\<not> found \<longrightarrow> s2 = s1"
    using inv same_frame_trans [OF r1(3)] by (auto simp: load_inv_def)
  have sc2: "scalar_mem s2" using sc1 scalar_cong [OF l(2,5)] by simp
  show ?thesis
  proof (cases found)
    case True
    then have "d' = s2" "gen' = g2" using run la(1) s1(1) q by (auto simp: sem_load_def)
    then show ?thesis using final [OF l(3,2,4)] l(1,4,6,7) sc2 r1(2) by (simp add: good_mem_def)
  next
    case False
    have e2: "s2 = s1" using l(8) False by simp
    have good1: "good_mem E g2 s1" using l(1) sc1 r1(2) by (simp add: good_mem_def e2)
    have h1: "holds_at E X s1 (\<lambda>k. M) ?R ?v ?\<rho>"
      using m1 agr cnt counters_frame [OF r1(3)] cells mf by (simp add: holds_at_def cells_def hasIdent_iff)
    have step: "STEP_BOT \<noteq> NO_STEP" by (simp add: STEP_BOT_def NO_STEP_def)
    have la2: "la < g2" "gen < g2" using wla(2) l(7) by simp_all
    obtain s3 where n: "memTabCreate E (V la) (V gen) STEP_BOT (K 1) False s1 g2 = Some (g2, s3, g2 + 3)"
      "cell_new g2 STEP_BOT s1 (\<lambda>v. le_eval v (V la)) (\<lambda>v. le_eval v (V gen)) (\<lambda>v. le_eval v (K 1)) s3"
      by (rule cell_create [OF _ sc1 step, of g2 "V la" "V gen" "K 1"]) (use l(1) e2 la2 in auto)
    have la0: "la \<noteq> gen" using wla(2) by simp
    obtain v3 \<rho>3 where h3: "holds_at E X s3 (\<lambda>k. M) ?R v3 \<rho>3" "\<forall>g < g2. v3 g = ?v g"
      by (rule new_sound [OF sc1 n(2) h1, of ?t "M ?t"]) (use wla(1) la0 in simp_all)
    have good3: "good_mem E (g2 + 3) s3"
      using cell_newD(1) [OF n(2)] new_scalar [OF sc1 n(2)] create_axis [OF n(1)] r1(2) by (simp add: good_mem_def)
    have fr3: "same_frame d s3" by (rule same_frame_trans [OF r1(3) cell_newD(4) [OF n(2)]])
    obtain ini where ini: "memGetInitial E (Reg (si_a si)) False s1 = Some ini"
      using run la(1) s1(1) q False e2 by (auto simp: sem_load_def bindE)
    show ?thesis
    proof (cases ini)
      case None
      then have "d' = s3" "gen' = g2 + 3" using run la(1) s1(1) q False e2 ini n(1) by (auto simp: sem_load_def)
      then show ?thesis using h3 good3 fr3 l(7) by (auto simp: mem_covers_at)
    next
      case (Some av)
      obtain address val where av: "av = (address, val)" by (cases av)
      have w: "w \<in> wsem (e_ppl E) (d_poly d)" using hd(1) by (simp add: models_def)
      have mt: "M ?t = sint val"
        by (rule initial_sound [OF ok g ro w la(2) wla(1) ini [unfolded Some av] f1 p1 r1(4)])
      let ?c = "w_eq (V gen) (K (sint val))"
      have fin: ?thesis if b: "d' = doNewConstraint E ?c b" "good_mem E gen' b" "holds_at E X b (\<lambda>k. M) ?R vb \<rho>b"
        "same_frame d b" "g2 \<le> gen'" "vb gen = of_int (M ?t)" for b vb \<rho>b
      proof -
        have okb: "dom_ok E gen' b" using b(2) by (simp add: good_mem_def)
        have vs: "wc_vars ?c \<subseteq> {..<gen'}" by (rule w_eq_vars) (use la2(2) b(5) in auto)
        note con = constraint_ok [OF okb vs]
        have "models E d' vb (lift \<rho>b)" using holds_atD(1) [OF b(3)] con(2) b(1,6) mt by simp
        moreover have fb: "im_find1 (d_idmap d') = im_find1 (d_idmap b)" "d_mem_ref d' = d_mem_ref b" "same_frame b d'"
          using con(3) by (simp_all add: b(1))
        ultimately have "holds_at E X d' (\<lambda>k. M) ?R vb \<rho>b"
          using b(3) counters_frame [OF fb(3)] fb(1) by (simp add: holds_at_def cells_def hasIdent_iff)
        moreover have "good_mem E gen' d'" using b(2) con(1,4) scalar_cong [OF fb(1,2)] by (simp add: good_mem_def b(1))
        ultimately show ?thesis using same_frame_trans [OF b(4) fb(3)] b(5) l(7) by (auto simp: mem_covers_at)
      qed
      show ?thesis
      proof (cases "case e_segment_at E address of Some sg \<Rightarrow> seg_writable sg | None \<Rightarrow> False")
        case True
        then have "d' = doNewConstraint E ?c s3" "gen' = g2 + 3"
          using run la(1) s1(1) q False e2 ini Some av n(1) by (auto simp: sem_load_def)
        then show ?thesis using fin [of s3 v3 \<rho>3] good3 h3 fr3 la2 by simp
      next
        case nw: False
        then have "d' = doNewConstraint E ?c s1" "gen' = g2"
          using run la(1) s1(1) q False e2 ini Some av by (auto simp: sem_load_def)
        then show ?thesis using fin [of s1 ?v ?\<rho>] good1 h1 r1(3) by simp
      qed
    qed
  qed
qed

text \<open>The instruction.\<close>

lemma store_inst:
  assumes "good_mem E gen d" and "si_op si = STORE" and "onSemInst E si d gen = Some (d', gen')"
    and "store_guard E si d" and "mem_covers E X d R M"
  shows "mem_covers E X d' R (M(R (Reg (si_a si)) := R (Reg (si_d si)))) \<and> good_mem E gen' d' \<and> gen \<le> gen'"
proof -
  obtain s where s: "dom_copy d = Some s" "sem_store E si d s gen = Some (d', gen')"
    using assms(2,3) by (auto simp: onSemInst_def bindE binary_ops_def)
  from store_sound [OF assms(1) s(2,1) assms(4,5)] show ?thesis by simp
qed

end

end
