(* ===== verification/Memory_Blocks.thy ===== *)
theory Memory_Blocks
  imports Memory_Sound
begin

text \<open>
  Instructions and basic blocks of a machine with memory. \<open>mem_step\<close> is one instruction, the
  memory in \<open>ro\<close> is never written. The guards of loads and stores are checked along the code
  (\<open>mem_tracked\<close>). What follows the instructions of a block (temporaries and dead registers
  are forgotten, avatars removed, locations counted) keeps what the state stands for.
\<close>

inductive mem_step :: "(int \<Rightarrow> int option) \<Rightarrow> sem_inst \<Rightarrow> mstate \<times> memory \<Rightarrow> mstate \<times> memory \<Rightarrow> bool" for ro where
  load: "si_op si = LOAD \<Longrightarrow> mem_step ro si (R, M) (R(Reg (si_d si) := M (R (Reg (si_a si)))), M)"
| store: "si_op si = STORE \<Longrightarrow> ro (R (Reg (si_a si))) = None \<Longrightarrow>
    mem_step ro si (R, M) (R, M(R (Reg (si_a si)) := R (Reg (si_d si))))"
| reg: "supported si \<Longrightarrow> inst_step si R R' \<Longrightarrow> mem_step ro si (R, M) (R', M)"

inductive mem_steps :: "(int \<Rightarrow> int option) \<Rightarrow> sem_inst list \<Rightarrow> mstate \<times> memory \<Rightarrow> mstate \<times> memory \<Rightarrow> bool" for ro where
  none: "mem_steps ro [] x x"
| more: "mem_step ro si x y \<Longrightarrow> mem_steps ro sis y z \<Longrightarrow> mem_steps ro (si # sis) x z"

inductive_cases mem_steps_nilE: "mem_steps ro [] x y"
inductive_cases mem_steps_consE: "mem_steps ro (si # sis) x z"

lemma mem_steps_append: "mem_steps ro (xs @ ys) a c \<longleftrightarrow> (\<exists>b. mem_steps ro xs a b \<and> mem_steps ro ys b c)"
proof (induction xs arbitrary: a)
  case (Cons x xs)
  then show ?case by (metis append_Cons mem_steps.more mem_steps_consE)
qed (auto intro: mem_steps.none elim: mem_steps_nilE)

definition mem_guard :: "'p env \<Rightarrow> (int \<Rightarrow> int option) \<Rightarrow> sem_inst \<Rightarrow> 'p domain \<Rightarrow> bool" where
  "mem_guard E ro si d \<longleftrightarrow>
     (if si_op si = LOAD then load_guard E ro si d
      else if si_op si = STORE then store_guard E si d
      else supported si \<and> list_all (hasIdent d) (reads si))"

fun mem_tracked :: "'p env \<Rightarrow> (int \<Rightarrow> int option) \<Rightarrow> sem_inst list \<Rightarrow> 'p domain \<times> guid \<Rightarrow> bool" where
  "mem_tracked E ro [] x = True"
| "mem_tracked E ro (si # sis) (s, gen) \<longleftrightarrow> mem_guard E ro si s \<and>
     (case onSemInst E si s gen of None \<Rightarrow> True | Some y \<Rightarrow> mem_tracked E ro sis y)"

fun mem_insts_tracked :: "'p env \<Rightarrow> (int \<Rightarrow> int option) \<Rightarrow> sem_inst list list \<Rightarrow> 'p domain \<times> guid \<Rightarrow> bool" where
  "mem_insts_tracked E ro [] x = True"
| "mem_insts_tracked E ro (sem # insts) x \<longleftrightarrow> mem_tracked E ro sem x \<and>
     (case process_inst E sem x of None \<Rightarrow> True | Some y \<Rightarrow> mem_insts_tracked E ro insts y)"

text \<open>A register instruction leaves the memory identifiers of a state alone.\<close>

lemma inst_step_agrees:
  assumes "inst_step si R R'" and a: "agrees \<rho> R" and s: "supported si"
  obtains \<rho>' where "inst_step si \<rho> \<rho>'" and "agrees \<rho>' R'" and "\<forall>i :: ident. id_type i \<in> set mem_types \<longrightarrow> \<rho>' i = \<rho> i"
proof -
  have r: "\<rho> (Reg k) = R (Reg k)" for k using a by (simp add: agrees_def)
  then have v: "int_value si \<rho> = int_value si R" by (simp add: int_value_def)
  show thesis
  proof (cases "si_op si \<in> {NOP, CONT, BRANCH, IF}")
    case True
    then have "inst_step si \<rho> \<rho>" "R' = R" using assms(1) by (simp_all add: inst_step_def)
    then show thesis using that [of \<rho>] a by simp
  next
    case False
    let ?i = "Reg (si_d si)" let ?\<rho> = "\<rho>(?i := R' ?i)"
    have R': "R' = R(?i := R' ?i)" using assms(1) False by (auto simp: inst_step_def split: if_splits)
    have "inst_step si \<rho> ?\<rho>"
    proof (cases "si_op si \<in> {AND_OP, OR_OP, XOR_OP}")
      case True
      then show ?thesis using False by (simp add: inst_step_def)
    next
      case nb: False
      then have "R' ?i = int_value si \<rho>" using assms(1) False v by (auto simp: inst_step_def)
      then show ?thesis using False nb by (simp add: inst_step_def)
    qed
    moreover have "agrees ?\<rho> R'"
      unfolding agrees_def
    proof (intro allI impI)
      fix j :: ident
      assume "id_type j \<notin> set mem_types"
      then show "?\<rho> j = R' j" using a R' by (cases "j = ?i") (simp_all add: agrees_def, metis fun_upd_other)
    qed
    ultimately show thesis by (rule that) auto
  qed
qed

context poly_env
begin

lemma mem_inst_sound:
  assumes step: "mem_step ro si x y" and x: "x = (R, M)" and y: "y = (R', M')"
    and good: "good_mem E gen d" and run: "onSemInst E si d gen = Some (d', gen')" and g: "mem_guard E ro si d"
    and cov: "mem_covers E X d R M" and ro: "ro_ok ro M"
  shows "mem_covers E X d' R' M' \<and> good_mem E gen' d' \<and> gen \<le> gen' \<and> ro_ok ro M'"
  using step
proof cases
  case (load R0 M0)
  obtain s where s: "dom_copy d = Some s" "sem_load E si d s gen = Some (d', gen')"
    using run load(3) by (auto simp: onSemInst_def bindE binary_ops_def)
  have "load_guard E ro si d" using g load(3) by (simp add: mem_guard_def)
  from load_sound [OF good s(2,1) this cov ro] show ?thesis using load(1,2) x y ro by simp
next
  case (store R0 M0)
  have "store_guard E si d" using g store(3) by (simp add: mem_guard_def)
  from store_inst [OF good store(3) run this cov] have "mem_covers E X d' R' M' \<and> good_mem E gen' d' \<and> gen \<le> gen'"
    using store(1,2) x y by simp
  moreover have "ro_ok ro M'" using ro store x y by (auto simp: ro_ok_def)
  ultimately show ?thesis by simp
next
  case (reg R0 R0' M0)
  have e: "inst_step si R R'" "M' = M" "supported si" using reg x y by simp_all
  have ok: "dom_ok E gen d" and sc: "scalar_mem d" using good by (simp_all add: good_mem_def)
  have rd: "\<forall>i \<in> set (reads si). hasIdent d i" using g e(3) by (auto simp: mem_guard_def supported_def list_all_iff)
  note a = inst_sound [OF ok e(3) rd run, unfolded after_inst_def]
  obtain \<rho> where \<rho>: "covers E X d \<rho>" "agrees \<rho> R" "cells d (\<lambda>k. M) \<rho>" using cov by (auto simp: mem_covers_def)
  obtain \<rho>' where \<rho>': "inst_step si \<rho> \<rho>'" "agrees \<rho>' R'" "\<forall>i :: ident. id_type i \<in> set mem_types \<longrightarrow> \<rho>' i = \<rho> i"
    by (rule inst_step_agrees [OF e(1) \<rho>(2) e(3)])
  have f: "im_find1 (d_idmap d') i = im_find1 (d_idmap d) i" if "id_type i \<in> set mem_types" for i :: ident
  proof -
    have "i \<noteq> Reg (si_d si)" using that by auto
    then show ?thesis using a by blast
  qed
  have h: "hasIdent d' (Adr k) = hasIdent d (Adr k)" for k unfolding hasIdent_iff by (simp add: f)
  have ax: "d_mem_ref d' = d_mem_ref d" "d_num_axis d' = d_num_axis d" using a by blast+
  have "scalar_ident d' (i, iv)" if iv: "im_find1 (d_idmap d') i = Some iv" for i :: ident and iv
  proof (cases "id_type i \<in> set mem_types")
    case True
    then have "scalar_ident d (i, iv)" using sc iv f by (simp add: scalar_mem_def)
    moreover have "hasIdent d' j = hasIdent d j" if "j \<in> set (cell_ids k)" for j k
      using that f unfolding hasIdent_iff by (auto simp: cell_ids_def)
    ultimately show ?thesis by (auto simp: scalar_ident_def ax list_all_iff)
  qed (simp add: scalar_ident_def)
  then have "scalar_mem d'" by (simp add: scalar_mem_def)
  then have "good_mem E gen' d'" using a good ax by (simp add: good_mem_def)
  moreover have "cells d' (\<lambda>k. M) \<rho>'" using \<rho>(3) \<rho>'(3) by (simp add: cells_def h)
  moreover have "covers E X d' \<rho>'" using a \<rho>(1) \<rho>'(1) by blast
  ultimately show ?thesis using a \<rho>'(2) e(2) ro by (auto simp: mem_covers_def)
qed

subsection \<open>Sequences\<close>

text \<open>\<open>mem_keeps\<close>: going from one state to another, nothing is lost.\<close>

definition mem_keeps :: "guid \<Rightarrow> 'p domain \<Rightarrow> int set \<Rightarrow> mstate \<Rightarrow> memory \<Rightarrow> bool" where
  "mem_keeps gen d X R M \<longleftrightarrow> good_mem E gen d \<and> mem_covers E X d R M"

lemma mem_sems_sound:
  assumes "foldM (\<lambda>si (s, gen). onSemInst E si s gen) sem (s, gen) = Some (s', gen')"
    and "mem_keeps gen s X R M" and "mem_tracked E ro sem (s, gen)" and "ro_ok ro M" and "mem_steps ro sem (R, M) (R', M')"
  shows "mem_keeps gen' s' X R' M' \<and> gen \<le> gen' \<and> ro_ok ro M'"
  using assms
proof (induction sem arbitrary: s gen R M)
  case Nil
  then show ?case by (auto elim: mem_steps_nilE)
next
  case (Cons si sem)
  obtain s1 gen1 where r: "onSemInst E si s gen = Some (s1, gen1)"
    "foldM (\<lambda>si (s, gen). onSemInst E si s gen) sem (s1, gen1) = Some (s', gen')"
    using Cons.prems(1) by (auto simp: bindE)
  obtain R1 M1 where st: "mem_step ro si (R, M) (R1, M1)" "mem_steps ro sem (R1, M1) (R', M')"
    using Cons.prems(5) by (auto elim: mem_steps_consE)
  have g: "mem_guard E ro si s" "mem_tracked E ro sem (s1, gen1)" using Cons.prems(3) r(1) by auto
  have k: "good_mem E gen s" "mem_covers E X s R M" using Cons.prems(2) by (simp_all add: mem_keeps_def)
  have 1: "mem_covers E X s1 R1 M1 \<and> good_mem E gen1 s1 \<and> gen \<le> gen1 \<and> ro_ok ro M1"
    by (rule mem_inst_sound [OF st(1) refl refl k(1) r(1) g(1) k(2) Cons.prems(4)])
  then have "mem_keeps gen1 s1 X R1 M1" by (simp add: mem_keeps_def)
  from Cons.IH [OF r(2) this g(2) _ st(2)] 1 show ?case by auto
qed

lemma mem_kill:
  assumes "foldM varKillIdent js d = Some d'" and "mem_keeps gen d X R M" and "\<forall>i \<in> set js. id_type i = ID_REG"
  shows "mem_keeps gen d' X R M"
  using assms(1)
proof (rule foldM_invariant)
  show "mem_keeps gen d X R M" by (rule assms(2))
  fix i s s'
  assume i: "i \<in> set js" and s: "mem_keeps gen s X R M" and k: "varKillIdent i s = Some s'"
  have g: "dom_ok E gen s" "scalar_mem s" "d_num_axis s \<noteq> -1" using s by (simp_all add: mem_keeps_def good_mem_def)
  note one = kill_one [OF g(1) k]
  have t: "id_type i = ID_REG" using assms(3) i by blast
  obtain iv where iv: "varKill iv s = Some s'" using k by (auto simp: varKillIdent_def bindE)
  have ref: "d_mem_ref s' = d_mem_ref s" "same_frame s s'" "d_num_axis s' = d_num_axis s"
    using varKill_rest [OF iv] kill_axis(1) [OF iv] by simp_all
  have f: "im_find1 (d_idmap s') j = im_find1 (d_idmap s) j" if "id_type j \<in> set mem_types" for j :: ident
    using that t by (auto simp: one(2))
  have h: "hasIdent s' j = hasIdent s j" if "id_type j \<in> set mem_types" for j :: ident
    using f [OF that] by (simp add: hasIdent_iff)
  have "scalar_ident s' (j, iv)" if jv: "im_find1 (d_idmap s') j = Some iv" for j :: ident and iv
  proof (cases "id_type j \<in> set mem_types")
    case True
    then have "scalar_ident s (j, iv)" using g(2) jv f by (simp add: scalar_mem_def)
    then show ?thesis using h by (auto simp: scalar_ident_def ref cell_ids_def)
  qed (simp add: scalar_ident_def)
  then have sc: "scalar_mem s'" by (simp add: scalar_mem_def)
  obtain v \<rho> where a: "holds_at E X s (\<lambda>k. M) R v \<rho>" using s by (auto simp: mem_keeps_def mem_covers_at)
  have "models E s' v (lift \<rho>)" using holds_atD(1) [OF a] one(2,3) by (simp add: models_def)
  moreover have "cells s' (\<lambda>k. M) \<rho>" using holds_atD(4) [OF a] h by (simp add: cells_def)
  ultimately have "holds_at E X s' (\<lambda>k. M) R v \<rho>" using a counters_frame [OF ref(2)] by (simp add: holds_at_def)
  then show "mem_keeps gen s' X R M" using one(1) sc g(3) ref(3) by (auto simp: mem_keeps_def mem_covers_at good_mem_def)
qed

lemma mem_finalize:
  assumes run: "doFinalizeUpdate E d = Some d'" and k: "mem_keeps gen d X R M"
  shows "mem_keeps gen d' X R M"
proof -
  obtain v \<rho> where a: "holds_at E X d (\<lambda>k. M) R v \<rho>" using k by (auto simp: mem_keeps_def mem_covers_at)
  have g: "dom_ok E gen d" "scalar_mem d" "d_num_axis d \<noteq> -1" using k by (simp_all add: mem_keeps_def good_mem_def)
  have nb: "\<not> isBottom E d" using holds_atD(1) [OF a] g(3) empty_sound by (auto simp: isBottom_def models_def)
  have "\<exists>d1. doFinalizeUpdate E d = Some d1 \<and> dom_ok E gen d1 \<and> (\<forall>v \<rho>. models E d v \<rho> \<longrightarrow> models E d1 v \<rho>) \<and>
      im_find1 (d_idmap d1) = im_find1 (d_idmap d) \<and> d_num_axis d1 = d_num_axis d"
    by (rule finalize_ok [OF g(1)]) (use nb in blast)
  then have d': "dom_ok E gen d'" "\<And>v \<rho>. models E d v \<rho> \<Longrightarrow> models E d' v \<rho>" "im_find1 (d_idmap d') = im_find1 (d_idmap d)"
    "d_num_axis d' = d_num_axis d" using run by auto
  have fr: "same_frame d d'" "d_mem_ref d' = d_mem_ref d"
    using run nb by (auto simp: doFinalizeUpdate_def bindE same_frame_def)
  have "holds_at E X d' (\<lambda>k. M) R v \<rho>"
    using a d'(2,3) counters_frame [OF fr(1)] by (simp add: holds_at_def cells_def hasIdent_iff)
  then show ?thesis using d'(1,4) g scalar_cong [OF d'(3) fr(2)] by (auto simp: mem_keeps_def mem_covers_at good_mem_def)
qed

lemma mem_process_inst:
  assumes run: "process_inst E sem (s, gen) = Some (s', gen')" and k: "mem_keeps gen s X R M"
    and tr: "mem_tracked E ro sem (s, gen)" and ro: "ro_ok ro M" and st: "mem_steps ro sem (R, M) (R', M')"
  shows "mem_keeps gen' s' X R' M' \<and> gen \<le> gen' \<and> ro_ok ro M'"
proof -
  obtain s1 s2 where r: "foldM (\<lambda>si (s, gen). onSemInst E si s gen) sem (s, gen) = Some (s1, gen')"
    "doKillTemporaries s1 = Some s2" "doFinalizeUpdate E s2 = Some s'" using run by (auto simp: process_inst_def bindE)
  note a = mem_sems_sound [OF r(1) k tr ro st]
  have "mem_keeps gen' s2 X R' M'"
    by (rule mem_kill [OF r(2) [unfolded doKillTemporaries_def]]) (use a in auto)
  then show ?thesis using mem_finalize [OF r(3)] a by blast
qed

lemma mem_insts_sound:
  assumes "foldM (process_inst E) insts (s, gen) = Some (s', gen')" and "mem_keeps gen s X R M"
    and "mem_insts_tracked E ro insts (s, gen)" and "ro_ok ro M" and "mem_steps ro (concat insts) (R, M) (R', M')"
  shows "mem_keeps gen' s' X R' M' \<and> gen \<le> gen'"
  using assms
proof (induction insts arbitrary: s gen R M)
  case Nil
  then show ?case by (auto elim: mem_steps_nilE)
next
  case (Cons sem insts)
  obtain s1 gen1 where r: "process_inst E sem (s, gen) = Some (s1, gen1)" "foldM (process_inst E) insts (s1, gen1) = Some (s', gen')"
    using Cons.prems(1) by (auto simp: bindE)
  have tr: "mem_tracked E ro sem (s, gen)" "mem_insts_tracked E ro insts (s1, gen1)" using Cons.prems(3) r(1) by auto
  obtain R1 M1 where st: "mem_steps ro sem (R, M) (R1, M1)" "mem_steps ro (concat insts) (R1, M1) (R', M')"
    using Cons.prems(5) by (auto simp: mem_steps_append)
  have 1: "mem_keeps gen1 s1 X R1 M1 \<and> gen \<le> gen1 \<and> ro_ok ro M1"
    by (rule mem_process_inst [OF r(1) Cons.prems(2) tr(1) Cons.prems(4) st(1)])
  from Cons.IH [OF r(2) _ tr(2) _ st(2)] 1 show ?case by fastforce
qed

subsection \<open>The end of a block\<close>

lemma scalar_has_value:
  assumes "scalar_mem d" and "dom_ok E gen d" and "i \<in> set (map fst (im_pairs (d_idmap d)))" and "id_type i = ID_MEM_ADDR"
  shows "hasIdent d (Val (id_num i))"
proof -
  obtain k where i: "i = Adr k" using assms(4) by (cases i) auto
  obtain iv where "im_find1 (d_idmap d) (Adr k) = Some iv"
    using assms(3) im_pairs_iff [OF dom_okD(1) [OF assms(2)]] i by auto
  then have "hasIdent d (Adr k)" by (auto simp: hasIdent_iff)
  then show ?thesis using scalar_cell [OF assms(1)] i by (metis hasIdent_iff ident.select_convs(1))
qed

lemma mem_avatars:
  assumes ok: "dom_ok E gen d" and sc: "scalar_mem d" and run: "doRemoveUselessAvatars E d = Some d'"
  shows "d' = d"
proof -
  have "foldM (useless_avatar E) is (d, []) = Some (d, [])" if "set is \<subseteq> set (map fst (im_pairs (d_idmap d)))" for "is"
    using that
  proof (induction "is")
    case (Cons i js)
    have "useless_avatar E i (d, []) = Some (d, [])"
      using scalar_has_value [OF sc ok] Cons.prems by (auto simp: useless_avatar_def Let_def)
    then show ?case using Cons by simp
  qed simp
  then show ?thesis using run by (simp add: doRemoveUselessAvatars_def)
qed

text \<open>The parts of a state that counting its locations changes are the dimensions of its polyhedron.\<close>

definition counted :: "guid \<Rightarrow> 'p domain \<Rightarrow> 'p domain \<Rightarrow> bool" where
  "counted gen d d' \<longleftrightarrow> dom_ok E gen d' \<and> models E d' = models E d \<and> d_idmap d' = d_idmap d \<and> same_frame d d' \<and>
     d_mem_ref d' = d_mem_ref d \<and> d_num_axis d' = d_num_axis d"

lemma count_counted:
  assumes "count_ident E i (d1, c) = Some (d2, c2)" and "counted gen d d1"
  shows "counted gen d d2"
proof (cases "id_type i = ID_MEM_ADDR \<and> hasIdent d1 (Val (id_num i))")
  case False
  then have "d2 = d1" using assms(1) by (auto simp: count_ident_def bindE Let_def split: if_splits)
  then show ?thesis using assms(2) by simp
next
  case True
  then obtain g where g1: "getVar0 d1 (Cnt (id_num i)) = Some g" using assms(1) by (auto simp: count_ident_def bindE Let_def)
  obtain b d3 where q: "poly_implies E (w_eq (V g) (K 1)) d1 = (b, d3)" by (cases "poly_implies E (w_eq (V g) (K 1)) d1")
  have "d3 = d2" using assms(1) True g1 q by (simp add: count_ident_def Let_def)
  note g = g1 q [unfolded this]
  have ok: "dom_ok E gen d1" using assms(2) by (simp add: counted_def)
  have "g < gen" using g(1) dom_okD(5) [OF ok] by (auto simp: getVar0_def getVar_def bindE)
  then have "wc_vars (w_eq (V g) (K 1)) \<subseteq> {..<gen}" by (intro w_eq_vars) auto
  note i = implies_ok [OF ok this g(2)]
  show ?thesis using assms(2) i same_frame_trans [OF _ i(4)] by (simp add: counted_def)
qed

lemma mem_list:
  assumes run: "listMemoryVariables E d = Some d'" and k: "mem_keeps gen d X R M"
  shows "mem_keeps gen d' X R M"
proof -
  have g: "dom_ok E gen d" "scalar_mem d" using k by (simp_all add: mem_keeps_def good_mem_def)
  obtain d0 d1 c c' where r: "doRemoveUselessAvatars E d = Some d0" "doFinalizeUpdate E d0 = Some d1"
    "foldM (count_ident E) (map fst (im_pairs (d_idmap d1))) (d1, c) = Some (d', c')"
    using run by (auto simp: listMemoryVariables_def bindE)
  have "d0 = d" by (rule mem_avatars [OF g r(1)])
  then have k1: "mem_keeps gen d1 X R M" using mem_finalize [OF _ k] r(2) by simp
  then have g1: "dom_ok E gen d1" "scalar_mem d1" "d_num_axis d1 \<noteq> -1" by (simp_all add: mem_keeps_def good_mem_def)
  have "counted gen d1 (fst (d', c'))"
    using r(3)
  proof (rule foldM_invariant)
    show "counted gen d1 (fst (d1, c))" using g1(1) by (simp add: counted_def)
    show "counted gen d1 (fst y')" if "counted gen d1 (fst y)" "count_ident E i y = Some y'" for i y y'
      using count_counted [of i "fst y" "snd y" "fst y'" "snd y'" gen d1] that by simp
  qed
  then have e: "dom_ok E gen d'" "models E d' = models E d1" "d_idmap d' = d_idmap d1" "same_frame d1 d'"
    "d_mem_ref d' = d_mem_ref d1" "d_num_axis d' = d_num_axis d1" by (simp_all add: counted_def)
  obtain v \<rho> where "holds_at E X d1 (\<lambda>k. M) R v \<rho>" using k1 by (auto simp: mem_keeps_def mem_covers_at)
  then have "holds_at E X d' (\<lambda>k. M) R v \<rho>" using holds_cong [OF e(2) _ e(4)] e(3) by simp
  then show ?thesis
    using e(1,6) g1 scalar_cong [of d' d1] e(3,5) by (auto simp: mem_keeps_def mem_covers_at good_mem_def)
qed

lemma memory_block_sound:
  assumes run: "process_basic E insts live s an = Some (s', an')" and good: "good_mem E (an_gen an) s"
    and tr: "mem_insts_tracked E ro insts (s, an_gen an)" and ro: "ro_ok ro M"
    and cov: "mem_covers E X s R M" and st: "mem_steps ro (concat insts) (R, M) (R', M')"
  shows "mem_covers E X s' R' M' \<and> good_mem E (an_gen an') s'"
proof -
  obtain s1 s2 s3 s4 gen where r: "foldM (process_inst E) insts (s, an_gen an) = Some (s1, gen)" "doKillRegisters live s1 = Some s2"
    "doRemoveUselessAvatars E s2 = Some s3" "doFinalizeUpdate E s3 = Some s4" "listMemoryVariables E s4 = Some s'" "an_gen an' = gen"
    using run by (auto simp: process_basic_def bindE Let_def)
  have k0: "mem_keeps (an_gen an) s X R M" using good cov by (simp add: mem_keeps_def)
  have k1: "mem_keeps gen s1 X R' M'" using mem_insts_sound [OF r(1) k0 tr ro st] by simp
  have k2: "mem_keeps gen s2 X R' M'" by (rule mem_kill [OF r(2) [unfolded doKillRegisters_def] k1]) auto
  then have "dom_ok E gen s2" "scalar_mem s2" by (simp_all add: mem_keeps_def good_mem_def)
  then have "s3 = s2" by (rule mem_avatars [OF _ _ r(3)])
  then have "mem_keeps gen s4 X R' M'" using mem_finalize [OF _ k2] r(4) by simp
  from mem_list [OF r(5) this] show ?thesis using r(6) by (simp add: mem_keeps_def)
qed

end

end
