(* ===== verification/Memory_Samples.thy ===== *)
theory Memory_Samples
  imports Memory_Blocks Sound_Samples
begin

text \<open>
  Memory on concrete states: a block that loads a constant of the program, stores through the
  loaded address and reads the stored value back; and a store through a pointer that may or may
  not be the address of a known location.
\<close>

subsection \<open>A block\<close>

definition rom :: "int \<Rightarrow> int option" where
  "rom a = (if 0x8000 \<le> a \<and> a < 0x9000 then Some 7 else None)"

definition memory_insts :: "sem_inst list list" where
  "memory_insts = [[sample_inst SETI 5 0 0x8000], [sample_inst LOAD 9 5 0], [sample_inst STORE 5 9 0], [sample_inst LOAD 6 9 0]]"

definition memory_result :: "clist domain" where
  "memory_result = fst (the (process_basic sample_env memory_insts (replicate 16 True) (dom_top sample_env None) (sample_analysis 0)))"

definition memory_analysis :: "clist analysis" where
  "memory_analysis = snd (the (process_basic sample_env memory_insts (replicate 16 True) (dom_top sample_env None) (sample_analysis 0)))"

lemma memory_processed:
  "process_basic sample_env memory_insts (replicate 16 True) (dom_top sample_env None) (sample_analysis 0) = Some (memory_result, memory_analysis)"
proof -
  have "process_basic sample_env memory_insts (replicate 16 True) (dom_top sample_env None) (sample_analysis 0) \<noteq> None" by code_simp
  then show ?thesis by (auto simp: memory_result_def memory_analysis_def)
qed

lemma memory_tracked: "mem_insts_tracked sample_env rom memory_insts (dom_top sample_env None, an_gen (sample_analysis 0))"
  by code_simp

definition regs_first :: mstate where "regs_first = (\<lambda>_. 0)"
definition memory_first :: memory where "memory_first = (\<lambda>a. if 0x8000 \<le> a \<and> a < 0x9000 then 7 else 0)"

definition regs_last :: mstate where "regs_last = regs_first(Reg 5 := 0x8000, Reg 9 := 7, Reg 6 := 0x8000)"
definition memory_last :: memory where "memory_last = memory_first(7 := 0x8000)"

lemma memory_steps: "mem_steps rom (concat memory_insts) (regs_first, memory_first) (regs_last, memory_last)"
proof -
  let ?R1 = "regs_first(Reg 5 := 0x8000)" let ?R2 = "?R1(Reg 9 := 7)"
  have 1: "mem_step rom (sample_inst SETI 5 0 0x8000) (regs_first, memory_first) (?R1, memory_first)"
    by (rule mem_step.reg) (simp_all add: supported_def inst_step_def int_value_def sample_inst_def)
  have 2: "mem_step rom (sample_inst LOAD 9 5 0) (?R1, memory_first) (?R2, memory_first)"
    using mem_step.load [of "sample_inst LOAD 9 5 0" rom ?R1 memory_first] by (simp add: sample_inst_def memory_first_def)
  have 3: "mem_step rom (sample_inst STORE 5 9 0) (?R2, memory_first) (?R2, memory_last)"
    using mem_step.store [of "sample_inst STORE 5 9 0" rom ?R2 memory_first]
    by (simp add: sample_inst_def memory_last_def rom_def)
  have 4: "mem_step rom (sample_inst LOAD 6 9 0) (?R2, memory_last) (regs_last, memory_last)"
    using mem_step.load [of "sample_inst LOAD 6 9 0" rom ?R2 memory_last]
    by (simp add: sample_inst_def memory_last_def regs_last_def)
  have "mem_steps rom [sample_inst SETI 5 0 0x8000, sample_inst LOAD 9 5 0, sample_inst STORE 5 9 0, sample_inst LOAD 6 9 0]
      (regs_first, memory_first) (regs_last, memory_last)"
    by (rule mem_steps.more [OF 1 mem_steps.more [OF 2 mem_steps.more [OF 3 mem_steps.more [OF 4 mem_steps.none]]]])
  then show ?thesis by (simp add: memory_insts_def)
qed

lemma top_good: "good_mem sample_env gen (dom_top sample_env None)"
  using dom_top_ok [OF sample_env_laws] by (auto simp: good_mem_def scalar_mem_def dom_top_def)

lemma top_covers: "mem_covers sample_env {} (dom_top sample_env None) regs_first memory_first"
  unfolding mem_covers_def
proof (intro exI conjI)
  show "covers sample_env {} (dom_top sample_env None) regs_first"
    using poly_env.bare_top [OF sample_env_laws, of 0]
    by (simp add: covers_def poly_env.bare_def [OF sample_env_laws] counters_in_def in_bound_nonpos regs_first_def)
  show "agrees regs_first regs_first" by (simp add: agrees_def)
  show "cells (dom_top sample_env None) (\<lambda>k. memory_first) regs_first"
    by (simp add: cells_def hasIdent_iff dom_top_def)
qed

subsection \<open>A store through a pointer\<close>

definition pointer_base :: "clist domain" where
  "pointer_base = fst (the (do { (a, d, g) \<leftarrow> varNew (Reg 5) NO_STEP True (dom_top sample_env None) 0;
     (b, d, g) \<leftarrow> varNew (Reg 4) NO_STEP True d g;
     Some (doNewConstraint sample_env (w_ge (V a) (V b)) d, g) }))"

definition pointer_state :: "clist domain" where
  "pointer_state = fst (snd (the (memTabCreate sample_env (V 0) (V 1) STEP_BOT (K 1) False pointer_base 2)))"

definition pointer_result :: "clist domain" where
  "pointer_result = fst (the (onSemInst sample_env (sample_inst STORE 4 4 0) pointer_state 5))"

definition pointer_gen :: guid where
  "pointer_gen = snd (the (onSemInst sample_env (sample_inst STORE 4 4 0) pointer_state 5))"

lemma pointer_stored: "onSemInst sample_env (sample_inst STORE 4 4 0) pointer_state 5 = Some (pointer_result, pointer_gen)"
proof -
  have "onSemInst sample_env (sample_inst STORE 4 4 0) pointer_state 5 \<noteq> None" by code_simp
  then show ?thesis by (auto simp: pointer_result_def pointer_gen_def)
qed

lemma pointer_guard: "store_guard sample_env (sample_inst STORE 4 4 0) pointer_state"
  by code_simp

text \<open>The pointer is 3 and the location is at 10, where the memory has 3.\<close>

definition pointer_regs :: mstate where "pointer_regs = (\<lambda>_. 0)(Reg 5 := 10, Reg 4 := 3)"
definition pointer_memory :: memory where "pointer_memory = (\<lambda>_. 0)(10 := 3)"

lemma pointer_sound: "good_mem sample_env 5 pointer_state \<and> mem_covers sample_env {} pointer_state pointer_regs pointer_memory"
proof -
  let ?E = sample_env let ?top = "dom_top sample_env None :: clist domain"
  note L = sample_env_laws
  have ok: "dom_ok ?E 0 ?top" by (rule dom_top_ok [OF L])
  obtain d1 where d1: "varNew (Reg 5) NO_STEP True ?top 0 = Some (0, d1, 0 + 1)" "dom_ok ?E (0 + 1) d1"
    "im_find1 (d_idmap d1) = (im_find1 (d_idmap ?top))(Reg 5 \<mapsto> idval_t 0 NO_STEP)" "d_poly d1 = d_poly ?top"
    by (rule varNew_ok [OF ok, of "Reg 5" NO_STEP True]) auto
  obtain d2 where d2: "varNew (Reg 4) NO_STEP True d1 (0 + 1) = Some (0 + 1, d2, 0 + 1 + 1)" "dom_ok ?E (0 + 1 + 1) d2"
    "im_find1 (d_idmap d2) = (im_find1 (d_idmap d1))(Reg 4 \<mapsto> idval_t (0 + 1) NO_STEP)" "d_poly d2 = d_poly d1"
    by (rule varNew_ok [OF d1(2), of "Reg 4" NO_STEP True]) auto
  let ?c = "w_ge (V 0) (V 1)"
  have b: "pointer_base = doNewConstraint ?E ?c d2" using d1(1) d2(1) by (simp add: pointer_base_def)
  have vs: "wc_vars ?c \<subseteq> {..<2}" using wc_vars_ops(2) [of "V 0" "V 1"] by auto
  have ok2: "dom_ok ?E 2 d2" using d2(2) by (simp add: numeral_2_eq_2)
  note con = poly_env.constraint_ok [OF L ok2 vs, folded b]
  have f: "im_find1 (d_idmap pointer_base) = [Reg 5 \<mapsto> idval_t 0 NO_STEP, Reg 4 \<mapsto> idval_t 1 NO_STEP]"
    using con(3) d2(3) d1(3) by (simp add: dom_top_def fun_eq_iff)
  let ?v = "(\<lambda>_. 0)(0 := 10, 1 := 3) :: valuation"
  have "models ?E d2 ?v (lift pointer_regs)"
    using d1(3,4) d2(3,4) ppl_laws.new_sem(2) [OF poly_env.laws [OF L]]
    by (auto simp: models_def dom_top_def lift_def pointer_regs_def split: if_splits)
  then have m: "models ?E pointer_base ?v (lift pointer_regs)" using con(2) by simp
  have ax: "d_num_axis pointer_base = 0" "d_bounds pointer_base = []"
    using con(4,5) poly_env.varNew_axis [OF L d1(1)] poly_env.varNew_axis [OF L d2(1)] varNew_frame(1) [OF d1(1)] varNew_frame(1) [OF d2(1)]
    by (simp_all add: dom_top_def same_frame_def)
  have nomem: "\<not> hasIdent pointer_base (Ident k t)" if "t \<in> set mem_types" for k t
    using that by (auto simp: hasIdent_iff f)
  have sc: "scalar_mem pointer_base" by (auto simp: scalar_mem_def scalar_ident_def f split: if_splits)
  have h: "holds_at ?E {} pointer_base (\<lambda>k. pointer_memory) pointer_regs ?v pointer_regs"
    using m nomem by (simp add: holds_at_def counters_in_def getBound_def ax in_bound_nonpos agrees_def cells_def pointer_regs_def)
  have step: "STEP_BOT \<noteq> NO_STEP" by (simp add: STEP_BOT_def NO_STEP_def)
  obtain d3 where d3: "memTabCreate ?E (V 0) (V 1) STEP_BOT (K 1) False pointer_base 2 = Some (2, d3, 2 + 3)"
    "poly_env.cell_new ?E 2 STEP_BOT pointer_base (\<lambda>v. le_eval v (V 0)) (\<lambda>v. le_eval v (V 1)) (\<lambda>v. le_eval v (K 1)) d3"
    by (rule poly_env.cell_create [OF L con(1) sc step, of "V 0" "V 1" "K 1"]) auto
  have e: "pointer_state = d3" using d3(1) by (simp add: pointer_state_def)
  obtain v3 \<rho>3 where "holds_at ?E {} d3 (\<lambda>k. pointer_memory) pointer_regs v3 \<rho>3"
    by (rule poly_env.new_sound [OF L sc d3(2) h, of 10 3]) (simp_all add: pointer_memory_def)
  moreover have "good_mem ?E 5 d3"
    using poly_env.cell_newD(1) [OF L d3(2)] poly_env.new_scalar [OF L sc d3(2)] poly_env.create_axis [OF L d3(1)] ax
    by (simp add: good_mem_def)
  ultimately show ?thesis by (auto simp: e mem_covers_at)
qed

end
