(* ===== verification/Display.thy ===== *)
theory Display
  imports Sem_Inst_Sound Cond_Export
begin

text \<open>
  Printing: the text of identifiers, expressions, constraints and polyhedra, and the report on a
  state (\<open>PPLDomain::print\<close> with its tables of identifiers, local and global variables). Output
  is a list of tokens, since the escape sequences of the colours are those of elm; text that
  the code sends to the standard output instead of its argument is marked. Buffers truncate.
\<close>

datatype token = Text string | Colour string | Cout token | Library_Text

definition utf8_minus :: string where "utf8_minus = [CHR 0xE2, CHR 0x88, CHR 0x92]"
definition utf8_ge :: string where "utf8_ge = [CHR 0xE2, CHR 0x89, CHR 0xA5]"
definition utf8_in :: string where "utf8_in = [CHR 0xE2, CHR 0x88, CHR 0x88]"
definition utf8_inf :: string where "utf8_inf = [CHR 0xE2, CHR 0x88, CHR 0x9E]"
definition utf8_cap :: string where "utf8_cap = [CHR 0xE2, CHR 0x88, CHR 0xA9]"
definition utf8_bar :: string where "utf8_bar = [CHR 0xE2, CHR 0x96, CHR 0x88]"
definition newline :: string where "newline = [CHR 0x0A]"

subsection \<open>Numbers\<close>

fun hex_nat :: "nat \<Rightarrow> string" where
  "hex_nat n =
     (let digit = (\<lambda>k. char_of (if k < 10 then 48 + k else 87 + k))
      in if n < 16 then [digit n] else hex_nat (n div 16) @ [digit (n mod 16)])"

declare hex_nat.simps [simp del]

definition hex_text :: "int \<Rightarrow> string" where
  "hex_text k = (if k < 0 then ''-'' @ hex_nat (nat (- k)) else hex_nat (nat k))"

text \<open>\<open>gmp_snprintf\<close> into a buffer of \<open>n\<close> bytes.\<close>

definition buffered :: "nat \<Rightarrow> string \<Rightarrow> string" where
  "buffered n s = take (n - 1) s"

definition coef_text :: "int \<Rightarrow> string" where
  "coef_text k = buffered 128 (decimal k)"

definition displayFrac :: "int \<Rightarrow> int \<Rightarrow> bool \<Rightarrow> string option" where
  "displayFrac num den hx = do {
     assert_that (den \<noteq> 0);
     let number = (if hx then hex_text else decimal);
     Some (buffered 16 (number num) @ (if den \<noteq> 1 then buffered 16 (''/'' @ number den) else [])) }"

subsection \<open>Identifiers and variables\<close>

definition type_number :: "ident_type \<Rightarrow> int" where
  "type_number t = (case t of ID_REG \<Rightarrow> 0 | ID_REG_INPUT \<Rightarrow> 1 | ID_MEM_ADDR \<Rightarrow> 2 | ID_MEM_COUNT \<Rightarrow> 3
     | ID_MEM_VAL \<Rightarrow> 4 | ID_MEM_VAL_PLUS \<Rightarrow> 5 | ID_MEM_VAL_MINUS \<Rightarrow> 6 | ID_MEM_VAL_INPUT \<Rightarrow> 7
     | ID_SPECIAL \<Rightarrow> 8 | ID_LOOP \<Rightarrow> 9 | ID_INVALID \<Rightarrow> 10 | ID_MAX_TYPE \<Rightarrow> 11)"

definition ident_text :: "ident \<Rightarrow> string" where
  "ident_text i =
     (let k = id_num i; n = decimal k; reg = (if k < 0 then ''T'' @ decimal (- k) else ''R'' @ n) in
      case id_type i of
        ID_REG \<Rightarrow> reg
      | ID_REG_INPUT \<Rightarrow> reg @ ''_0''
      | ID_MEM_ADDR \<Rightarrow> ''ptr'' @ n
      | ID_MEM_COUNT \<Rightarrow> ''count'' @ n
      | ID_MEM_VAL \<Rightarrow> ''*ptr'' @ n
      | ID_MEM_VAL_PLUS \<Rightarrow> ''*ptr+'' @ n
      | ID_MEM_VAL_MINUS \<Rightarrow> ''*ptr-'' @ n
      | ID_MEM_VAL_INPUT \<Rightarrow> ''*ptr'' @ n @ ''_0''
      | ID_LOOP \<Rightarrow> ''bound'' @ n
      | ID_SPECIAL \<Rightarrow> (if k = ID_START_FP then ''FP'' else if k = ID_START_SP then ''SP''
          else if k = ID_START_LR then ''LR'' else ''[SPECIAL '' @ n @ '']'')
      | t \<Rightarrow> ''[ID='' @ n @ '', TYPE='' @ decimal (type_number t) @ '']'')"

text \<open>The library's names of dimensions: a letter, and a number from the second round on.\<close>

definition dim_text :: "dim \<Rightarrow> string" where
  "dim_text k = char_of (k mod 26 + 65) # (if k div 26 \<noteq> 0 then decimal_nat (k div 26) else [])"

definition guid_text :: "guid \<Rightarrow> string" where
  "guid_text g = ''v'' @ decimal_nat g"

subsection \<open>Expressions, constraints, polyhedra\<close>

definition coef_term_text :: "bool \<Rightarrow> guid \<times> int \<Rightarrow> string" where
  "coef_term_text is_first = (\<lambda>(g, c).
     (if \<not> is_first \<and> c \<ge> 0 then ''+ '' else if c < 0 then utf8_minus @ '' '' else []) @
     (if c = 1 \<or> c = -1 then guid_text g @ '' '' else coef_text \<bar>c\<bar> @ ''.'' @ guid_text g @ '' ''))"

definition le_text :: "wlin \<Rightarrow> string" where
  "le_text e =
     (case coefs e of [] \<Rightarrow> [] | t # ts \<Rightarrow> coef_term_text True t @ concat (map (coef_term_text False) ts)) @
     (if cst e \<noteq> 0 then (if cst e \<ge> 0 then ''+ '' else utf8_minus @ '' '') @ coef_text \<bar>cst e\<bar> else [])"

definition wc_text :: "wcons \<Rightarrow> string" where
  "wc_text c = (case wc_type c of CONS_EQ \<Rightarrow> ''0 = '' | CONS_GE \<Rightarrow> ''0 '' @ le_sign @ '' '') @ le_text (wc_expr c)"

text \<open>The polyhedron itself is printed by the library, on the standard output.\<close>

definition wp_print :: "'p ppl \<Rightarrow> 'p wpoly \<Rightarrow> token list option" where
  "wp_print P w = do {
     cs \<leftarrow> wp_constraints P w;
     Some ([Text (newline @ ''Raw poly: [''), Cout Library_Text, Text ('']'' @ newline @ newline), Text ''Map: ['',
         Text (concat (map (\<lambda>(g, d). guid_text g @ '' -> '' @ dim_text d @ '' '' @ utf8_bar) (wp_adapter w))),
         Text (''] '' @ newline @ newline), Text ''WPoly: ['',
         Text (concat (map (\<lambda>c. wc_text c @ '' '' @ utf8_bar) cs)), Text ('']'' @ newline @ newline)]) }"

subsection \<open>Values\<close>

definition lower_text :: "int \<times> int \<Rightarrow> string option" where
  "lower_text = (\<lambda>(n, k). if k = 0 then Some ('']-'' @ utf8_inf) else map_option (\<lambda>s. ''['' @ s) (displayFrac n k False))"

definition upper_text :: "int \<times> int \<Rightarrow> string option" where
  "upper_text = (\<lambda>(n, k). if k = 0 then Some (''+'' @ utf8_inf @ ''['') else map_option (\<lambda>s. s @ '']'') (displayFrac n k False))"

definition interval_text :: "'p env \<Rightarrow> 'p domain \<Rightarrow> ident \<Rightarrow> string option" where
  "interval_text E d i = do {
     (inf_n, inf_d, sup_n, sup_d) \<leftarrow> getRangeIdent E d i;
     lo \<leftarrow> lower_text (inf_n, inf_d);
     hi \<leftarrow> upper_text (sup_n, sup_d);
     Some (lo @ '';'' @ hi) }"

text \<open>The value of the location \<open>k\<close>, the same text for local and global variables.\<close>

definition display_value :: "'p env \<Rightarrow> 'p domain \<Rightarrow> int \<Rightarrow> token list option" where
  "display_value E d k =
     (let val = Ident k ID_MEM_VAL; plus = Ident k ID_MEM_VAL_PLUS; minus = Ident k ID_MEM_VAL_MINUS in
      if hasIdent d val then do {
        s \<leftarrow> interval_text E d val;
        Some [Text s, Colour ''Dim'', Text ('' (aka '' @ ident_text val @ '')''), Colour ''NoDim''] }
      else do {
        s \<leftarrow> interval_text E d plus;
        t \<leftarrow> interval_text E d minus;
        Some [Text s, Text ('' '' @ utf8_cap @ '' ''), Text t, Colour ''Dim'',
          Text ('' (aka '' @ ident_text plus @ '' and '' @ ident_text minus @ '') when '' @
            ident_text (Ident k ID_MEM_COUNT) @ '' > 0 ''), Colour ''NoDim''] })"

subsection \<open>Tables\<close>

definition displayIdentMap :: "'p domain \<Rightarrow> token list" where
  "displayIdentMap d =
     [Text ''Mapping: '', Colour ''Dim''] @
     concat (map (\<lambda>(i, iv). [Text (ident_text i @ '':'' @ guid_text (iv_g iv) @
       (if iv_s iv \<noteq> NO_STEP then ''/'' @ decimal (iv_s iv) @
          (if im_has1 (d_idmap d) (Ident (id_num i) ID_MEM_COUNT)
           then ''/'' @ ident_text (Ident (id_num i) ID_MEM_COUNT) else []) else []) @ '', '')])
       (im_pairs (d_idmap d))) @
     [Colour ''NoDim'', Text newline]"

definition LOC_VAR_SIZE :: int where "LOC_VAR_SIZE = 4"
definition NUM_LOC_VARS :: nat where "NUM_LOC_VARS = 8"

text \<open>Does the location hold the cell \<open>i\<close> of the stack? The variable numbered \<open>num_axis\<close> is its address.\<close>

definition at_cell :: "'p env \<Rightarrow> 'p wpoly \<Rightarrow> guid \<Rightarrow> ident \<times> idval \<Rightarrow> bool" where
  "at_cell E w v = (\<lambda>(i, iv).
     (iv_s iv = 0 \<or> iv_s iv = 4) \<and> id_type i = ID_MEM_ADDR \<and>
     (case (wp_maximize (e_ppl E) w (le_sub (V v) (V (iv_g iv))), wp_minimize (e_ppl E) w (le_sub (V v) (V (iv_g iv)))) of
        (Some (sn, sd, b), Some (n, k, b')) \<Rightarrow> sn = 0 \<and> n = 0 \<and> sd \<noteq> 0 \<and> k \<noteq> 0
      | _ \<Rightarrow> False))"

definition loc_row :: "'p env \<Rightarrow> 'p domain \<Rightarrow> guid \<Rightarrow> int \<Rightarrow> token list option" where
  "loc_row E d ssp i = do {
     let v = nat (d_num_axis d);
     let w = wp_add_constraint (e_ppl E) (w_eq (V v) (le_sub (le_sub (V ssp) (K i)) (K LOC_VAR_SIZE))) (d_poly d);
     ts \<leftarrow> (case List.find (at_cell E w v) (im_pairs (d_idmap d)) of
       Some (a, iv) \<Rightarrow> display_value E d (id_num a)
     | None \<Rightarrow> Some [Text ''N/A'']);
     Some ([Text ('' [SSP - '' @ hex_text i @ ''] '' @ utf8_in @ '' '')] @ ts @ [Text newline]) }"

definition special_ssp :: ident where "special_ssp = Ident ID_START_SP ID_SPECIAL"

definition displayLocVars :: "'p env \<Rightarrow> 'p domain \<Rightarrow> token list option" where
  "displayLocVars E d =
     (if isBottom E d then Some [Text (''diplayGlobVars: Nothing to display (state is BOTTOM)'' @ newline)]
      else if \<not> hasIdent d special_ssp then Some [Cout (Text (''Local variables: NOT APPLICABLE'' @ newline))]
      else do {
        ssp \<leftarrow> getVar0 d special_ssp;
        rows \<leftarrow> mapM (\<lambda>k. loc_row E d ssp (int k * LOC_VAR_SIZE)) [0..<NUM_LOC_VARS + 10];
        Some ([Text (''Local variables: '' @ newline)] @ concat rows @ [Text newline]) })"

definition glob_row :: "'p env \<Rightarrow> 'p domain \<Rightarrow> ident \<times> idval \<Rightarrow> token list option" where
  "glob_row E d = (\<lambda>(i, iv).
     if id_type i = ID_MEM_ADDR then do {
       c \<leftarrow> getConstantIdent E d i;
       case c of
         None \<Rightarrow> Some []
       | Some (num, den) \<Rightarrow> do {
           s \<leftarrow> displayFrac num den True;
           ts \<leftarrow> display_value E d (id_num i);
           Some ([Text '' @addr 0x'', Text s, Text '', value = ''] @ ts) } }
     else Some [])"

definition displayGlobVars :: "'p env \<Rightarrow> 'p domain \<Rightarrow> token list option" where
  "displayGlobVars E d =
     (if isBottom E d then Some [Text (''diplayGlobVars: Nothing to display (state is BOTTOM)'' @ newline)]
      else do {
        rows \<leftarrow> mapM (glob_row E d) (im_pairs (d_idmap d));
        Some ([Text (''Global variables: '' @ newline)] @ concat rows) })"

subsection \<open>A state\<close>

definition var_tokens :: "'p domain \<Rightarrow> guid \<Rightarrow> token list option" where
  "var_tokens d v =
     (if isVarMapped d v NO_STEP then do {
        i \<leftarrow> getIdent d (idval_t v NO_STEP);
        Some ((if id_type i = ID_MEM_VAL then [Colour ''IBlu''] else if id_type i = ID_SPECIAL then [Colour ''Cya'']
            else if id_type i = ID_LOOP then [Colour ''IYel''] else []) @ [Text (ident_text i), Colour ''RCol'']) }
      else
        (case List.find (isVarMapped d v) [0, 4, 1] of
           Some s \<Rightarrow> do { i \<leftarrow> getIdent d (idval_t v s); Some [Colour ''Gre'', Text (ident_text i), Colour ''RCol''] }
         | None \<Rightarrow> Some [Colour ''IGre'', Text (guid_text v @ ''[?]''), Colour ''RCol'']))"

definition term_tokens :: "'p domain \<Rightarrow> wcons \<Rightarrow> bool \<times> guid \<Rightarrow> token list option" where
  "term_tokens d c = (\<lambda>(is_first, v). do {
     coef \<leftarrow> wc_coefficient c v;
     ts \<leftarrow> var_tokens d v;
     Some ([Text (if coef = -1 then (if is_first then ''-'' else utf8_minus @ '' '')
         else (if is_first then [] else ''+ '') @
           (if coef \<noteq> 1 then buffered 64 (decimal coef) @ ''.'' else []))] @ ts @ [Text '' '']) })"

definition cons_tokens :: "'p domain \<Rightarrow> wcons \<Rightarrow> token list option" where
  "cons_tokens d c = do {
     ts \<leftarrow> mapM (term_tokens d c) (zip (True # replicate (length (wc_terms c)) False) (wc_terms c));
     Some ([Cout (Colour ''Dim''), Cout (Text utf8_bar), Cout (Colour ''RCol'')] @ concat ts @
       [Colour ''IPur'', Text (if is_equality c then ''= '' else utf8_ge @ '' ''),
        Text (buffered 64 (decimal (- wc_inhomogeneous c))), Colour ''RCol'', Text ''; '']) }"

definition dom_print :: "'p env \<Rightarrow> 'p domain \<Rightarrow> token list option" where
  "dom_print E d =
     (if isBottom E d then Some [Text ''BOTTOM'']
      else do {
        cs \<leftarrow> wp_constraints (e_ppl E) (d_poly d);
        ts \<leftarrow> mapM (cons_tokens d) cs;
        if \<not> hasIdent d special_ssp then Some (concat ts)
        else do {
          loc \<leftarrow> displayLocVars E d;
          glob \<leftarrow> displayGlobVars E d;
          Some (concat ts @ [Text newline, Text (''Variable count: '' @
              decimal_nat (wp_variable_count (e_ppl E) (d_poly d)) @ '', Constraints count: '' @ decimal_nat (length cs)),
              Colour ''NoDim'', Text newline] @ displayIdentMap d @ loc @ glob @ [Text newline]) } })"

text \<open>The debug command that a program gives by a store to a reserved address.\<close>

definition DEBUG_COMMAND_PRINTSTATE :: int where "DEBUG_COMMAND_PRINTSTATE = 1"

definition handleCommand :: "'p env \<Rightarrow> 'p domain \<Rightarrow> int \<Rightarrow> token list option" where
  "handleCommand E d cmd =
     (if cmd = DEBUG_COMMAND_PRINTSTATE
      then map_option (\<lambda>ts. Text (''DEBUG COMMAND: printing state'' @ newline) # ts) (dom_print E d)
      else Some [])"

subsection \<open>What the intervals say\<close>

text \<open>The bounds of an interval hold; its text is that of the bounds.\<close>

definition below :: "int \<times> int \<Rightarrow> rat \<Rightarrow> bool" where
  "below = (\<lambda>(n, k) x. k \<noteq> 0 \<longrightarrow> 0 < k \<and> of_int n \<le> x * of_int k)"

definition above :: "int \<times> int \<Rightarrow> rat \<Rightarrow> bool" where
  "above = (\<lambda>(n, k) x. k \<noteq> 0 \<longrightarrow> 0 < k \<and> x * of_int k \<le> of_int n)"

lemma lower_total: "\<exists>s. lower_text b = Some s" and upper_total: "\<exists>s. upper_text b = Some s"
  by (cases b, simp add: lower_text_def upper_text_def displayFrac_def Let_def)+

text \<open>A number of at most fifteen digits is shown in full.\<close>

lemma short_number: "0 \<le> n \<Longrightarrow> n < 10 ^ 15 \<Longrightarrow> displayFrac n 1 False = Some (decimal n)"
  using decimal_length [of "nat n" 14] by (simp add: displayFrac_def buffered_def decimal_def nat_less_iff)

context poly_env
begin

lemma interval_shown:
  assumes ok: "dom_ok E gen d" and \<rho>: "\<rho> \<in> dom_sem E d" and i: "hasIdent d i"
  obtains n k m l lo hi where "getRangeIdent E d i = Some (n, k, m, l)" and "interval_text E d i = Some (lo @ '';'' @ hi)"
    and "lower_text (n, k) = Some lo" and "upper_text (m, l) = Some hi" and "below (n, k) (\<rho> i)" and "above (m, l) (\<rho> i)"
proof -
  obtain iv where iv: "im_find1 (d_idmap d) i = Some iv" using i by (auto simp: hasIdent_iff)
  obtain v where v: "models E d v \<rho>" using \<rho> by (auto simp: dom_sem_def)
  obtain n k m l where r: "getRange E d (iv_g iv) = (n, k, m, l)" by (cases "getRange E d (iv_g iv)")
  have w: "v \<in> wsem (e_ppl E) (d_poly d)" using v by (simp add: models_def)
  note s = range_sound [OF dom_okD(2) [OF ok] r w]
  obtain lo hi where t: "lower_text (n, k) = Some lo" "upper_text (m, l) = Some hi" using lower_total upper_total by metis
  have g: "getRangeIdent E d i = Some (n, k, m, l)" using iv r by (simp add: getRangeIdent_def getVar_def)
  moreover have "interval_text E d i = Some (lo @ '';'' @ hi)" using g t by (simp add: interval_text_def)
  moreover have "below (n, k) (\<rho> i)" "above (m, l) (\<rho> i)"
    using s models_value [OF v iv] by (auto simp: below_def above_def)
  ultimately show thesis using t by (intro that)
qed

end

end
