(* ===== verification/Domain_Extra.thy ===== *)
theory Domain_Extra
  imports Domain_Merge
begin

text \<open>
  Operations of the abstract state that are compiled but that nothing in the built configuration
  calls: composition with the summary of a callee, which prints a message and aborts (its body is
  under \<open>TODO\<close>), linear bounds, whose bodies are under \<open>LINBOUND\<close> and \<open>INTER_PROCEDURAL\<close>, and two
  renamings of variables. The renamings are injective, as projecting and renaming require.
\<close>

subsection \<open>Summaries and linear bounds\<close>

definition onComposeBounds :: "'p domain \<Rightarrow> 'p domain \<Rightarrow> 'p domain option" where
  "onComposeBounds bound d = None"

definition onCompose :: "'p domain \<Rightarrow> 'p domain \<Rightarrow> 'p domain option" where
  "onCompose summary d = None"

definition getLinearExpr :: "ident \<Rightarrow> 'p domain \<Rightarrow> 'p domain option" where
  "getLinearExpr i d = None"

definition onLoopExitLinear :: "int \<Rightarrow> 'p domain \<Rightarrow> 'p domain \<Rightarrow> 'p domain option" where
  "onLoopExitLinear loop bound d = dom_copy d"

subsection \<open>Renamings\<close>

text \<open>The bit vector has a bit for every variable.\<close>

definition remove_marked :: "bool list \<Rightarrow> guid \<Rightarrow> guid option" where
  "remove_marked bv i =
     (if bv ! i then None else Some (i - length (filter (\<lambda>k. bv ! k) [0..<i])))"

definition map_shift :: "guid \<Rightarrow> guid \<Rightarrow> guid \<Rightarrow> guid option" where
  "map_shift domsize shift i = (if i < domsize then Some (i + shift) else None)"

lemma marked_rank:
  "i - length (filter (\<lambda>k. bv ! k) [0..<i]) = length (filter (\<lambda>k. \<not> bv ! k) [0..<i])"
  using sum_length_filter_compl [of "\<lambda>k. bv ! k" "[0..<i]"] by simp

lemma rank_less:
  assumes "i < j" and "\<not> bv ! i"
  shows "length (filter (\<lambda>k. \<not> bv ! k) [0..<i]) < length (filter (\<lambda>k. \<not> bv ! k) [0..<j])"
proof -
  have "[0..<j] = [0..<i] @ i # [Suc i..<j]"
    using upt_add_eq_append [of 0 i "j - i"] upt_conv_Cons [OF assms(1)] assms(1) by simp
  then show ?thesis using assms(2) by simp
qed

lemma remove_marked_inj: "inj_on (remove_marked bv) {g. remove_marked bv g \<noteq> None}"
proof (rule inj_onI)
  fix i j
  assume "i \<in> {g. remove_marked bv g \<noteq> None}" "j \<in> {g. remove_marked bv g \<noteq> None}" and e: "remove_marked bv i = remove_marked bv j"
  then have u: "\<not> bv ! i" "\<not> bv ! j" by (auto simp: remove_marked_def split: if_splits)
  then have "length (filter (\<lambda>k. \<not> bv ! k) [0..<i]) = length (filter (\<lambda>k. \<not> bv ! k) [0..<j])"
    using e by (simp add: remove_marked_def marked_rank)
  then show "i = j" using rank_less [of i j bv] rank_less [of j i bv] u by (cases i j rule: linorder_cases) simp_all
qed

lemma map_shift_inj: "inj_on (map_shift n s) {g. map_shift n s g \<noteq> None}"
  by (auto simp: inj_on_def map_shift_def split: if_splits)

text \<open>Renaming a state with either keeps what it says about the variables that survive.\<close>

context poly_env
begin

lemma renaming_keeps:
  assumes w: "wp_ok (e_ppl E) (d_poly d)" and inj: "inj_on f {g. f g \<noteq> None}"
  obtains p where "doMapPoly E f d = Some (d\<lparr>d_poly := p\<rparr>)" and "wp_ok (e_ppl E) p"
    and "\<forall>v v'. v \<in> wsem (e_ppl E) (d_poly d) \<longrightarrow>
      (\<forall>g \<in> wp_dom (d_poly d). \<forall>h. f g = Some h \<longrightarrow> v' h = v g) \<longrightarrow> v' \<in> wsem (e_ppl E) p"
proof -
  have "inj_on f {g \<in> wp_dom (d_poly d). f g \<noteq> None}" by (rule inj_on_subset [OF inj]) auto
  then show thesis by (rule doMapPoly_ok [OF w]) (rule that)
qed

lemmas marked_keeps = renaming_keeps [OF _ remove_marked_inj]
lemmas shift_keeps = renaming_keeps [OF _ map_shift_inj]

end

end
