(* ===== verification/Spec2Isabelle.thy ===== *)
theory Spec2Isabelle
  imports Program_Samples Sound_Samples Memory_Samples Display Domain_Extra
begin

text \<open>
  Polymalys is a static analysis of binary programs: an abstract interpreter over polyhedra that
  runs on the graphs of OTAWA and finds bounds of loops, some of them as expressions in the
  arguments of the program. This development models the program in the configuration that its
  build produces (assertions active, \<open>LINBOUND\<close> and \<open>INTER_PROCEDURAL\<close> undefined) and proves what makes
  its parts correct.

  \<^bold>\<open>Parts and how they interact.\<close> A table (\<open>MyHTable.h\<close>, theory \<open>My_HTable\<close>) and ordered maps
  (\<open>Std_Map\<close>) hold everything else. Linear expressions and constraints over variables with global
  identifiers (\<open>PolyWrap.h\<close>, \<open>Lin_Expr\<close>) are given to a wrapper of the polyhedra library (\<open>WPoly\<close>
  in \<open>PolyWrap.h\<close> and \<open>poly_PolyWrap.cpp\<close>, theories \<open>W_Poly\<close>, \<open>W_Poly_Sem\<close>, \<open>W_Poly_Ops\<close>), which maps
  identifiers to dimensions. An abstract state (\<open>PPLDomain.h\<close>, \<open>poly_PPLDomain.cpp\<close>) pairs such a
  polyhedron with a bijection from registers, memory cells, loop counters and arguments to
  variables (\<open>Ident_Map\<close>, \<open>Domain\<close>). Its operations are queries (\<open>Domain_Queries\<close>), memory and
  function calls (\<open>Domain_Memory\<close>), instructions (\<open>Sem_Inst\<close>), branches and arguments (\<open>Branch\<close>, with
  the exported text in \<open>Cond_Export\<close>, from \<open>poly_BranchConditionner.cpp\<close>), unification, join,
  widening and comparison (\<open>Linear_Forms\<close>, \<open>Domain_Unify\<close>, \<open>Domain_Merge\<close>), and bounds of loops
  (\<open>Loop_Bounds\<close>, from \<open>poly_LoopAnalyzer.cpp\<close>); \<open>Domain_Extra\<close> has the operations that nothing calls
  in this configuration and \<open>Display\<close> the printed text. The driver (\<open>WorkListDriver.h\<close>, \<open>EdgeStore.h\<close>,
  \<open>CFGGraph.h\<close>; theory \<open>Work_List\<close>) takes blocks in the order of \<open>Topo_Order\<close>, and
  \<open>Poly_Analysis\<close> (\<open>poly_PolyAnalysis.cpp\<close>) is the analysis itself: loop headers, blocks and their
  edges, graphs with the calls between them, the program and its report.

  \<^bold>\<open>How code becomes definitions.\<close> Every operation has the name of its function. State is passed
  explicitly; the fields of \<open>PPLDomain\<close> are those of the record \<open>domain\<close>, the counter that numbers
  fresh variables is the argument \<open>gen\<close>. A failed assertion, a missing key and an aborting branch
  are \<open>None\<close>. Numbers of the polyhedra library are \<open>int\<close>; where the code narrows them the
  conversion is written out (\<open>get_ui\<close>, \<open>to_int32\<close>, \<open>to_int64\<close>), and instruction constants are 32-bit
  words. Iteration over a table is in the order of its chains, which the model keeps.

  \<^bold>\<open>Parameters.\<close> The polyhedra library is the record \<open>ppl\<close> of the operations that the code calls
  (\<open>PPL_Interface\<close>), and what is relied on is the locale \<open>ppl_laws\<close>: adding a constraint, renaming
  and projecting are exact, the hull and the extrapolation cover their operands, reported bounds
  hold. \<open>PPL_Lists\<close> proves the laws for polyhedra as lists of constraints and interprets the
  locale. What OTAWA computes (blocks, instructions, live registers, loops, dominance, initial
  memory, inversion of conditions) are fields of \<open>env\<close>, \<open>graph\<close>, \<open>loops\<close> and \<open>cfg\<close>; \<open>poly_env\<close>
  asks that inverting a condition negates it. \<open>Sample_Env\<close>, \<open>Samples\<close> and \<open>Program_Samples\<close> hold
  the concrete environments, states and graphs on which the witnesses evaluate the model.

  \<^bold>\<open>What is proved.\<close> \<open>dom_sem E d\<close> is the set of assignments of numbers to identifiers that the
  state \<open>d\<close> stands for and \<open>dom_ok\<close> its invariant (\<open>Domain_Sem\<close>). Register instructions, loop
  counters and constraints are transferred exactly or cover what happens (\<open>Sem_Inst_Sound\<close>), branches
  keep what takes them (\<open>Branch\<close>), join, widening and comparison of states over registers cover and
  compare what they should (\<open>Merge_Sound\<close>), loop headers cover their inputs (\<open>Header_Sound\<close>). The
  driver loses no change and ends when the states go down a well-founded order (\<open>Work_List\<close>: the
  locale \<open>block_step\<close>, interpreted in \<open>Analysis_Run\<close> on \<open>processBB\<close>, and \<open>processing_order\<close>,
  interpreted in \<open>Topo_Order\<close> on \<open>isBefore\<close>).

  \<^bold>\<open>The analysis covers the executions.\<close> For graphs of register instructions, loops included, this
  is composed from below: a block and its clean-up (\<open>Block_Sound\<close>), the join of states over
  registers and counters (\<open>Join_Sound\<close>), what an edge does to a state (\<open>Edge_Sound\<close>), the input of a block
  (\<open>Input_Sound\<close>), the states at the start (\<open>Manager_Sound\<close>), and the runs of the driver and of
  \<open>processCFG\<close> (\<open>Program_Sound\<close>, instantiated in \<open>Sound_Samples\<close>). Executions are the inductive
  relation \<open>reach\<close>: states of registers and counters that arrive over an edge. Where the code keeps
  too much, the theorems ask for a check, computed along the run (\<open>run_checked\<close>, \<open>cfg_checked\<close>):
  operands were defined (a read of an undefined register leaves the old value of the destination)
  and bounds of loops fit an \<open>int\<close>. The findings say which line each check is for.

  \<^bold>\<open>Memory.\<close> \<open>Memory_Cells\<close> is what the creation, replacement and merge of a location of a single
  cell do to the meaning of a state; \<open>Memory_Sound\<close> shows that loads and stores cover the memory, and
  \<open>Memory_Blocks\<close> composes them to blocks of instructions over registers and memory (instantiated
  in \<open>Memory_Samples\<close>). \<open>mem_covers\<close> says that a memory agrees with every location of a state, \<open>ro\<close> is the
  memory that no instruction writes. \<open>load_guard\<close>, \<open>store_guard\<close> and \<open>cell_guard\<close> are computed on the
  state: the address is tracked, a possible overwrite is recognised as one, initial values
  are taken from memory that nothing writes.

  \<^bold>\<open>Bounds and fuel.\<close> \<open>topoLoopHelper\<close> and \<open>topoNodeHelper\<close> take the number of blocks as fuel, which
  \<open>order_total\<close> shows to be enough; \<open>collect_all\<close> takes one round per block and one more;
  \<open>processCFG\<close> takes the depth of calls and the number of rounds as arguments, since neither is
  bounded in the code: more of either never changes a result (\<open>processCFG_mono\<close>), and
  \<open>driver_finishes\<close> gives enough rounds when the states go down a well-founded order.

  \<^bold>\<open>Not modelled.\<close> Logging and timing; code that the build never compiles (under \<open>LINBOUND\<close>,
  \<open>INTER_PROCEDURAL\<close>, \<open>TODO\<close>, \<open>POLY_DEBUG\<close>); the registration of the plugin; the vendored headers of OTAWA
  and elm other than the driver, the store and the graph that the analysis instantiates. Stepped
  locations (arrays, with their counters and avatars) and the join of states with memory are
  modelled, but the covering theorems are about registers, counters and locations of a single cell,
  and about calls only that their contexts and states are passed as the code does.
\<close>

section \<open>The analysis of a program\<close>





text \<open>
  C3 A basic block with loads and stores. When the code returns a state for a block over registers
  and memory, every state of the machine, registers and memory, that the block leads to from one
  that the state before stands for is one that the result stands for: the values of registers and
  the contents of the locations that the analysis follows. Locations hold one cell, and the
  guards of loads and stores hold where they are carried out.
\<close>

theorem memory_block_covers:
  assumes "poly_env E" and "process_basic E insts live s an = Some (s', an')" and "good_mem E (an_gen an) s"
    and "mem_insts_tracked E ro insts (s, an_gen an)" and "ro_ok ro M"
    and "mem_covers E X s R M" and "mem_steps ro (concat insts) (R, M) (R', M')"
  shows "mem_covers E X s' R' M' \<and> good_mem E (an_gen an') s'"
  by (rule poly_env.memory_block_sound [OF assms])

theorem memory_block_covers_witness:
  "mem_covers sample_env {} memory_result regs_last memory_last \<and> good_mem sample_env (an_gen memory_analysis) memory_result"
proof (rule memory_block_covers [OF sample_env_laws memory_processed top_good memory_tracked _ top_covers memory_steps])
  show "ro_ok rom memory_first" by (simp add: ro_ok_def rom_def memory_first_def)
qed

text \<open>
  C4 A store. Whatever location the store writes, the state after it stands for the memory with the
  cell written: the location that is certainly written has the new value, those that may be
  written have the old or the new value, and a location is made when none is certain.
\<close>

theorem store_covers:
  assumes "poly_env E" and "good_mem E gen d" and "si_op si = STORE" and "onSemInst E si d gen = Some (d', gen')"
    and "store_guard E si d" and "mem_covers E X d R M"
  shows "mem_covers E X d' R (M(R (Reg (si_a si)) := R (Reg (si_d si)))) \<and> good_mem E gen' d'"
  using poly_env.store_inst [OF assms] by blast

theorem store_covers_witness:
  "mem_covers sample_env {} pointer_result pointer_regs (pointer_memory(3 := 3)) \<and> good_mem sample_env pointer_gen pointer_result"
  using store_covers [OF sample_env_laws conjunct1 [OF pointer_sound] _ pointer_stored pointer_guard conjunct2 [OF pointer_sound]]
  by (simp add: sample_inst_def pointer_regs_def)

text \<open>
  C5 A basic block. Running the instructions of a block, forgetting its temporaries and the
  registers that are dead at its end, projecting out and counting the memory variables leaves a
  state that stands for every machine state the instructions lead to from one of those before,
  for the instructions over registers, the branch at the end included, when their operands are
  defined as they are read.
\<close>

theorem block_covers:
  assumes "poly_env E" and "process_basic E insts live s an = Some (s', an')" and "plain E (an_gen an) s" and "\<not> hasFilter s"
    and "\<forall>sem \<in> set insts. list_all supported sem" and "insts_tracked E insts (s, an_gen an)"
    and "covers E X s \<rho>" and "sem_steps (concat insts) \<rho> \<rho>'"
  shows "covers E X s' \<rho>'"
  by (rule poly_env.basic_block_sound(4) [OF assms])

theorem block_covers_witness:
  "covers sample_env {} block_result main_last"
proof (rule block_covers [OF sample_env_laws block_processed])
  show "plain sample_env (an_gen (sample_analysis 0)) (dom_top sample_env None)" "\<not> hasFilter (dom_top sample_env None)"
    using poly_env.bare_top [OF sample_env_laws, of 0] no_filter_top
    by (simp_all add: plain_def sample_gen poly_env.bare_def [OF sample_env_laws] reg_only_def)
  show "\<forall>sem \<in> set block_insts. list_all supported sem" by code_simp
  show "insts_tracked sample_env block_insts (dom_top sample_env None, an_gen (sample_analysis 0))" by code_simp
  show "covers sample_env {} (dom_top sample_env None) main_first"
    using poly_env.bare_top [OF sample_env_laws, of 0]
    by (simp add: covers_def poly_env.bare_def [OF sample_env_laws] counters_in_def in_bound_nonpos main_first_def special_def)
  show "sem_steps (concat block_insts) main_first main_last" using main_steps by (simp add: block_insts_def)
qed

text \<open>
  C6 The initial state. The manager of a graph is always built, and its initial state stands for
  exactly the assignments in which the stack, frame and link registers have the values recorded
  under their special names and the first two lie in the segment of the stack.
\<close>

theorem manager_start:
  assumes "poly_env E"
  shows "\<exists>s. manager_new E gen = Some (\<lparr>m_init = s, m_bot = dom_bottom E, m_top = dom_top E None\<rparr>, gen + 6) \<and>
    dom_ok E (gen + 6) s \<and> dom_sem E s = {\<rho>. stack_start \<rho>}"
  using poly_env.manager_init_ok [OF assms, of gen]
  by (auto simp: manager_new_def poly_env.settled_in_def [OF assms] plain_def)

theorem manager_start_witness:
  "\<exists>s. manager_new sample_env 3 = Some (\<lparr>m_init = s, m_bot = dom_bottom sample_env, m_top = dom_top sample_env None\<rparr>, 3 + 6) \<and>
    dom_ok sample_env (3 + 6) s \<and> dom_sem sample_env s = {\<rho>. stack_start \<rho>}"
  by (rule manager_start [OF sample_env_laws])

section \<open>The transfer of one instruction\<close>

text \<open>
  C7 Straight-line code over registers is transferred exactly. For a list of SETI, SET, ADD, SUB,
  CMP and CMPU instructions whose operands are defined when they are read, from a well-formed
  state without a pending comparison, the analysis returns a state, never aborts, keeps the
  invariant, and the states it describes are exactly the images of the states before under the
  execution of the instructions one after the other (over unbounded numbers).
\<close>

theorem straight_line_code:
  assumes "poly_env E" and "dom_ok E gen d" and "\<not> hasFilter d"
    and "\<forall>si \<in> set code. si_op si \<in> {SETI, SET, ADD, SUB, CMP, CMPU}"
    and "reads_defined code {i. hasIdent d i}"
  shows "\<exists>d'. sem_insts E code d gen = Some (d', gen + length code) \<and>
    dom_ok E (gen + length code) d' \<and> dom_sem E d' = regs_exec code ` dom_sem E d"
  by (rule poly_env.straight_line_exact [OF assms(1-3)]) (use assms in auto)

theorem straight_line_code_witness:
  "\<exists>d'. sem_insts sample_env sample_code (dom_top sample_env None) 0 = Some (d', 0 + length sample_code) \<and>
    dom_ok sample_env (0 + length sample_code) d' \<and>
    dom_sem sample_env d' = regs_exec sample_code ` dom_sem sample_env (dom_top sample_env None)"
  by (rule straight_line_code [OF sample_env_laws dom_top_ok [OF sample_env_laws] no_filter_top])
    (use sample_code_ok in blast)+

text \<open>
  C8 Multiplication and the bitwise operations lose no state. From a state with both
  operands defined, MUL, AND, OR and XOR return a well-formed state; it describes every state in
  which the destination has received the product (MUL) or any value at all (the bitwise
  operations, which the domain does not interpret).
\<close>

theorem product_and_bitwise:
  assumes "poly_env E" and "dom_ok E gen d" and "\<not> hasFilter d"
    and "si_op si \<in> {MUL, AND_OP, OR_OP, XOR_OP}"
    and "hasIdent d (Reg (si_a si))" and "hasIdent d (Reg (si_b si))"
  shows "\<exists>d'. onSemInst E si d gen = Some (d', gen + 1) \<and> dom_ok E (gen + 1) d' \<and>
    (\<forall>\<rho> \<in> dom_sem E d. \<forall>x. si_op si = MUL \<longrightarrow> x = \<rho> (Reg (si_a si)) * \<rho> (Reg (si_b si)) \<longrightarrow>
      \<rho>(Reg (si_d si) := x) \<in> dom_sem E d')"
  using assms(1) by (rule poly_env.other_binary_sound [OF _ assms(2-)]) blast

theorem product_and_bitwise_witness:
  "\<exists>d'. onSemInst sample_env (sample_inst MUL 4 1 2) sample_regs 3 = Some (d', 3 + 1) \<and>
    dom_ok sample_env (3 + 1) d' \<and>
    (\<forall>\<rho> \<in> dom_sem sample_env sample_regs. \<forall>x. si_op (sample_inst MUL 4 1 2) = MUL \<longrightarrow>
      x = \<rho> (Reg (si_a (sample_inst MUL 4 1 2))) * \<rho> (Reg (si_b (sample_inst MUL 4 1 2))) \<longrightarrow>
      \<rho>(Reg (si_d (sample_inst MUL 4 1 2)) := x) \<in> dom_sem sample_env d')"
  by (rule product_and_bitwise [OF sample_env_laws sample_regs_ok(1) sample_regs_has(4)])
    (simp_all add: sample_inst_def sample_regs_has)

section \<open>Loops\<close>

text \<open>
  C9 Entering a loop sets its iteration counter to zero and changes nothing else: the states after
  are exactly the states before with the counter reset.
\<close>

theorem loop_entry_exact:
  assumes "poly_env E" and "dom_ok E gen d"
  shows "\<exists>d'. onLoopEntry E loop d gen = Some (d', gen + 1) \<and> dom_ok E (gen + 1) d' \<and>
    dom_sem E d' = (\<lambda>\<rho>. \<rho>(Ident loop ID_LOOP := 0)) ` dom_sem E d"
  using assms(1) by (rule poly_env.loop_entry [OF _ assms(2)]) blast

theorem loop_entry_exact_witness:
  "\<exists>d'. onLoopEntry sample_env 9 sample_regs 3 = Some (d', 3 + 1) \<and> dom_ok sample_env (3 + 1) d' \<and>
    dom_sem sample_env d' = (\<lambda>\<rho>. \<rho>(Ident 9 ID_LOOP := 0)) ` dom_sem sample_env sample_regs"
  by (rule loop_entry_exact [OF sample_env_laws sample_regs_ok(1)])

text \<open>
  C10 A back edge increments the counter of its loop exactly, in a state where the loop has been
  entered.
\<close>

theorem loop_iter_exact:
  assumes "poly_env E" and "dom_ok E gen d" and "hasIdent d (Ident loop ID_LOOP)"
  shows "\<exists>d'. onLoopIter E loop d gen = Some (d', gen + 1) \<and> dom_ok E (gen + 1) d' \<and>
    dom_sem E d' = (\<lambda>\<rho>. \<rho>(Ident loop ID_LOOP := \<rho> (Ident loop ID_LOOP) + 1)) ` dom_sem E d"
  using assms(1) by (rule poly_env.loop_iter [OF _ assms(2,3)]) blast

theorem loop_iter_exact_witness:
  "\<exists>d'. onLoopIter sample_env 9 sample_loop 4 = Some (d', 4 + 1) \<and> dom_ok sample_env (4 + 1) d' \<and>
    dom_sem sample_env d' =
      (\<lambda>\<rho>. \<rho>(Ident 9 ID_LOOP := \<rho> (Ident 9 ID_LOOP) + 1)) ` dom_sem sample_env sample_loop"
  by (rule loop_iter_exact [OF sample_env_laws sample_loop_ok sample_loop_has])

text \<open>
  C11 Leaving a loop keeps every state whose counter respects the bound found for the loop (every
  state when there is none), removes the counter from the mapping and keeps the invariant.
\<close>

theorem loop_exit_sound:
  assumes "poly_env E" and "dom_ok E gen d" and "hasIdent d (Ident loop ID_LOOP)"
  shows "\<exists>d'. onLoopExit E loop bound d = Some d' \<and> dom_ok E gen d' \<and>
    (\<forall>\<rho> \<in> dom_sem E d. (0 \<le> bound \<longrightarrow> \<rho> (Ident loop ID_LOOP) \<le> of_int bound) \<longrightarrow> \<rho> \<in> dom_sem E d') \<and>
    \<not> hasIdent d' (Ident loop ID_LOOP)"
  using assms(1) by (rule poly_env.loop_exit [OF _ assms(2,3), where bound = bound]) blast

theorem loop_exit_sound_witness:
  "\<exists>d'. onLoopExit sample_env 9 10 sample_loop = Some d' \<and> dom_ok sample_env 4 d' \<and>
    (\<forall>\<rho> \<in> dom_sem sample_env sample_loop. (0 \<le> (10 :: int) \<longrightarrow> \<rho> (Ident 9 ID_LOOP) \<le> of_int 10) \<longrightarrow>
      \<rho> \<in> dom_sem sample_env d') \<and> \<not> hasIdent d' (Ident 9 ID_LOOP)"
  by (rule loop_exit_sound [OF sample_env_laws sample_loop_ok sample_loop_has])


section \<open>Polyhedra over variables with global identifiers\<close>

text \<open>
  C12 Adding a constraint is exact. Variables that the polyhedron does not track yet get the next
  dimensions, so the wrapper stays well-formed, tracks exactly its old variables and those of the
  constraint, and describes exactly the valuations of before that satisfy the constraint.
\<close>

theorem constraint_exact:
  assumes "ppl_laws P" and "wp_ok P w"
  shows "wp_ok P (wp_add_constraint P c w) \<and>
    wp_dom (wp_add_constraint P c w) = wp_dom w \<union> wc_vars c \<and>
    wsem P (wp_add_constraint P c w) = wsem P w \<inter> {v. wc_sat v c}"
  using ppl_laws.add_constraint [OF assms] by blast

theorem constraint_exact_witness:
  "wp_ok clist_ppl (wp_add_constraint clist_ppl (w_eq (V 3) (K 4)) sample_poly) \<and>
    wp_dom (wp_add_constraint clist_ppl (w_eq (V 3) (K 4)) sample_poly) =
      wp_dom sample_poly \<union> wc_vars (w_eq (V 3) (K 4)) \<and>
    wsem clist_ppl (wp_add_constraint clist_ppl (w_eq (V 3) (K 4)) sample_poly) =
      wsem clist_ppl sample_poly \<inter> {v. wc_sat v (w_eq (V 3) (K 4))}"
  by (rule constraint_exact [OF clist.ppl_laws_axioms sample_poly_ok])

text \<open>
  C13 The intersection of two polyhedra that track different variables is computed after both have
  been brought to the union of their variables in the same dimensions: it always succeeds when
  there is a variable at all, and describes exactly the common valuations.
\<close>

theorem intersection_exact:
  assumes "ppl_laws P" and "wp_ok P w" and "wp_ok P src" and "wp_dom w \<union> wp_dom src \<noteq> {}"
  shows "\<exists>w'. wp_intersection P w src = Some w' \<and> wp_ok P w' \<and> wp_dom w' = wp_dom w \<union> wp_dom src \<and>
    wsem P w' = wsem P w \<inter> wsem P src"
  by (rule ppl_laws.intersection [OF assms]) blast

theorem intersection_exact_witness:
  "\<exists>w'. wp_intersection clist_ppl sample_poly sample_poly2 = Some w' \<and> wp_ok clist_ppl w' \<and>
    wp_dom w' = wp_dom sample_poly \<union> wp_dom sample_poly2 \<and>
    wsem clist_ppl w' = wsem clist_ppl sample_poly \<inter> wsem clist_ppl sample_poly2"
  by (rule intersection_exact [OF clist.ppl_laws_axioms sample_poly_ok sample_poly2_ok])
    (use sample_poly_dom in blast)

text \<open>
  C14 The convex hull of two polyhedra with a variable in common succeeds, is over the common
  variables, and covers both operands.
\<close>

theorem hull_covers:
  assumes "ppl_laws P" and "wp_ok P w" and "wp_ok P src" and "wp_dom w \<inter> wp_dom src \<noteq> {}"
  shows "\<exists>w'. wp_hull P w src = Some w' \<and> wp_ok P w' \<and> wp_dom w' = wp_dom w \<inter> wp_dom src \<and>
    wsem P w \<union> wsem P src \<subseteq> wsem P w'"
  by (rule ppl_laws.hull [OF assms]) blast

theorem hull_covers_witness:
  "\<exists>w'. wp_hull clist_ppl sample_poly sample_poly2 = Some w' \<and> wp_ok clist_ppl w' \<and>
    wp_dom w' = wp_dom sample_poly \<inter> wp_dom sample_poly2 \<and>
    wsem clist_ppl sample_poly \<union> wsem clist_ppl sample_poly2 \<subseteq> wsem clist_ppl w'"
  by (rule hull_covers [OF clist.ppl_laws_axioms sample_poly_ok sample_poly2_ok])
    (use sample_poly_dom in blast)

text \<open>
  C15 Two polyhedra without a common variable can be neither joined nor widened: the
  assertion in the alignment of the dimensions fails, whatever the polyhedra are.
\<close>

theorem no_common_variable_aborts:
  assumes "ppl_laws P" and "wp_ok P w" and "wp_ok P src" and "wp_dom w \<inter> wp_dom src = {}"
  shows "wp_hull P w src = None \<and> wp_h79 P w src = None"
  using ppl_laws.no_common_variable [OF assms] by blast

theorem no_common_variable_aborts_witness:
  "wp_hull clist_ppl sample_poly (wp_new clist_ppl False) = None \<and>
    wp_h79 clist_ppl sample_poly (wp_new clist_ppl False) = None"
  by (rule no_common_variable_aborts [OF clist.ppl_laws_axioms sample_poly_ok])
    (rule ppl_laws.new_ok [OF clist.ppl_laws_axioms], simp add: wp_new_def wp_dom_def)



text \<open>
  C17 Renaming the variables by an injective map that drops none is exact: the result is defined,
  well-formed, tracks the renamed variables, and a valuation belongs to it exactly when the
  valuation it comes from belonged to the original.
\<close>

theorem rename_exact:
  assumes "ppl_laws P" and "wp_ok P w" and "inj_on f {g \<in> wp_dom w. f g \<noteq> None}"
    and "\<forall>g \<in> wp_dom w. f g \<noteq> None"
  shows "\<exists>w'. wp_map_vars P f w = Some w' \<and> wp_ok P w' \<and>
    (\<forall>j. j \<in> wp_dom w' \<longleftrightarrow> (\<exists>g \<in> wp_dom w. f g = Some j)) \<and>
    (\<forall>v v'. (\<forall>g \<in> wp_dom w. \<forall>j. f g = Some j \<longrightarrow> v' j = v g) \<longrightarrow> (v' \<in> wsem P w' \<longleftrightarrow> v \<in> wsem P w))"
proof (rule ppl_laws.map_vars [OF assms(1-3)])
  fix w'
  assume w': "wp_map_vars P f w = Some w'" "wp_ok P w'" "\<And>j. j \<in> wp_dom w' \<longleftrightarrow> (\<exists>g \<in> wp_dom w. f g = Some j)"
    and fwd: "\<And>v v'. v \<in> wsem P w \<Longrightarrow> (\<And>g j. g \<in> wp_dom w \<Longrightarrow> f g = Some j \<Longrightarrow> v' j = v g) \<Longrightarrow> v' \<in> wsem P w'"
    and bwd: "\<And>v v'. (\<And>g. g \<in> wp_dom w \<Longrightarrow> f g \<noteq> None) \<Longrightarrow> v' \<in> wsem P w' \<Longrightarrow>
      (\<And>g j. g \<in> wp_dom w \<Longrightarrow> f g = Some j \<Longrightarrow> v' j = v g) \<Longrightarrow> v \<in> wsem P w"
  have "v' \<in> wsem P w' \<longleftrightarrow> v \<in> wsem P w" if "\<forall>g \<in> wp_dom w. \<forall>j. f g = Some j \<longrightarrow> v' j = v g" for v v'
    using fwd [of v v'] bwd [of v' v] that assms(4) by blast
  with w' show ?thesis by blast
qed

theorem rename_exact_witness:
  "\<exists>w'. wp_map_vars clist_ppl (\<lambda>g. Some (g + 10)) sample_poly = Some w' \<and> wp_ok clist_ppl w' \<and>
    (\<forall>j. j \<in> wp_dom w' \<longleftrightarrow> (\<exists>g \<in> wp_dom sample_poly. Some (g + 10) = Some j)) \<and>
    (\<forall>v v'. (\<forall>g \<in> wp_dom sample_poly. \<forall>j. Some (g + 10) = Some j \<longrightarrow> v' j = v g) \<longrightarrow>
      (v' \<in> wsem clist_ppl w' \<longleftrightarrow> v \<in> wsem clist_ppl sample_poly))"
  by (rule rename_exact [OF clist.ppl_laws_axioms sample_poly_ok]) (simp_all add: inj_on_def)

text \<open>
  C18 Reading the constraints back is exact: every constraint of the library translates back to
  the variables, over the tracked variables only, and together they describe the polyhedron.
\<close>

theorem constraints_roundtrip:
  assumes "ppl_laws P" and "wp_ok P w"
  shows "\<exists>cs. wp_constraints P w = Some cs \<and> (\<forall>k \<in> set cs. wc_ok k \<and> wc_vars k \<subseteq> wp_dom w) \<and>
    wsem P w = {v. \<forall>k \<in> set cs. wc_sat v k}"
  by (rule ppl_laws.constraints [OF assms]) blast

theorem constraints_roundtrip_witness:
  "\<exists>cs. wp_constraints clist_ppl sample_poly = Some cs \<and>
    (\<forall>k \<in> set cs. wc_ok k \<and> wc_vars k \<subseteq> wp_dom sample_poly) \<and>
    wsem clist_ppl sample_poly = {v. \<forall>k \<in> set cs. wc_sat v k}"
  by (rule constraints_roundtrip [OF clist.ppl_laws_axioms sample_poly_ok])

text \<open>
  C19 When two polyhedra compare equal they describe the same valuations, in whatever dimensions
  each holds its variables.
\<close>

theorem equals_sound:
  assumes "ppl_laws P" and "wp_ok P w" and "wp_ok P src" and "wp_equals P w src = Some True"
  shows "wsem P w = wsem P src"
  by (rule ppl_laws.equals_sem [OF assms])

theorem equals_sound_witness:
  "wsem clist_ppl sample_poly = wsem clist_ppl sample_poly3"
  by (rule equals_sound [OF clist.ppl_laws_axioms sample_poly_ok sample_poly3_ok sample_poly3_eq])

text \<open>
  C20 The bounds that maximisation and minimisation report hold for every valuation, with a positive
  denominator.
\<close>

theorem bounds_sound:
  assumes "ppl_laws P" and "wp_ok P w" and "v \<in> wsem P w"
    and "wp_minimize P w le = Some (m, k, b)" and "wp_maximize P w le = Some (n, l, c)"
  shows "0 < k \<and> 0 < l \<and> of_int m / of_int k \<le> le_eval v le \<and> le_eval v le \<le> of_int n / of_int l"
  using ppl_laws.minimize_bound [OF assms(1,2,4,3)] ppl_laws.maximize_bound [OF assms(1,2,5,3)]
  by (auto simp: pos_le_divide_eq pos_divide_le_eq)

theorem bounds_sound_witness:
  "0 < (1::int) \<and> 0 < (1::int) \<and> of_int 2 / of_int 1 \<le> le_eval (\<lambda>g. 2) (V 1) \<and>
    le_eval (\<lambda>g. 2) (V 1) \<le> of_int 5 / of_int 1"
  by (rule bounds_sound [OF clist.ppl_laws_axioms sample_poly_ok sample_poly_point])
    code_simp+

section \<open>Conditions, arguments and what is exported\<close>

text \<open>
  C21 The transfer of a branch never aborts after a comparison of registers: it keeps every state
  in which the compared difference satisfies the condition of the edge (its negation on the
  edge that is not taken), consumes the comparison, keeps the invariant of the state and that
  of the recorded conditions, and leaves the arguments of the program alone.
\<close>

theorem branch_keeps_taken:
  assumes "poly_env E" and "dom_ok E gen d" and "hasFilter d" and "hasIdent d (d_compare_reg d)"
    and "id_type (d_compare_reg d) \<noteq> ID_MEM_ADDR" and "is_relation (d_compare_op d)"
    and "used_ok ctx" and "ctx_ok ctx"
  shows "\<exists>d' ctx'. onBranch E taken addr d ctx = Some (d', ctx') \<and> dom_ok E gen d' \<and> ctx_ok ctx' \<and>
    bx_used ctx' = bx_used ctx \<and> \<not> hasFilter d' \<and>
    (\<forall>\<rho> \<in> dom_sem E d. \<rho> (d_compare_reg d) \<in> \<int> \<longrightarrow>
      cond_sat (d_compare_op d) (\<rho> (d_compare_reg d)) = taken \<longrightarrow> \<rho> \<in> dom_sem E d')"
  using assms(1) by (rule poly_env.branch_sound [OF _ assms(2-), of taken addr]) blast

theorem branch_keeps_taken_witness:
  "\<exists>d' ctx'. onBranch sample_env False 64 sample_compared bx_init = Some (d', ctx') \<and> dom_ok sample_env 2 d' \<and>
    ctx_ok ctx' \<and> bx_used ctx' = bx_used bx_init \<and> \<not> hasFilter d' \<and>
    (\<forall>\<rho> \<in> dom_sem sample_env sample_compared. \<rho> (d_compare_reg sample_compared) \<in> \<int> \<longrightarrow>
      cond_sat (d_compare_op sample_compared) (\<rho> (d_compare_reg sample_compared)) = False \<longrightarrow> \<rho> \<in> dom_sem sample_env d')"
  by (rule branch_keeps_taken [OF sample_env_laws sample_compared_ok(1,2)])
    (simp_all add: sample_compared_ok is_relation_def used_ok_def bx_init_def ctx_init_ok [unfolded bx_init_def])

text \<open>
  C22 At the entry of the program the registers 0 to 3 are copied into symbols for the arguments:
  the states are those of before in which every symbol equals its register, and each symbol is
  recorded under its register for the export.
\<close>

theorem arguments_kept:
  assumes "poly_env E" and "dom_ok E gen s" and "\<forall>r \<in> {0, 1, 2, 3}. \<not> hasIdent s (Reg r) \<and> \<not> hasIdent s (Param r)"
    and "bx_used ctx = []"
  shows "\<exists>s' ctx' gen'. initFunctionParameters E True s ctx gen = Some (s', ctx', gen') \<and> dom_ok E gen' s' \<and>
    used_ok ctx' \<and> params_ok s' (bx_used ctx') {0, 1, 2, 3} \<and>
    dom_sem E s' = {\<rho> \<in> dom_sem E s. \<forall>r \<in> {0, 1, 2, 3}. \<rho> (Param r) = \<rho> (Reg r)}"
proof -
  have free: "r \<in> {0, 1, 2, 3} \<Longrightarrow> \<not> hasIdent s (Reg r) \<and> \<not> hasIdent s (Param r)" for r using assms(3) by blast
  show ?thesis using assms(1) by (rule poly_env.init_parameters [OF _ assms(2) free assms(4)]) blast+
qed

theorem arguments_kept_witness:
  "\<exists>s' ctx' gen'. initFunctionParameters sample_env True (dom_top sample_env None) bx_init 0 = Some (s', ctx', gen') \<and>
    dom_ok sample_env gen' s' \<and> used_ok ctx' \<and> params_ok s' (bx_used ctx') {0, 1, 2, 3} \<and>
    dom_sem sample_env s' = {\<rho> \<in> dom_sem sample_env (dom_top sample_env None). \<forall>r \<in> {0, 1, 2, 3}. \<rho> (Param r) = \<rho> (Reg r)}"
  by (rule arguments_kept [OF sample_env_laws dom_top_ok [OF sample_env_laws]])
    (simp_all add: hasIdent_iff dom_top_def bx_init_def)

text \<open>
  C23 The export of the recorded conditions never fails: it writes, in the order in which the
  branches were met, one row for a condition outside every loop and the rows of both directions
  for a loop.
\<close>

theorem conditions_exported:
  assumes "ctx_ok ctx"
  shows "exportOrderedConstraints (bx_order ctx) (bx_loops ctx) rows =
    Some (rows @ concat (map (element_rows (bx_loops ctx) \<circ> snd) (bx_order ctx)))"
  by (rule export_rows [OF assms])

theorem conditions_exported_witness:
  "exportOrderedConstraints (bx_order (record_condition sample_condition bx_init)) (bx_loops (record_condition sample_condition bx_init))
     resetFile = Some (resetFile @ concat (map (element_rows (bx_loops (record_condition sample_condition bx_init)) \<circ> snd)
       (bx_order (record_condition sample_condition bx_init))))"
  by (rule conditions_exported, rule record_condition_ok(1) [OF ctx_init_ok]) (simp add: sample_condition_def)

text \<open>
  C24 Numbers in exported conditions are written into a buffer of eight bytes: numbers of at most
  seven digits read back as they were, longer ones silently lose their last digits.
\<close>

theorem numbers_written:
  assumes "0 \<le> k"
  shows "(k < 10 ^ 7 \<longrightarrow> int (read_nat (parse k)) = k) \<and>
    (10 ^ 7 \<le> k \<longrightarrow> parse k = parse (k div 10) \<and> int (read_nat (parse k)) < k)"
  using parse_exact [OF assms] parse_truncates [of k] by blast

theorem numbers_written_witness:
  "parse 12345678 = parse 1234567 \<and> int (read_nat (parse 12345678)) < 12345678"
proof -
  have "(0 :: int) \<le> 12345678" and long: "(10 :: int) ^ 7 \<le> 12345678" and d: "(12345678 :: int) div 10 = 1234567" by simp_all
  then show ?thesis using mp [OF conjunct2 [OF numbers_written] long] unfolding d by blast
qed



section \<open>Join, widening and comparison of states\<close>

text \<open>
  C26 Joining and widening reachable states over registers that share a register never aborts. The
  result covers both operands, keeps the invariant, stays over registers and has no variable
  left to project out.
\<close>

theorem merge_covers:
  assumes "poly_env E" and "plain E gen d" and "plain E gen r" and "mergeable E d r"
  shows "\<exists>s. onMerge E d r widen avcreate gen = Some (s, gen) \<and> plain E gen s \<and>
    dom_sem E d \<union> dom_sem E r \<subseteq> dom_sem E s"
  using assms(1) by (rule poly_env.merge_plain [OF _ assms(2-), of widen avcreate]) blast

theorem merge_covers_witness:
  "\<exists>s. onMerge sample_env sample_state sample_state True True 2 = Some (s, 2) \<and> plain sample_env 2 s \<and>
    dom_sem sample_env sample_state \<union> dom_sem sample_env sample_state \<subseteq> dom_sem sample_env s"
  by (rule merge_covers [OF sample_env_laws sample_state_ok sample_state_ok sample_mergeable(2)])

text \<open>
  C27 When the comparison of two states over registers says that they are equal, every state of
  the first is one of the second, and a reachable first state has the same registers.
\<close>

theorem equal_included:
  assumes "poly_env E" and "plain E gen d" and "plain E gen b" and "dom_equals E d b gen = Some (True, gen')"
  shows "dom_sem E d \<subseteq> dom_sem E b \<and> (isBottom E d \<or> hasIdent d = hasIdent b)"
  using poly_env.equals_included [OF assms(1) _ _ _ _ assms(4)] assms(2,3) by (auto simp: plain_def)

theorem equal_included_witness:
  "dom_sem sample_env sample_state \<subseteq> dom_sem sample_env sample_state2 \<and>
    (isBottom sample_env sample_state \<or> hasIdent sample_state = hasIdent sample_state2)"
  by (rule equal_included [OF sample_env_laws sample_state_ok sample_state2_ok sample_states_equal])

text \<open>C28 Comparing two unreachable states aborts: they have no variable in common.\<close>

theorem bottoms_abort: "poly_env E \<Longrightarrow> dom_equals E (dom_bottom E) (dom_bottom E) gen = None"
  by (rule poly_env.bottom_equals_aborts)

theorem bottoms_abort_witness: "dom_equals sample_env (dom_bottom sample_env) (dom_bottom sample_env) 3 = None"
  by (rule bottoms_abort [OF sample_env_laws])

text \<open>
  C29 Linear forms that differ by a factor have the same normal form, so the table of forms
  identifies the variables they define.
\<close>

theorem normal_form_unique:
  assumes "k \<noteq> 0" and "vect \<noteq> []"
  shows "vect_normal (map ((*) k) vect) = vect_normal vect"
  by (rule vect_normal_scale [OF assms])

theorem normal_form_unique_witness: "vect_normal (map ((*) (- 3)) [4, - 6, 10]) = vect_normal [4, - 6, 10]"
  by (rule normal_form_unique) simp_all

section \<open>Loop headers and the fixpoint\<close>

text \<open>
  C30 The state that a loop header hands to its block covers what enters the loop and what comes
  back over the back edges, and the table of headers keeps a well-formed entry whose state
  covers its entry state. This holds on the first visit, when the entry has changed and when it
  has not, for reachable entries over registers that share a register with the back edges.
\<close>

theorem header_covers_both:
  assumes "poly_env E" and "header_inputs (man_domain E man) c v st (an_gen an) = Some (entry, back, gen)"
    and "plain E gen entry" and "\<not> isBottom E entry" and "plain E gen back"
    and "\<forall>h. ht_find hash_int hs (block_id c v) = Some h \<longrightarrow> header_ok E gen h"
    and "header_update E (man_domain E man) (block_id c v) entry hs gen = Some (h, gen')"
    and "mergeable E back (hs_state h)" and "isBottom E back \<or> hasIdent back (Ident (block_id c v) ID_LOOP)"
    and "om_ok (an_bounds an)" and "ht_ok hash_int hs"
  shows "\<exists>s hs' an' h'. processHeader E man c v st hs an = Some (s, hs', an') \<and> plain E (an_gen an') s \<and>
    dom_sem E entry \<union> dom_sem E back \<subseteq> dom_sem E s \<and>
    ht_find hash_int hs' (block_id c v) = Some h' \<and> header_ok E (an_gen an') h' \<and> hs_state h' = s"
proof -
  have old: "ht_find hash_int hs (block_id c v) = Some h \<Longrightarrow> header_ok E gen h" for h using assms(6) by blast
  show ?thesis
    by (rule poly_env.header_covers [OF assms(1,2,3,4,5) old assms(7-11)]) blast+
qed

theorem header_covers_both_witness:
  "\<exists>s hs' an' h'. processHeader sample_env sample_man sample_cfg 2 sample_store (ht_new default_size) (sample_analysis 2) =
      Some (s, hs', an') \<and> plain sample_env (an_gen an') s \<and>
    dom_sem sample_env sample_copied \<union> dom_sem sample_env sample_copied \<subseteq> dom_sem sample_env s \<and>
    ht_find hash_int hs' (block_id sample_cfg 2) = Some h' \<and> header_ok sample_env (an_gen an') h' \<and> hs_state h' = s"
proof -
  have id2: "block_id sample_cfg 2 = 2" by (simp add: block_id_def sample_cfg_def)
  show ?thesis
    by (rule header_covers_both [OF sample_env_laws sample_inputs sample_copied(2) _ sample_copied(2),
          where gen' = 2 and h = "\<lparr>hs_avcreate = True, hs_state = sample_copied, hs_entry = sample_copied\<rparr>"])
      (simp_all add: id2 sample_copied_facts sample_not_bottom sample_update hint.find_new [OF default_size_ok]
        ht_ok_new [OF default_size_ok] sample_analysis_def analysis_start_def om_ok_def)
qed

text \<open>
  C31 When the loop over the blocks of a graph ends, nothing is left to do: every block but the
  exit that has received a state was last processed with exactly the states that its incoming
  edges have at the end, and its outgoing edges have the states that this left there.
\<close>

theorem fixpoint_reached:
  assumes "graph_ok (c_graph (cfgs ! k))" and "wl_init D (c_graph (cfgs ! k)) ord = Some w0"
    and "run_driver rounds (c_graph (cfgs ! k)) (processBB E man call cfgs k ord) (w0, r) = Some (w, r')"
    and "v < g_count (c_graph (cfgs ! k))" and "v \<noteq> g_exit (c_graph (cfgs ! k))"
    and "e \<in> set (preds (c_graph (cfgs ! k)) v)" and "wl_store w e \<noteq> None"
  shows "\<exists>w1 r1 w2 r2. processBB E man call cfgs k ord (w1, r1) = Some (w2, r2) \<and> wl_cur w1 = v \<and>
    (\<forall>e \<in> set (preds (c_graph (cfgs ! k)) v). wl_store w1 e = wl_store w e) \<and>
    (\<forall>e \<in> set (succs (c_graph (cfgs ! k)) v). wl_store w2 e = wl_store w e)"
  by (rule pbb.run_fixpoint [OF assms]) blast

theorem fixpoint_reached_witness:
  "\<exists>w1 r1 w2 r2. processBB sample_env sample_man (\<lambda>_ _ _. None) [straight_cfg] 0 None (w1, r1) = Some (w2, r2) \<and> wl_cur w1 = 2 \<and>
    (\<forall>e \<in> set (preds (c_graph ([straight_cfg] ! 0)) 2). wl_store w1 e = wl_store (fst straight_end) e) \<and>
    (\<forall>e \<in> set (succs (c_graph ([straight_cfg] ! 0)) 2). wl_store w2 e = wl_store (fst straight_end) e)"
proof -
  have g: "c_graph ([straight_cfg] ! 0) = straight_graph" by (simp add: straight_cfg_def)
  have run: "run_driver 1 (c_graph ([straight_cfg] ! 0)) (processBB sample_env sample_man (\<lambda>_ _ _. None) [straight_cfg] 0 None)
      (straight_start, ht_new default_size, sample_analysis 0) = Some (fst straight_end, snd straight_end)"
    using straight_run by (simp only: g prod.collapse)
  show ?thesis
    by (rule fixpoint_reached [OF _ _ run, where e = 0, unfolded g, OF straight_graph_ok straight_init _ _ _ straight_reached,
          folded g]) (simp_all add: straight_cfg_def straight_graph_def preds_def)
qed



text \<open>
  C33 The block that is processed is never one that must wait: no block that is left in the work
  list comes before it in the order of the analysis.
\<close>

theorem urgent_first:
  assumes "driven D g (Some (isBefore t)) w seen" and "graph_ok g" and "{..<g_count g} \<subseteq> placed t"
    and "\<not> wl_end w" and "x \<in> set (wl_vertices w)"
  shows "isBefore t x (wl_cur w) = Some False"
  by (rule pto.driven_ordered(2) [OF assms])

theorem urgent_first_witness: "isBefore sample_order 2 (wl_cur sample_driver) = Some False"
  by (rule urgent_first [OF sample_driven sample_fork_ok sample_order_placed sample_driver_waits(1,3)])

text \<open>
  C34 The numbering of the blocks always succeeds, places every block, and gives different blocks
  different numbers, which go up along every edge that is not a back edge.
\<close>

theorem order_total:
  assumes "loops_ok g L rank depth" and "graph_ok g"
  shows "\<exists>t. getPseudoTopo g L = Some t \<and> {..<g_count g} \<subseteq> placed t \<and>
    (\<forall>v < g_count g. in_loop t v \<longleftrightarrow> li_header L v \<or> li_enclosing L v \<noteq> None) \<and>
    (\<forall>u < g_count g. \<forall>v < g_count g. place_of t u = place_of t v \<longrightarrow> u = v) \<and>
    (\<forall>e < length (g_edges g). \<not> li_back L e \<longrightarrow> place_of t (sourceOf g e) < place_of t (sinkOf g e))"
  by (rule topo_complete [OF assms])

theorem order_total_witness:
  "\<exists>t. getPseudoTopo sample_graph sample_loops = Some t \<and> {..<g_count sample_graph} \<subseteq> placed t \<and>
    (\<forall>v < g_count sample_graph. in_loop t v \<longleftrightarrow> li_header sample_loops v \<or> li_enclosing sample_loops v \<noteq> None) \<and>
    (\<forall>u < g_count sample_graph. \<forall>v < g_count sample_graph. place_of t u = place_of t v \<longrightarrow> u = v) \<and>
    (\<forall>e < length (g_edges sample_graph). \<not> li_back sample_loops e \<longrightarrow>
      place_of t (sourceOf sample_graph e) < place_of t (sinkOf sample_graph e))"
  by (rule order_total [OF sample_loops_ok sample_graph_ok])

text \<open>
  C35 Along an edge that is not a back edge the order of the analysis processes the source first
  when both ends are in loops or both are outside; but when the edge enters an outermost loop
  it is the other way round: the header comes before the block that leads to it.
\<close>

theorem order_on_edges:
  assumes "loops_ok g L rank depth" and "graph_ok g" and "getPseudoTopo g L = Some t"
    and "e < length (g_edges g)" and "\<not> li_back L e"
  shows "(in_loop t (sourceOf g e) = in_loop t (sinkOf g e) \<longrightarrow>
      isBefore t (sourceOf g e) (sinkOf g e) = Some True \<and> isBefore t (sinkOf g e) (sourceOf g e) = Some False) \<and>
    (\<not> in_loop t (sourceOf g e) \<longrightarrow> in_loop t (sinkOf g e) \<longrightarrow>
      isBefore t (sinkOf g e) (sourceOf g e) = Some True)"
  using isBefore_forward [OF assms] by blast

theorem order_on_edges_witness:
  "isBefore (the (getPseudoTopo sample_graph sample_loops)) 2 1 = Some True"
proof -
  obtain t where t: "getPseudoTopo sample_graph sample_loops = Some t"
    and i: "\<forall>v < g_count sample_graph. in_loop t v \<longleftrightarrow> li_header sample_loops v \<or> li_enclosing sample_loops v \<noteq> None"
    using topo_complete [OF sample_loops_ok sample_graph_ok] by blast
  have "(1 :: nat) < g_count sample_graph" "(2 :: nat) < g_count sample_graph" by (simp_all add: sample_graph_def)
  then have "\<not> in_loop t 1" "in_loop t 2" using i by (auto simp: sample_loops_def)
  moreover have "(1 :: nat) < length (g_edges sample_graph)" "\<not> li_back sample_loops 1"
    "sourceOf sample_graph 1 = 1" "sinkOf sample_graph 1 = 2"
    by (simp_all add: sample_graph_def sample_loops_def sourceOf_def sinkOf_def)
  ultimately show ?thesis using order_on_edges [OF sample_loops_ok sample_graph_ok t, of 1] t by simp
qed

section \<open>Contexts of calls\<close>

text \<open>
  C36 The number that stands for a call inside a loop is exact, negative and different for
  different calls as long as the loop has a small identifier; a call outside every loop gets a
  positive number, which may be that of a loop.
\<close>

theorem call_contexts:
  assumes "0 < loop" and "loop < 2147" and "0 < inst" and "inst < MAX_LOOP"
  shows "call_loop loop inst = inst - MAX_LOOP * loop \<and> call_loop loop inst < 0 \<and> 0 < call_loop (- 1) inst \<and>
    (0 < loop' \<longrightarrow> loop' < 2147 \<longrightarrow> 0 < inst' \<longrightarrow> inst' < MAX_LOOP \<longrightarrow> call_loop loop inst = call_loop loop' inst' \<longrightarrow>
      loop = loop' \<and> inst = inst')"
proof -
  have exact: "call_loop l i = i - MAX_LOOP * l" if "-1 \<le> l" "l < 2147" "0 < i" "i < MAX_LOOP" for l i
    using that by (intro call_loop_exact) (simp_all add: MAX_LOOP_def)
  have rest: "(i - MAX_LOOP * l) mod MAX_LOOP = i" if "0 < i" "i < MAX_LOOP" for i l
    using that mod_mult_self2 [of i MAX_LOOP "- l"] by simp
  have inj: "l = l' \<and> i = i'" if eq: "i - MAX_LOOP * l = i' - MAX_LOOP * l'" and "0 < i" "i < MAX_LOOP" "0 < i'" "i' < MAX_LOOP" for l l' i i'
  proof -
    have "i = i'" using rest [of i l] rest [of i' l'] that by simp
    then show ?thesis using eq by (simp add: MAX_LOOP_def)
  qed
  have here: "call_loop loop inst = inst - MAX_LOOP * loop" "call_loop (- 1) inst = inst + MAX_LOOP"
    using exact [of loop inst] exact [of "- 1" inst] assms by simp_all
  have "loop = loop' \<and> inst = inst'" if other: "0 < loop'" "loop' < 2147" "0 < inst'" "inst' < MAX_LOOP"
      "call_loop loop inst = call_loop loop' inst'"
  proof (rule inj)
    show "inst - MAX_LOOP * loop = inst' - MAX_LOOP * loop'" using exact [of loop' inst'] here(1) other by simp
  qed (use assms(3,4) other(3,4) in blast)+
  moreover have "inst - MAX_LOOP * loop < 0" using assms by (simp add: MAX_LOOP_def)
  moreover have "0 < inst + MAX_LOOP" using assms(3) by (simp add: MAX_LOOP_def)
  ultimately show ?thesis using here by simp
qed

theorem call_contexts_witness: "call_loop 7 2 = - 6999998 \<and> call_loop 7 2 < 0 \<and> 0 < call_loop (- 1) 2"
  using call_contexts [of 7 2 1 1] by (simp add: MAX_LOOP_def)

section \<open>Tables and queries\<close>

text \<open>
  C37 The chained hash table refines a finite map: insertion, removal and copy keep it
  well-formed and act on the lookup like the updates of a map, whatever the hash function is,
  and the count is the number of keys.
\<close>

theorem table_refines_map:
  assumes "\<forall>a b. hk_equals H a b \<longleftrightarrow> a = b" and "ht_ok H t"
  shows "ht_ok H (ht_put H k x t) \<and> ht_find H (ht_put H k x t) = (ht_find H t)(k \<mapsto> x) \<and>
    ht_ok H (ht_remove H k t) \<and> ht_find H (ht_remove H k t) = (ht_find H t)(k := None) \<and>
    ht_ok H (ht_copy H t) \<and> ht_find H (ht_copy H t) = ht_find H t \<and>
    ht_count t = card (dom (ht_find H t))"
proof -
  have H: "hashing H" using assms(1) by unfold_locales blast
  show ?thesis
    using hashing.put_ok [OF H assms(2)] hashing.put_find [OF H ht_ok_wf [OF assms(2)]] hashing.remove_ok [OF H assms(2)]
      hashing.remove_find [OF H assms(2)] hashing.copy_ok [OF H assms(2)] hashing.count_card [OF H assms(2)] by simp
qed

theorem table_refines_map_witness:
  "ht_find hash_int (ht_remove hash_int 212 (ht_put hash_int 1 ''b'' (ht_put hash_int 212 ''a'' (ht_new default_size)))) =
    (ht_find hash_int (ht_put hash_int 1 ''b'' (ht_put hash_int 212 ''a'' (ht_new default_size))))(212 := None)"
proof -
  have eq: "\<forall>a b. hk_equals hash_int a b \<longleftrightarrow> a = b" by (simp add: hash_int_def)
  have "ht_ok hash_int (ht_new default_size :: (int, string) htable)" by (rule ht_ok_new [OF default_size_ok])
  then have ok: "ht_ok hash_int (ht_put hash_int 1 ''b'' (ht_put hash_int 212 ''a'' (ht_new default_size)))"
    by (intro hint.put_ok)
  show ?thesis using table_refines_map [OF eq ok, where k = 212] by simp
qed

text \<open>
  C38 The two tables of the mapping between identifiers and variables stay inverse to each
  other: adding a pair also removes what its identifier and its variable were paired with, and
  removing by identifier or by variable is the same.
\<close>

theorem mapping_bijective:
  assumes "im_ok m"
  shows "im_ok (im_add i g m) \<and>
    im_find1 (im_add i g m) = (\<lambda>j. if j = i then Some g else if im_find1 m j = Some g then None else im_find1 m j) \<and>
    (\<forall>j h. im_find1 (im_add i g m) j = Some h \<longleftrightarrow> im_find2 (im_add i g m) h = Some j) \<and>
    (\<forall>j h. im_find1 m j = Some h \<longrightarrow> (\<exists>m'. im_del1 j m = Some m' \<and> im_del2 h m = Some m' \<and> im_ok m' \<and>
      im_find1 m' = (im_find1 m)(j := None)))"
proof -
  have del: "\<exists>m'. im_del1 j m = Some m' \<and> im_del2 h m = Some m' \<and> im_ok m' \<and> im_find1 m' = (im_find1 m)(j := None)"
    if found: "im_find1 m j = Some h" for j h
    by (rule im_del_finds [OF assms found]) (auto simp: fun_eq_iff)
  show ?thesis using im_add_finds [OF assms] im_ok_inv [OF im_add_finds(1) [OF assms]] del by (simp add: fun_eq_iff)
qed

theorem mapping_bijective_witness:
  "im_find1 (im_add (Reg 2) (idval_t 0 NO_STEP) (im_add (Reg 1) (idval_t 0 NO_STEP) im_new)) (Reg 1) = None"
  using mapping_bijective [OF im_add_finds(1) [OF im_new_ok], of "Reg 2" "idval_t 0 NO_STEP" "Reg 1" "idval_t 0 NO_STEP"]
  by (simp add: im_add_finds)

text \<open>
  C39 An address that the check of the memory segments accepts as safe lies in a writable
  segment, in every state.
\<close>

theorem accesses_checked:
  assumes "poly_env E" and "dom_ok E gen d" and "check_segments E d g ss k = Some CASE_SAFE" and "v \<in> wsem (e_ppl E) (d_poly d)"
  shows "\<exists>s \<in> set ss. seg_writable s \<and> of_int (seg_first s) \<le> v g \<and> v g < of_int (seg_last s)"
  by (rule poly_env.check_segments_safe [OF assms(1) dom_okD(2) [OF assms(2)] assms(3,4)])

theorem accesses_checked_witness:
  "\<exists>s \<in> set [\<lparr>seg_address = 4, seg_size = 8, seg_writable = True\<rparr>]. seg_writable s \<and>
    of_int (seg_first s) \<le> (5 :: rat) \<and> (5 :: rat) < of_int (seg_last s)"
proof -
  have "check_segments sample_env sample_state 0 [\<lparr>seg_address = 4, seg_size = 8, seg_writable = True\<rparr>] 0 = Some CASE_SAFE"
    by code_simp
  moreover have "(\<lambda>g. 5) \<in> wsem (e_ppl sample_env) (d_poly sample_state)" by (simp add: sample_state_wp(3))
  moreover have "dom_ok sample_env 2 sample_state" using sample_state_ok by (simp add: plain_def)
  ultimately show ?thesis using accesses_checked [OF sample_env_laws] by blast
qed

section \<open>What is printed\<close>



end
